(* ===== verification/Wired_Prelude.thy ===== *)
theory Wired_Prelude
  imports Main "HOL-Library.Word" "HOL-Library.Code_Target_Nat"
begin

unbundle bit_operations_syntax

text \<open>
  The shared ground of the development: the machine types of
  \<^verbatim>\<open>src/common/platform/sys/syscall.h\<close>, byte buffers, and the inline helpers of
  \<^verbatim>\<open>src/common/bytes/util/\<close> (bytes.h, be.h, ct.h, num.h), with the generic lemmas
  on buffers, big-endian numbers and words that the component theories use.

  Conventions of the whole development.
  \<^item> \<open>u8 \<dots> u64\<close> are words of that width, so protocol values keep C's wrap-around.
  \<^item> \<open>usz\<close> (lengths, offsets, capacities) is \<open>nat\<close>; wherever the C code adds to or
    subtracts from such a value something that is not bounded by the object it points
    into, the 64-bit wrap-around is written out with \<open>usz_add\<close> and \<open>usz_sub\<close>.
  \<^item> A pointer to bytes is the list of the bytes from there to the end of the object;
    \<open>buf + off\<close> is \<open>drop off buf\<close>. \<open>rd\<close> reads one byte. A read outside the object,
    which is undefined in C, yields 0; no theorem relies on that value.
  \<^item> A writer in C returns 1 or 0 and updates a buffer and an offset through pointers,
    also when it returns 0: its model returns the triple of the three (\<open>put_res\<close>).
  \<^item> A reader returns \<open>None\<close> for 0, and otherwise what it stored through its pointers.
\<close>

section \<open>Machine types and buffers\<close>

type_synonym u8 = "8 word"
type_synonym u16 = "16 word"
type_synonym u32 = "32 word"
type_synonym u64 = "64 word"
type_synonym usz = nat
type_synonym bytes = "u8 list"
type_synonym put_res = "bool \<times> bytes \<times> usz"

named_theorems wire_simps \<open>equations that evaluate a writer or reader on well-formed input\<close>
named_theorems fits_simps \<open>when a writer succeeds\<close>

definition usz_add :: "usz \<Rightarrow> usz \<Rightarrow> usz" where
  "usz_add a b = (a + b) mod 2 ^ 64"

definition usz_sub :: "usz \<Rightarrow> usz \<Rightarrow> usz" where
  "usz_sub a b = (a + (2 ^ 64 - b mod 2 ^ 64)) mod 2 ^ 64"

definition rd :: "bytes \<Rightarrow> usz \<Rightarrow> u8" where
  "rd buf i = (if i < length buf then buf ! i else 0)"

text \<open>\<open>overwrite buf off src\<close> is the effect of the store loop
  \<^verbatim>\<open>for (i = 0; i < n; i++) buf[off + i] = src[i]\<close>.\<close>

definition overwrite :: "'a list \<Rightarrow> nat \<Rightarrow> 'a list \<Rightarrow> 'a list" where
  "overwrite buf off src = take off buf @ src @ drop (off + length src) buf"

text \<open>\<open>put_seq\<close> is C's \<^verbatim>\<open>if (!p(...)) return 0; return q(...)\<close>.\<close>

definition put_seq :: "put_res \<Rightarrow> (bytes \<Rightarrow> usz \<Rightarrow> put_res) \<Rightarrow> put_res" where
  "put_seq r k = (case r of (ok, buf, off) \<Rightarrow> if ok then k buf off else (False, buf, off))"

text \<open>The usual last step of an encoder: return the offset, or 0 on failure.\<close>

definition put_done :: "put_res \<Rightarrow> usz \<times> bytes" where
  "put_done r = (case r of (ok, buf, off) \<Rightarrow> (if ok then off else 0, buf))"

section \<open>bytes.h\<close>

definition quic_put_bytes :: "bytes \<Rightarrow> usz \<Rightarrow> usz \<Rightarrow> bytes \<Rightarrow> usz \<Rightarrow> put_res" where
  "quic_put_bytes buf cap off src n =
     (if usz_add off n > cap then (False, buf, off)
      else (True, overwrite buf off (take n src), usz_add off n))"

definition quic_take_bytes :: "bytes \<Rightarrow> usz \<Rightarrow> usz \<Rightarrow> usz \<Rightarrow> (bytes \<times> usz) option" where
  "quic_take_bytes buf len off n =
     (if usz_add off n > len then None
      else Some (take n (drop off buf), usz_add off n))"

definition quic_memcpy :: "bytes \<Rightarrow> bytes \<Rightarrow> usz \<Rightarrow> bytes" where
  "quic_memcpy dst src n = overwrite dst 0 (take n src)"

definition quic_memset :: "bytes \<Rightarrow> u8 \<Rightarrow> usz \<Rightarrow> bytes" where
  "quic_memset dst c n = overwrite dst 0 (replicate n c)"

section \<open>be.h\<close>

definition quic_put_be16 :: "u16 \<Rightarrow> bytes" where
  "quic_put_be16 v = [ucast (drop_bit 8 v), ucast v]"

definition quic_put_be32 :: "u32 \<Rightarrow> bytes" where
  "quic_put_be32 v =
     [ucast (drop_bit 24 v), ucast (drop_bit 16 v), ucast (drop_bit 8 v), ucast v]"

section \<open>ct.h\<close>

definition quic_ct_diff16 :: "bytes \<Rightarrow> bytes \<Rightarrow> u8" where
  "quic_ct_diff16 a b = foldl (\<lambda>d i. d OR (rd a i XOR rd b i)) 0 [0..<16]"

definition quic_ct_diff32 :: "bytes \<Rightarrow> bytes \<Rightarrow> u8" where
  "quic_ct_diff32 a b = foldl (\<lambda>d i. d OR (rd a i XOR rd b i)) 0 [0..<32]"

section \<open>num.h\<close>

definition quic_u64_min :: "u64 \<Rightarrow> u64 \<Rightarrow> u64" where
  "quic_u64_min a b = (if a < b then a else b)"

definition quic_u64_max :: "u64 \<Rightarrow> u64 \<Rightarrow> u64" where
  "quic_u64_max a b = (if a > b then a else b)"

definition quic_u64_absdiff :: "u64 \<Rightarrow> u64 \<Rightarrow> u64" where
  "quic_u64_absdiff a b = (if a > b then a - b else b - a)"

definition quic_u32_in :: "u32 \<Rightarrow> u32 list \<Rightarrow> bool" where
  "quic_u32_in v list = list_ex (\<lambda>x. x = v) list"

section \<open>Lemmas on wrap-around sizes and buffers\<close>

lemma pow2_nums:
  "(2 :: nat) ^ 16 = 65536" "(2 :: nat) ^ 30 = 1073741824" "(2 :: nat) ^ 31 = 2147483648"
  "(2 :: nat) ^ 32 = 4294967296" "(2 :: nat) ^ 62 = 4611686018427387904"
  "(2 :: nat) ^ 63 = 9223372036854775808" "(2 :: nat) ^ 64 = 18446744073709551616"
  by simp_all

lemma usz_add_nowrap [simp]: "a + b < 2 ^ 64 \<Longrightarrow> usz_add a b = a + b"
  by (simp add: usz_add_def)

lemma usz_sub_nowrap [simp]:
  assumes "b \<le> a" "a < 2 ^ 64"
  shows "usz_sub a b = a - b"
proof -
  have "a + (2 ^ 64 - b mod 2 ^ 64) = (a - b) + 2 ^ 64"
    using assms by simp
  then show ?thesis
    using assms unfolding usz_sub_def by (metis mod_add_self2 less_imp_diff_less mod_less)
qed

lemma usz_add_word: "usz_add (unat (a :: u64)) (unat b) = unat (a + b)"
  by (simp add: usz_add_def unat_word_ariths)

lemma length_overwrite [simp]:
  "off + length src \<le> length buf \<Longrightarrow> length (overwrite buf off src) = length buf"
  by (simp add: overwrite_def)

lemma overwrite_Nil [simp]: "overwrite buf off [] = buf"
  by (simp add: overwrite_def)

lemma overwrite_overwrite:
  assumes "off + length xs \<le> length buf"
  shows "overwrite (overwrite buf off xs) (off + length xs) ys = overwrite buf off (xs @ ys)"
  using assms by (cases xs) (auto simp: overwrite_def min_def ac_simps)

lemma overwrite_update:
  "off < length buf \<Longrightarrow> overwrite (buf[off := b]) (Suc off) xs = overwrite buf off (b # xs)"
  by (simp add: overwrite_def take_Suc_conv_app_nth)

lemma overwrite_0: "overwrite buf 0 xs = xs @ drop (length xs) buf"
  by (simp add: overwrite_def)

lemma take_overwrite:
  "off + length xs \<le> length buf \<Longrightarrow> take (off + length xs) (overwrite buf off xs) = take off buf @ xs"
  by (cases xs) (auto simp: overwrite_def min_def)

lemma rd_nth [simp]: "i < length buf \<Longrightarrow> rd buf i = buf ! i"
  by (simp add: rd_def)

lemma rd_append: "rd (xs @ ys) i = (if i < length xs then rd xs i else rd ys (i - length xs))"
  by (auto simp: rd_def nth_append)

lemma rd_drop: "rd (drop k xs) i = rd xs (k + i)"
  by (auto simp: rd_def)

lemma rd_Cons_0 [simp]: "rd (x # xs) 0 = x"
  by (simp add: rd_def)

lemma map_rd_take: "n \<le> length buf \<Longrightarrow> map (rd buf) [0..<n] = take n buf"
  by (intro nth_equalityI) (simp_all add: rd_def)

lemma take_drop_rd: "k + n \<le> length p \<Longrightarrow> take n (drop k p) = map (\<lambda>j. rd p (k + j)) [0..<n]"
  by (intro nth_equalityI) (simp_all add: rd_def)

lemma upt4: "[0..<4] = [0, 1, 2, 3]"
  by (simp add: upt_rec)

lemma put_seq_True [simp]: "put_seq (True, buf, off) k = k buf off"
  by (simp add: put_seq_def)

lemma put_seq_False [simp]: "put_seq (False, buf, off) k = (False, buf, off)"
  by (simp add: put_seq_def)

lemma fst_put_seq: "fst (put_seq r k) \<longleftrightarrow> fst r \<and> fst (k (fst (snd r)) (snd (snd r)))"
  by (cases r) (simp add: put_seq_def)

lemma put_done_simps [simp]:
  "put_done (True, buf, off) = (off, buf)"
  "put_done (False, buf, off) = (0, buf)"
  by (simp_all add: put_done_def)

section \<open>Blocks\<close>

text \<open>\<open>chunks n xs\<close> are the whole blocks of \<open>n\<close> elements of \<open>xs\<close>, without the rest.\<close>

function chunks :: "nat \<Rightarrow> 'a list \<Rightarrow> 'a list list" where
  "chunks n xs = (if n = 0 \<or> length xs < n then [] else take n xs # chunks n (drop n xs))"
  by pat_completeness auto
termination by (relation "measure (\<lambda>(n, xs). length xs)") auto

declare chunks.simps [simp del]

lemma chunks_short [simp]: "length xs < n \<Longrightarrow> chunks n xs = []"
  by (simp add: chunks.simps)

lemma chunks_append:
  "0 < n \<Longrightarrow> length xs mod n = 0 \<Longrightarrow> chunks n (xs @ ys) = chunks n xs @ chunks n ys"
proof (induction n xs rule: chunks.induct)
  case (1 n xs)
  show ?case
  proof (cases "length xs < n")
    case True
    then have "xs = []" using 1(3) by simp
    then show ?thesis using 1(2) by simp
  next
    case False
    then have "length (drop n xs) mod n = 0" using 1(3) by (simp add: mod_if)
    then have "chunks n (drop n xs @ ys) = chunks n (drop n xs) @ chunks n ys" using 1(1,2) False by auto
    then show ?thesis using False 1(2) by (subst (1 2) chunks.simps) simp
  qed
qed

lemma chunks_len: "c \<in> set (chunks n xs) \<Longrightarrow> length c = n"
proof (induction n xs rule: chunks.induct)
  case (1 n xs)
  show ?case
  proof (cases "n = 0 \<or> length xs < n")
    case False
    then have "c = take n xs \<or> c \<in> set (chunks n (drop n xs))" using 1(2) by (subst (asm) chunks.simps) auto
    then show ?thesis using 1(1) False by auto
  qed (use 1(2) in \<open>simp add: chunks.simps\<close>)
qed

end
