(* ===== verification/Varint.thy ===== *)
theory Varint
  imports Wired_Prelude
begin

text \<open>
  QUIC variable-length integers, \<^verbatim>\<open>src/common/bytes/varint/varint.c\<close>: the length
  class, the encoder and decoder with their byte loops, and the two cursor helpers every
  codec is built from. The wire format is stated as a number (RFC 9000, section 16): an
  \<open>n\<close>-byte big-endian number whose two top bits hold \<open>log2 n\<close> and whose other bits hold
  the value. The lemmas show that the encoder emits it, that the decoder computes its
  value for every input, and when the cursor helpers succeed.
\<close>

section \<open>The code\<close>

definition QUIC_VARINT_MAX :: u64 where
  "QUIC_VARINT_MAX = 0x3FFFFFFFFFFFFFFF"

text \<open>\<open>takeWhile\<close> counts the thresholds the value exceeds, the loop variable \<^verbatim>\<open>i\<close>.\<close>

definition quic_varint_len :: "u64 \<Rightarrow> usz" where
  "quic_varint_len v =
     [1, 2, 4, 8, 0] ! length (takeWhile (\<lambda>m. v > m) [0x3F, 0x3FFF, 0x3FFFFFFF, QUIC_VARINT_MAX])"

text \<open>The store loop \<^verbatim>\<open>while (i-- > 0) { buf[i] = (u8)(v & 0xFF); v >>= 8; }\<close>.\<close>

fun store_be :: "usz \<Rightarrow> bytes \<Rightarrow> u64 \<Rightarrow> bytes" where
  "store_be 0 buf v = buf"
| "store_be (Suc i) buf v = store_be i (buf[i := ucast (v AND 0xFF)]) (drop_bit 8 v)"

definition put_be :: "bytes \<Rightarrow> u64 \<Rightarrow> usz \<Rightarrow> u8 \<Rightarrow> bytes" where
  "put_be buf v n prefix = (let b = store_be n buf v in b[0 := rd b 0 OR prefix])"

definition quic_varint_encode :: "bytes \<Rightarrow> u64 \<Rightarrow> usz \<times> bytes" where
  "quic_varint_encode buf v =
     (let n = quic_varint_len v
      in if n = 0 then (0, buf)
         else (n, put_be buf v n ([0, 0x00, 0x40, 0, 0x80, 0, 0, 0, 0xC0] ! n)))"

text \<open>The load loop \<^verbatim>\<open>v = (v << 8) | buf[i]\<close> over the bytes it visits.\<close>

definition load_be :: "u64 \<Rightarrow> bytes \<Rightarrow> u64" where
  "load_be v bs = foldl (\<lambda>v b. push_bit 8 v OR ucast b) v bs"

definition get_be :: "bytes \<Rightarrow> usz \<Rightarrow> u64" where
  "get_be buf n = load_be (ucast (rd buf 0 AND 0x3F)) (map (rd buf) [1..<n])"

definition quic_varint_decode :: "bytes \<Rightarrow> usz \<Rightarrow> (u64 \<times> usz) option" where
  "quic_varint_decode buf n =
     (if n = 0 then None
      else let need = [1, 2, 4, 8] ! unat (drop_bit 6 (rd buf 0))
           in if n < need then None else Some (get_be buf need, need))"

definition quic_varint_take :: "bytes \<Rightarrow> usz \<Rightarrow> usz \<Rightarrow> (u64 \<times> usz) option" where
  "quic_varint_take buf n off =
     (case quic_varint_decode (drop off buf) (usz_sub n off) of
        None \<Rightarrow> None
      | Some (v, used) \<Rightarrow> Some (v, usz_add off used))"

definition quic_varint_put :: "bytes \<Rightarrow> usz \<Rightarrow> usz \<Rightarrow> u64 \<Rightarrow> put_res" where
  "quic_varint_put buf cap off v =
     (let need = quic_varint_len v
      in if need = 0 \<or> usz_add off need > cap then (False, buf, off)
         else case quic_varint_encode (drop off buf) v of
           (used, sub) \<Rightarrow> (True, take off buf @ sub, usz_add off used))"

section \<open>Big-endian numbers\<close>

primrec be_bytes :: "nat \<Rightarrow> nat \<Rightarrow> bytes" where
  "be_bytes 0 v = []"
| "be_bytes (Suc n) v = be_bytes n (v div 256) @ [of_nat v]"

definition be_val :: "bytes \<Rightarrow> nat" where
  "be_val bs = foldl (\<lambda>a b. a * 256 + unat b) 0 bs"

lemma length_be_bytes [simp]: "length (be_bytes n v) = n"
  by (induction n arbitrary: v) auto

lemma be_foldl: "foldl (\<lambda>a b. a * 256 + unat b) a bs = a * 256 ^ length bs + be_val (bs :: bytes)"
proof (induction bs rule: rev_induct)
  case Nil
  then show ?case by (simp add: be_val_def)
next
  case (snoc b bs)
  then show ?case by (simp add: be_val_def algebra_simps)
qed

lemma be_val_Nil [simp]: "be_val [] = 0"
  by (simp add: be_val_def)

lemma be_val_snoc [simp]: "be_val (bs @ [b]) = be_val bs * 256 + unat b"
  by (simp add: be_val_def)

lemma be_val_Cons: "be_val (b # bs) = unat b * 256 ^ length bs + be_val bs"
  using be_foldl[of "unat b" bs] by (simp add: be_val_def)

lemma unat_u8_less: "unat (b :: u8) < 256"
  using unsigned_less[of b] by simp

lemma unat_of_nat_u8: "unat (of_nat v :: u8) = v mod 256"
  by (simp add: unat_of_nat)

lemma be_val_be_bytes: "be_val (be_bytes n v) = v mod 256 ^ n"
proof (induction n arbitrary: v)
  case 0
  then show ?case by simp
next
  case (Suc n)
  have "v mod (256 * 256 ^ n) = v div 256 mod 256 ^ n * 256 + v mod 256"
    by (simp add: mod_mult2_eq)
  then show ?case by (simp add: Suc.IH unat_of_nat_u8)
qed

lemma be_val_less: "be_val bs < 256 ^ length bs"
proof (induction bs rule: rev_induct)
  case (snoc b bs)
  have "unat b < 256" by (rule unat_u8_less)
  moreover have "be_val bs + 1 \<le> 256 ^ length bs" using snoc by simp
  then have "(be_val bs + 1) * 256 \<le> 256 ^ length bs * 256" by (rule mult_right_mono) simp
  ultimately show ?case by simp
qed simp

lemma be_bytes_be_val: "be_bytes (length bs) (be_val bs) = bs"
proof (induction bs rule: rev_induct)
  case (snoc b bs)
  have "unat b < 256" by (rule unat_u8_less)
  then have "(be_val bs * 256 + unat b) div 256 = be_val bs" by simp
  moreover have "of_nat (be_val bs * 256 + unat b) = b"
  proof -
    have "(256 :: u8) = 0" by simp
    then have "of_nat (be_val bs * 256) = (0 :: u8)" by (simp only: of_nat_mult of_nat_numeral mult_zero_right)
    then show ?thesis by simp
  qed
  ultimately show ?case using snoc by simp
qed simp

lemma be_bytes_nth: "i < n \<Longrightarrow> be_bytes n v ! i = of_nat (v div 256 ^ (n - 1 - i))"
proof (induction n arbitrary: v)
  case (Suc n)
  show ?case
  proof (cases "i = n")
    case False
    then have "i < n" using Suc.prems by simp
    then obtain k where k: "n - i = Suc k" by (cases "n - i") auto
    have "n - 1 - i = k" using k by simp
    then have "v div 256 div 256 ^ (n - 1 - i) = v div 256 ^ (n - i)"
      using k by (simp add: div_mult2_eq)
    with \<open>i < n\<close> Suc.IH show ?thesis by (simp add: nth_append)
  qed (simp add: nth_append)
qed simp

lemma be_bytes_2: "be_bytes 2 v = [of_nat (v div 256), of_nat v]"
  by (simp add: numeral_2_eq_2)

lemma pn_bytes_eq: "map (\<lambda>i. ucast (drop_bit ((k - 1 - i) * 8) (pn :: 'a :: len word)) :: u8) [0..<k] = be_bytes k (unat pn)"
proof (rule nth_equalityI)
  fix i assume "i < length (map (\<lambda>i. ucast (drop_bit ((k - 1 - i) * 8) pn) :: u8) [0..<k])"
  then have i: "i < k" by simp
  have "unat (drop_bit ((k - 1 - i) * 8) pn) = unat pn div 256 ^ (k - 1 - i)"
    by (simp only: unat_drop_bit_eq) (simp add: drop_bit_eq_div power_mult mult.commute[of _ 8])
  then have "ucast (drop_bit ((k - 1 - i) * 8) pn) = (of_nat (unat pn div 256 ^ (k - 1 - i)) :: u8)"
    by (metis of_nat_unat)
  then show "map (\<lambda>i. ucast (drop_bit ((k - 1 - i) * 8) pn) :: u8) [0..<k] ! i = be_bytes k (unat pn) ! i"
    using i by (simp add: be_bytes_nth)
qed simp

lemma be_bytes_add: "be_bytes (k + n) v = be_bytes k (v div 256 ^ n) @ be_bytes n v"
  by (induction n arbitrary: v) (simp_all add: div_mult2_eq[symmetric])

lemma be_bytes_zero: "be_bytes k 0 = replicate k 0"
  by (induction k) (simp_all add: replicate_append_same)

lemma be_val_inj: "length xs = length ys \<Longrightarrow> be_val xs = be_val ys \<Longrightarrow> xs = ys"
  by (metis be_bytes_be_val)

section \<open>The loops compute big-endian numbers\<close>

lemma ucast_and_255: "ucast (v AND 0xFF :: u64) = (of_nat (unat v) :: u8)"
proof -
  have "v AND 0xFF = take_bit 8 v" by (simp add: take_bit_eq_mask mask_eq_exp_minus_1)
  then show ?thesis
    by (simp only:) (intro bit_word_eqI, auto simp: bit_simps)
qed

lemma store_be_eq:
  "n \<le> length buf \<Longrightarrow> store_be n buf v = overwrite buf 0 (be_bytes n (unat v))"
proof (induction n arbitrary: buf v)
  case 0
  then show ?case by simp
next
  case (Suc n)
  have "unat (drop_bit 8 v) = unat v div 256"
    by (simp only: unat_drop_bit_eq) (simp add: drop_bit_eq_div)
  with Suc show ?case
    by (simp add: overwrite_0 ucast_and_255 drop_update_swap Cons_nth_drop_Suc[symmetric])
qed

lemma load_step: "push_bit 8 v OR ucast (b :: u8) = v * 256 + (ucast b :: u64)"
proof -
  have "push_bit 8 v AND ucast b = (0 :: u64)"
  proof (rule bit_word_eqI)
    fix n assume "n < LENGTH(64)"
    show "bit (push_bit 8 v AND ucast b) n = bit (0 :: u64) n"
      using bit_imp_le_length[of b n] by (auto simp: bit_simps)
  qed
  then have "push_bit 8 v OR ucast b = push_bit 8 v + (ucast b :: u64)"
    by (simp add: disjunctive_add_eq_or)
  then show ?thesis by (simp add: push_bit_eq_mult mult.commute)
qed

lemma load_be_eq: "load_be v bs = of_nat (unat v * 256 ^ length bs + be_val bs)"
proof (induction bs rule: rev_induct)
  case Nil
  then show ?case by (simp add: load_be_def)
next
  case (snoc b bs)
  have "load_be v (bs @ [b]) = load_be v bs * 256 + ucast b"
    by (simp add: load_be_def load_step)
  also have "\<dots> = of_nat ((unat v * 256 ^ length bs + be_val bs) * 256 + unat b)"
    by (simp only: snoc.IH of_nat_add of_nat_mult of_nat_numeral of_nat_unat)
  finally show ?case by (simp add: algebra_simps)
qed

section \<open>The wire format of RFC 9000, section 16\<close>

definition varint_class :: "nat \<Rightarrow> nat" where
  "varint_class n = (if n = 1 then 0 else if n = 2 then 1 else if n = 4 then 2 else 3)"

definition varint_wire :: "u64 \<Rightarrow> bytes" where
  "varint_wire v =
     (let n = quic_varint_len v in be_bytes n (unat v + varint_class n * 2 ^ (8 * n - 2)))"

lemma varint_len_unat:
  "quic_varint_len v =
     (if unat v < 2 ^ 6 then 1 else if unat v < 2 ^ 14 then 2 else if unat v < 2 ^ 30 then 4
      else if unat v < 2 ^ 62 then 8 else 0)"
  by (simp add: quic_varint_len_def QUIC_VARINT_MAX_def word_less_nat_alt not_less le_Suc_eq)

lemma varint_len_cases:
  assumes "v \<le> QUIC_VARINT_MAX"
  obtains "quic_varint_len v = 1" "unat v < 2 ^ 6" | "quic_varint_len v = 2" "unat v < 2 ^ 14"
    | "quic_varint_len v = 4" "unat v < 2 ^ 30" | "quic_varint_len v = 8" "unat v < 2 ^ 62"
proof -
  have "unat v < 2 ^ 62"
    using assms by (simp add: QUIC_VARINT_MAX_def word_le_nat_alt)
  then consider "unat v < 2 ^ 6" | "unat v < 2 ^ 14" "\<not> unat v < 2 ^ 6"
    | "unat v < 2 ^ 30" "\<not> unat v < 2 ^ 14" | "unat v < 2 ^ 62" "\<not> unat v < 2 ^ 30"
    by linarith
  then show ?thesis by cases (use that in \<open>simp_all add: varint_len_unat\<close>)
qed

lemma varint_len_0: "quic_varint_len v = 0 \<longleftrightarrow> \<not> v \<le> QUIC_VARINT_MAX"
  by (auto simp: varint_len_unat QUIC_VARINT_MAX_def word_le_nat_alt)

lemma varint_len_le_8: "quic_varint_len v \<le> 8"
  by (simp add: varint_len_unat)

lemma length_varint_wire [simp]: "length (varint_wire v) = quic_varint_len v"
  by (simp add: varint_wire_def Let_def)

text \<open>Setting the two top bits of a byte below 64 adds a multiple of 64.\<close>

lemma or_prefix:
  assumes "unat (b :: u8) < 64" "c < 4"
  shows "b OR of_nat (c * 64) = b + of_nat (c * 64)"
proof -
  have "take_bit 6 b = b"
    using assms(1) by (simp only: word_unat_eq_iff unsigned_take_bit_eq) (simp add: take_bit_eq_mod)
  then have low: "\<not> bit b n" if "6 \<le> n" for n
    using that bit_take_bit_iff[of 6 b n] by simp
  have "(of_nat (c * 64) :: u8) = push_bit 6 (of_nat c)"
    by (simp add: push_bit_eq_mult)
  then have "b AND of_nat (c * 64) = 0"
    using low by (simp only:) (intro bit_word_eqI, auto simp: bit_simps)
  then show ?thesis by (simp add: disjunctive_add_eq_or)
qed

lemma put_be_Suc:
  assumes "Suc k \<le> length buf" "unat v < 2 ^ (8 * k + 6)" "c < 4"
  shows "put_be buf v (Suc k) (of_nat (c * 64)) =
         overwrite buf 0 (be_bytes (Suc k) (unat v + c * 2 ^ (8 * k + 6)))"
proof -
  obtain b bs where w: "be_bytes (Suc k) (unat v) = b # bs"
    by (cases "be_bytes (Suc k) (unat v)") auto
  then have len: "length bs = k" by (metis length_be_bytes length_Cons Suc_inject)
  have pow: "(2 :: nat) ^ (8 * k + 6) = 64 * 256 ^ k" "(256 :: nat) ^ Suc k = 256 * 256 ^ k"
    by (simp_all add: power_add power_mult)
  have val: "unat b * 256 ^ k + be_val bs = unat v"
    using be_val_be_bytes[of "Suc k" "unat v"] assms(2) len unfolding w be_val_Cons pow by simp
  have "unat b < 64"
  proof (rule ccontr)
    assume "\<not> unat b < 64"
    then have "64 * 256 ^ k \<le> unat b * 256 ^ k" by (intro mult_right_mono) simp_all
    with val assms(2) pow show False by linarith
  qed
  then have sum: "unat (b + of_nat (c * 64)) = unat b + c * 64"
    using assms(3) by (simp add: unat_word_ariths unat_of_nat)
  have "be_val ((b OR of_nat (c * 64)) # bs) = unat v + c * 2 ^ (8 * k + 6)"
    unfolding or_prefix[OF \<open>unat b < 64\<close> assms(3)] be_val_Cons sum len pow
    using val by (simp add: algebra_simps)
  then have "be_bytes (Suc k) (unat v + c * 2 ^ (8 * k + 6)) = (b OR of_nat (c * 64)) # bs"
    using be_bytes_be_val[of "(b OR of_nat (c * 64)) # bs"] len by (simp del: be_bytes.simps)
  then show ?thesis
    using assms(1) by (simp add: put_be_def Let_def store_be_eq w overwrite_0 del: be_bytes.simps store_be.simps)
qed

lemma put_be_eq:
  assumes "0 < n" "n \<le> length buf" "unat v < 2 ^ (8 * n - 2)" "c < 4"
  shows "put_be buf v n (of_nat (c * 64)) =
         overwrite buf 0 (be_bytes n (unat v + c * 2 ^ (8 * n - 2)))"
proof (cases n)
  case (Suc k)
  then have "8 * n - 2 = 8 * k + 6" by simp
  then show ?thesis using put_be_Suc[of k buf v c] assms Suc by metis
qed (use assms in simp)

lemmas varint_enc_simps = quic_varint_encode_def varint_wire_def varint_class_def

lemma varint_encode_eq:
  assumes "v \<le> QUIC_VARINT_MAX" "quic_varint_len v \<le> length buf"
  shows "quic_varint_encode buf v = (quic_varint_len v, overwrite buf 0 (varint_wire v))"
  using assms(1)
proof (cases rule: varint_len_cases)
  case 1 then show ?thesis using assms(2) put_be_eq[of 1 buf v 0]
    by (simp add: varint_enc_simps)
next
  case 2 then show ?thesis using assms(2) put_be_eq[of 2 buf v 1]
    by (simp add: varint_enc_simps)
next
  case 3 then show ?thesis using assms(2) put_be_eq[of 4 buf v 2]
    by (simp add: varint_enc_simps)
next
  case 4 then show ?thesis using assms(2) put_be_eq[of 8 buf v 3]
    by (simp add: varint_enc_simps)
qed

lemma div_mod_top:
  assumes "r < (256 :: nat) ^ k"
  shows "(b * 256 ^ k + r) div (64 * 256 ^ k) = b div 64"
    and "(b * 256 ^ k + r) mod (64 * 256 ^ k) = b mod 64 * 256 ^ k + r"
proof -
  have d: "(b * 256 ^ k + r) div 256 ^ k = b" and m: "(b * 256 ^ k + r) mod 256 ^ k = r"
    using assms by simp_all
  show "(b * 256 ^ k + r) div (64 * 256 ^ k) = b div 64"
    by (simp only: mult.commute[of 64] div_mult2_eq d)
  show "(b * 256 ^ k + r) mod (64 * 256 ^ k) = b mod 64 * 256 ^ k + r"
    by (simp only: mult.commute[of 64] mod_mult2_eq d m) (simp only: mult.commute)
qed

lemma pow_top: "0 < n \<Longrightarrow> (2 :: nat) ^ (8 * n - 2) = 64 * 256 ^ (n - 1)"
proof (cases n)
  case (Suc k)
  then have "8 * n - 2 = 6 + 8 * k" by simp
  then show ?thesis using Suc by (simp add: power_add power_mult)
qed simp

lemma get_be_eq:
  assumes "0 < n" "n \<le> length buf"
  shows "get_be buf n = of_nat (be_val (take n buf) mod 2 ^ (8 * n - 2))"
proof -
  define rest where "rest = map (rd buf) [1..<n]"
  have "take n buf = map (rd buf) (0 # [1..<n])"
    using assms map_rd_take[of n buf] by (simp add: upt_conv_Cons)
  then have bs: "take n buf = rd buf 0 # rest" by (simp add: rest_def)
  have len: "length rest = n - 1" by (simp add: rest_def)
  have "be_val rest < 256 ^ (n - 1)" using be_val_less[of rest] len by simp
  moreover have "unat (ucast (rd buf 0 AND 0x3F) :: u64) = unat (rd buf 0) mod 64"
  proof -
    have "(0x3F :: u8) = mask 6" by (simp add: mask_eq_exp_minus_1)
    then have "rd buf 0 AND 0x3F = take_bit 6 (rd buf 0)" by (simp only: take_bit_eq_mask)
    then show ?thesis
      by (simp only: unsigned_ucast_eq unsigned_take_bit_eq) (simp add: take_bit_eq_mod mod_mod_cancel)
  qed
  ultimately show ?thesis
    unfolding get_be_def rest_def[symmetric] load_be_eq bs be_val_Cons len pow_top[OF assms(1)]
    by (simp only: div_mod_top)
qed

lemma nth_pow2:
  assumes "c < 4"
  shows "[1, 2, 4, 8] ! c = (2 :: nat) ^ c"
proof -
  have "c = 0 \<or> c = 1 \<or> c = 2 \<or> c = 3" using assms by linarith
  then show ?thesis by auto
qed

lemma varint_decode_eq:
  assumes "n \<le> length buf"
  shows "quic_varint_decode buf n =
    (if n = 0 then None
     else let need = 2 ^ (unat (hd buf) div 64)
          in if n < need then None
             else Some (of_nat (be_val (take need buf) mod 2 ^ (8 * need - 2)), need))"
proof (cases "n = 0")
  case False
  then have hd: "rd buf 0 = hd buf" using assms by (cases buf) auto
  have top: "unat (drop_bit 6 (hd buf)) = unat (hd buf) div 64"
    by (simp only: unat_drop_bit_eq) (simp add: drop_bit_eq_div)
  have "unat (hd buf) div 64 < 4" using unat_u8_less[of "hd buf"] by simp
  then have need: "[1, 2, 4, 8] ! (unat (hd buf) div 64) = (2 :: nat) ^ (unat (hd buf) div 64)"
    by (rule nth_pow2)
  show ?thesis
    using False assms unfolding quic_varint_decode_def hd top need
    by (auto simp: Let_def get_be_eq)
qed (simp add: quic_varint_decode_def)

lemma varint_wire_hd:
  assumes "v \<le> QUIC_VARINT_MAX"
  shows "varint_wire v \<noteq> []" "2 ^ (unat (hd (varint_wire v)) div 64) = quic_varint_len v"
    and "be_val (varint_wire v) mod 2 ^ (8 * quic_varint_len v - 2) = unat v"
proof -
  define n where "n = quic_varint_len v"
  define c where "c = varint_class n"
  have n0: "0 < n" using assms varint_len_0[of v] by (auto simp: n_def)
  have v: "unat v < 2 ^ (8 * n - 2)" and c: "c < 4" "2 ^ c = n"
    using assms by (cases rule: varint_len_cases; simp add: n_def c_def varint_class_def)+
  have w: "varint_wire v = be_bytes n (unat v + c * 2 ^ (8 * n - 2))"
    by (simp add: varint_wire_def n_def c_def Let_def)
  show ne: "varint_wire v \<noteq> []" using n0 w length_be_bytes[of n] by (metis list.size(3) less_numeral_extra(3))
  have "unat v + c * 2 ^ (8 * n - 2) < 4 * 2 ^ (8 * n - 2)"
  proof -
    have "(c + 1) * 2 ^ (8 * n - 2) \<le> 4 * 2 ^ (8 * n - 2)" using c(1) by (intro mult_right_mono) simp_all
    with v show ?thesis unfolding distrib_right by linarith
  qed
  moreover have "(256 :: nat) ^ n = 4 * 2 ^ (8 * n - 2)"
    using n0 unfolding pow_top[OF n0] by (cases n) simp_all
  ultimately have val: "be_val (varint_wire v) = unat v + c * 2 ^ (8 * n - 2)"
    by (simp add: w be_val_be_bytes)
  show "be_val (varint_wire v) mod 2 ^ (8 * quic_varint_len v - 2) = unat v"
    using v unfolding val n_def[symmetric] by simp
  obtain b bs where bs: "varint_wire v = b # bs" using ne by (cases "varint_wire v") auto
  have "length bs = n - 1" using length_varint_wire[of v] bs by (simp add: n_def)
  then have r: "be_val bs < 256 ^ (n - 1)" using be_val_less[of bs] by simp
  have "unat b div 64 = (unat v + c * 2 ^ (8 * n - 2)) div 2 ^ (8 * n - 2)"
    using div_mod_top(1)[OF r, of "unat b"] val \<open>length bs = n - 1\<close> n0
    unfolding bs be_val_Cons by (simp add: pow_top)
  also have "\<dots> = c" using v by simp
  finally show "2 ^ (unat (hd (varint_wire v)) div 64) = quic_varint_len v"
    using c(2) by (simp add: bs n_def)
qed

lemma varint_decode_wire:
  assumes "v \<le> QUIC_VARINT_MAX" "quic_varint_len v \<le> n" "n \<le> length (varint_wire v @ rest)"
  shows "quic_varint_decode (varint_wire v @ rest) n = Some (v, quic_varint_len v)"
proof -
  have "n \<noteq> 0" using assms varint_len_0[of v] by auto
  moreover have "hd (varint_wire v @ rest) = hd (varint_wire v)"
    using varint_wire_hd(1)[OF assms(1)] by (rule hd_append2)
  moreover have "take (quic_varint_len v) (varint_wire v @ rest) = varint_wire v"
    by simp
  ultimately show ?thesis
    using assms(2) unfolding varint_decode_eq[OF assms(3)] Let_def
    by (simp only: varint_wire_hd[OF assms(1)] not_less if_False of_nat_unat)
      (simp add: not_less)
qed

lemma varint_wire_small:
  assumes "unat v < 64"
  shows "varint_wire v = [ucast v]"
proof -
  have "quic_varint_len v = 1" using assms by (simp add: varint_len_unat)
  then show ?thesis by (simp add: varint_wire_def varint_class_def)
qed

lemma varint_max_unat: "v \<le> QUIC_VARINT_MAX \<longleftrightarrow> unat v < 2 ^ 62"
  by (simp add: QUIC_VARINT_MAX_def word_le_nat_alt) linarith

lemma small_le_varint_max: "unat v < 64 \<Longrightarrow> v \<le> QUIC_VARINT_MAX"
  by (simp add: varint_max_unat)

lemma get_be_bound:
  assumes "0 < n" "n \<le> 8"
  shows "get_be buf n \<le> QUIC_VARINT_MAX"
proof -
  define x where "x = unat (ucast (rd buf 0 AND 0x3F) :: u64)"
  define rest where "rest = map (rd buf) [1..<n]"
  have "(0x3F :: u8) = mask 6" by (simp add: mask_eq_exp_minus_1)
  then have "x = unat (take_bit 6 (rd buf 0)) mod 2 ^ 64"
    by (simp only: x_def take_bit_eq_mask[symmetric] unsigned_ucast_eq) (simp add: take_bit_eq_mod)
  then have x: "x \<le> 63" by (simp only: unsigned_take_bit_eq) (simp add: take_bit_eq_mod)
  have k: "length rest = n - 1" by (simp add: rest_def)
  have "be_val rest < 256 ^ (n - 1)" using be_val_less[of rest] k by simp
  moreover have "x * 256 ^ (n - 1) \<le> 63 * 256 ^ (n - 1)" using x by simp
  ultimately have "x * 256 ^ (n - 1) + be_val rest < 64 * 256 ^ (n - 1)" by linarith
  also have "\<dots> \<le> 64 * 256 ^ 7" using assms by (intro mult_left_mono power_increasing) simp_all
  finally have b: "x * 256 ^ (n - 1) + be_val rest < 2 ^ 62" by simp
  then have "unat (get_be buf n) = x * 256 ^ (n - 1) + be_val rest"
    unfolding get_be_def load_be_eq x_def[symmetric] rest_def[symmetric] k
    by (simp only: unat_of_nat) simp
  with b show ?thesis by (simp add: varint_max_unat)
qed

lemma varint_take_sound:
  assumes "quic_varint_take buf n off = Some (v, off')" "off \<le> n" "n < 2 ^ 63"
  shows "off < off'" "off' \<le> n" "v \<le> QUIC_VARINT_MAX"
proof -
  obtain need where d: "quic_varint_decode (drop off buf) (n - off) = Some (v, need)"
    and off': "off' = usz_add off need"
    using assms by (auto simp: quic_varint_take_def split: option.splits)
  let ?c = "unat (drop_bit 6 (rd (drop off buf) 0))"
  have "?c = unat (rd (drop off buf) 0) div 64"
    by (simp only: unat_drop_bit_eq) (simp add: drop_bit_eq_div)
  then have "?c < 4" using unat_u8_less[of "rd (drop off buf) 0"] by simp
  then have l: "[1, 2, 4, 8] ! ?c = (2 :: nat) ^ ?c" by (rule nth_pow2)
  have "(2 :: nat) ^ ?c \<le> 2 ^ 3" using \<open>?c < 4\<close> by (intro power_increasing) simp_all
  then have need: "0 < need" "need \<le> 8" "need \<le> n - off" "v = get_be (drop off buf) need"
    using d unfolding quic_varint_decode_def Let_def l by (auto split: if_splits)
  show "v \<le> QUIC_VARINT_MAX" unfolding need(4) by (rule get_be_bound[OF need(1,2)])
  have "off + need \<le> n" using need(3) assms(2) by linarith
  then have "off' = off + need" using off' assms(3) by simp
  with need assms(2) show "off < off'" "off' \<le> n" by linarith+
qed

end
