(* ===== verification/Packet_Number.thy ===== *)
theory Packet_Number
  imports Varint
begin

text \<open>
  Packet number truncation and recovery, \<^verbatim>\<open>src/transport/packet/header/packet/pnum.c\<close> and
  pnlen.c (RFC 9000, appendix A). The main lemma: a truncated packet number is recovered
  whenever the full one lies in the window of the encoded size around the next expected
  number; with the length the sender chooses, that holds for every receiver that has seen
  at least what the sender knows to be acknowledged.
\<close>

section \<open>The code\<close>

text \<open>The loop \<^verbatim>\<open>while (b < 4 && need >= ((u64)1 << (8 * b))) b++\<close>.\<close>

function pnum_len_loop :: "u64 \<Rightarrow> usz \<Rightarrow> usz" where
  "pnum_len_loop need b =
     (if b < 4 \<and> need \<ge> push_bit (8 * b) 1 then pnum_len_loop need (b + 1) else b)"
  by pat_completeness auto
termination by (relation "Wellfounded.measure (\<lambda>(need, b). 4 - b)") auto

declare pnum_len_loop.simps [simp del]

definition quic_pnum_len :: "u64 \<Rightarrow> u64 \<Rightarrow> usz" where
  "quic_pnum_len full_pn largest_acked = pnum_len_loop ((full_pn - largest_acked) * 2) 1"

definition quic_pnum_encode :: "bytes \<Rightarrow> u64 \<Rightarrow> usz \<Rightarrow> usz \<times> bytes" where
  "quic_pnum_encode buf full_pn nbytes = (nbytes, store_be nbytes buf full_pn)"

definition read_be :: "bytes \<Rightarrow> usz \<Rightarrow> u64" where
  "read_be buf nbytes = load_be 0 (map (rd buf) [0..<nbytes])"

definition below_window :: "u64 \<Rightarrow> u64 \<Rightarrow> u64 \<Rightarrow> bool" where
  "below_window candidate expected win \<longleftrightarrow>
     candidate + win div 2 \<le> expected \<and> candidate + win > candidate"

definition above_window :: "u64 \<Rightarrow> u64 \<Rightarrow> u64 \<Rightarrow> bool" where
  "above_window candidate expected win \<longleftrightarrow>
     candidate > expected + win div 2 \<and> candidate \<ge> win"

definition nearest :: "u64 \<Rightarrow> u64 \<Rightarrow> u64 \<Rightarrow> u64" where
  "nearest candidate expected win =
     (if below_window candidate expected win then candidate + win
      else if above_window candidate expected win then candidate - win
      else candidate)"

definition quic_pnum_decode :: "bytes \<Rightarrow> usz \<Rightarrow> u64 \<Rightarrow> u64" where
  "quic_pnum_decode buf nbytes largest_pn =
     (let truncated = read_be buf nbytes;
          bits = nbytes * 8;
          win = push_bit bits 1;
          expected = largest_pn + 1;
          candidate = (expected AND NOT (win - 1)) OR truncated
      in nearest candidate expected win)"

function pnlen_loop :: "u64 \<Rightarrow> usz \<Rightarrow> usz" where
  "pnlen_loop num_unacked b =
     (if b < 4 \<and> drop_bit (8 * b - 1) num_unacked \<noteq> 0 then pnlen_loop num_unacked (b + 1) else b)"
  by pat_completeness auto
termination by (relation "Wellfounded.measure (\<lambda>(need, b). 4 - b)") auto

declare pnlen_loop.simps [simp del]

definition quic_pnlen_needed :: "u64 \<Rightarrow> u64 \<Rightarrow> usz" where
  "quic_pnlen_needed pn largest_acked = pnlen_loop (pn - largest_acked) 1"

section \<open>The chosen length\<close>

lemma unat_exp:
  assumes "k < 64"
  shows "unat (2 ^ k :: u64) = 2 ^ k"
proof -
  have "(2 :: nat) ^ k < 2 ^ 64" using assms by (intro power_strict_increasing) simp_all
  then show ?thesis using unat_of_nat[of "2 ^ k", where ?'a = 64] by simp
qed

lemma pnum_len_loop_sound:
  assumes "1 \<le> b" "b \<le> 4" "unat need < 2 ^ 32"
  shows "b \<le> pnum_len_loop need b" "pnum_len_loop need b \<le> 4" "unat need < 2 ^ (8 * pnum_len_loop need b)"
    "\<forall>j. b \<le> j \<and> j < pnum_len_loop need b \<longrightarrow> 2 ^ (8 * j) \<le> unat need"
proof -
  have "b \<le> pnum_len_loop need b \<and> pnum_len_loop need b \<le> 4 \<and> unat need < 2 ^ (8 * pnum_len_loop need b)
    \<and> (\<forall>j. b \<le> j \<and> j < pnum_len_loop need b \<longrightarrow> 2 ^ (8 * j) \<le> unat need)"
    using assms
  proof (induction need b rule: pnum_len_loop.induct)
    case (1 need b)
    show ?case
    proof (cases "b < 4 \<and> need \<ge> push_bit (8 * b) 1")
      case True
      then have step: "pnum_len_loop need b = pnum_len_loop need (b + 1)"
        by (simp add: pnum_len_loop.simps[of need b])
      have "unat (push_bit (8 * b) 1 :: u64) = 2 ^ (8 * b)" using True by (simp add: unat_exp)
      then have big: "2 ^ (8 * b) \<le> unat need" using True by (simp add: word_le_nat_alt)
      have IH: "b + 1 \<le> pnum_len_loop need (b + 1) \<and> pnum_len_loop need (b + 1) \<le> 4
        \<and> unat need < 2 ^ (8 * pnum_len_loop need (b + 1))
        \<and> (\<forall>j. b + 1 \<le> j \<and> j < pnum_len_loop need (b + 1) \<longrightarrow> 2 ^ (8 * j) \<le> unat need)"
        using True "1.prems" by (intro "1.IH") auto
      show ?thesis unfolding step
      proof (intro conjI allI impI)
        fix j assume "b \<le> j \<and> j < pnum_len_loop need (b + 1)"
        then show "2 ^ (8 * j) \<le> unat need" using IH big by (cases "j = b") auto
      qed (use IH in auto)
    next
      case False
      then have stop: "pnum_len_loop need b = b" by (subst pnum_len_loop.simps) (rule if_not_P[OF False])
      have "unat need < 2 ^ (8 * b)"
      proof (cases "b = 4")
        case True
        then show ?thesis using "1.prems"(3) by simp
      next
        case b: False
        then show ?thesis using False "1.prems"(2) by (simp add: word_le_nat_alt unat_exp not_le)
      qed
      then show ?thesis using "1.prems" by (auto simp: stop)
    qed
  qed
  then show "b \<le> pnum_len_loop need b" "pnum_len_loop need b \<le> 4" "unat need < 2 ^ (8 * pnum_len_loop need b)"
    "\<forall>j. b \<le> j \<and> j < pnum_len_loop need b \<longrightarrow> 2 ^ (8 * j) \<le> unat need"
    by blast+
qed

lemma pnum_len_sound:
  assumes "unat (pn - la) < 2 ^ 31"
  shows "1 \<le> quic_pnum_len pn la" "quic_pnum_len pn la \<le> 4"
    "2 * unat (pn - la) < 2 ^ (8 * quic_pnum_len pn la)"
    "\<forall>j. 1 \<le> j \<and> j < quic_pnum_len pn la \<longrightarrow> 2 ^ (8 * j) \<le> 2 * unat (pn - la)"
proof -
  have "unat ((pn - la) * 2) = 2 * unat (pn - la)"
    using assms by (simp only: unat_word_ariths(2)) simp
  then show "1 \<le> quic_pnum_len pn la" "quic_pnum_len pn la \<le> 4"
    "2 * unat (pn - la) < 2 ^ (8 * quic_pnum_len pn la)"
    "\<forall>j. 1 \<le> j \<and> j < quic_pnum_len pn la \<longrightarrow> 2 ^ (8 * j) \<le> 2 * unat (pn - la)"
    using pnum_len_loop_sound[of 1 "(pn - la) * 2"] assms by (simp_all add: quic_pnum_len_def)
qed

section \<open>Recovery\<close>

lemma candidate_unat:
  assumes "k \<le> 32" "unat t < 2 ^ k" "unat x < 2 ^ 63"
  shows "unat ((x AND NOT (push_bit k 1 - 1)) OR t :: u64) = unat x div 2 ^ k * 2 ^ k + unat t"
proof -
  have m: "push_bit k 1 - 1 = (mask k :: u64)" by (simp add: mask_eq_exp_minus_1 push_bit_eq_mult)
  have tb: "take_bit k t = t"
    using assms by (simp only: word_unat_eq_iff unsigned_take_bit_eq) (simp add: take_bit_eq_mod)
  have disj: "(x AND NOT (mask k)) AND t = 0"
  proof (rule bit_word_eqI)
    fix n assume "n < LENGTH(64)"
    have "bit t n \<Longrightarrow> n < k" using tb by (metis bit_take_bit_iff)
    then show "bit ((x AND NOT (mask k)) AND t) n = bit (0 :: u64) n" by (auto simp: bit_simps)
  qed
  have hi: "x AND NOT (mask k) = push_bit k (drop_bit k x)"
    by (rule bit_word_eqI) (auto simp: bit_simps)
  have "unat (push_bit k (drop_bit k x)) = unat x div 2 ^ k * 2 ^ k"
  proof -
    have "unat (drop_bit k x) = unat x div 2 ^ k"
      by (simp only: unat_drop_bit_eq) (simp add: drop_bit_eq_div)
    moreover have "unat x div 2 ^ k * 2 ^ k \<le> unat x" by (rule div_times_less_eq_dividend)
    then have "unat x div 2 ^ k * 2 ^ k < 2 ^ 64" using assms(3) unfolding pow2_nums by linarith
    ultimately show ?thesis
      by (simp only: unsigned_push_bit_eq) (simp add: push_bit_eq_mult take_bit_eq_mod)
  qed
  moreover have "unat x div 2 ^ k * 2 ^ k + unat t < 2 ^ 64"
  proof -
    have "unat x div 2 ^ k * 2 ^ k \<le> unat x" by (rule div_times_less_eq_dividend)
    moreover have "(2 :: nat) ^ k \<le> 2 ^ 32" using assms(1) by (intro power_increasing) simp_all
    ultimately show ?thesis using assms(2,3) unfolding pow2_nums by linarith
  qed
  ultimately show ?thesis
    unfolding m disjunctive_add_eq_or[OF disj, symmetric] unfolding hi
    by (simp only: unat_word_ariths) simp
qed

text \<open>\<open>nearest\<close> on naturals: with the candidate in the window of \<open>e\<close>, it finds the number of
  the same residue within half a window of \<open>e\<close>.\<close>

lemma nearest_eq:
  assumes "unat w = 2 * h" "0 < h" "h \<le> 2 ^ 31" "unat e < 2 ^ 63"
    and c: "unat c = unat e div (2 * h) * (2 * h) + unat pn mod (2 * h)"
    and win: "unat e < unat pn + h" "unat pn \<le> unat e + h"
  shows "nearest c e w = pn"
proof -
  let ?W = "2 * h"
  have bnd: "unat c < 2 ^ 63 + 2 ^ 32" "unat pn < 2 ^ 63 + 2 ^ 32"
  proof -
    have "unat e div ?W * ?W \<le> unat e" by (rule div_times_less_eq_dividend)
    moreover have "unat pn mod ?W < ?W" using assms(2) by simp
    ultimately show "unat c < 2 ^ 63 + 2 ^ 32" using c assms(3,4) unfolding pow2_nums by linarith
    show "unat pn < 2 ^ 63 + 2 ^ 32" using assms(3,4) win unfolding pow2_nums by linarith
  qed
  have hw: "unat (w div 2) = h" using assms(1) by (simp add: unat_div)
  have sums: "unat (c + w div 2) = unat c + h" "unat (c + w) = unat c + ?W" "unat (e + w div 2) = unat e + h"
    using bnd assms(3,4) by (simp_all add: unat_word_ariths(1) hw assms(1))
  have below: "below_window c e w \<longleftrightarrow> unat c + h \<le> unat e"
    unfolding below_window_def word_le_nat_alt word_less_nat_alt sums using assms(2) by simp
  have above: "above_window c e w \<longleftrightarrow> unat e + h < unat c \<and> ?W \<le> unat c"
    unfolding above_window_def word_le_nat_alt word_less_nat_alt sums assms(1) by simp
  define q where "q = unat e div ?W"
  define q' where "q' = unat pn div ?W"
  have e: "unat e = q * ?W + unat e mod ?W" and p: "unat pn = q' * ?W + unat pn mod ?W"
    unfolding q_def q'_def by (simp_all only: div_mult_mod_eq)
  have r: "unat e mod ?W < ?W" "unat pn mod ?W < ?W" using assms(2) by simp_all
  have cq: "unat c = q * ?W + unat pn mod ?W" using c by (simp add: q_def)
  have "q' \<le> q + 1"
  proof (rule ccontr)
    assume "\<not> q' \<le> q + 1"
    then have "(q + 2) * ?W \<le> q' * ?W" by (intro mult_right_mono) simp_all
    then have "q * ?W + 2 * ?W \<le> q' * ?W" by (simp add: algebra_simps)
    with e p r win show False by linarith
  qed
  moreover have "q \<le> q' + 1"
  proof (rule ccontr)
    assume "\<not> q \<le> q' + 1"
    then have "(q' + 2) * ?W \<le> q * ?W" by (intro mult_right_mono) simp_all
    then have "q' * ?W + 2 * ?W \<le> q * ?W" by (simp add: algebra_simps)
    with e p r win show False by linarith
  qed
  ultimately consider "q' = q" | "q' = q + 1" | "q = q' + 1" by linarith
  then show ?thesis
  proof cases
    case 1
    then have "unat c = unat pn" using cq p by simp
    then have "c = pn" by (simp add: word_unat_eq_iff)
    moreover have "\<not> below_window c e w" "\<not> above_window c e w"
      using \<open>unat c = unat pn\<close> win by (simp_all add: below above)
    ultimately show ?thesis by (simp add: nearest_def)
  next
    case 2
    then have "unat c + ?W = unat pn" using cq p by (simp add: algebra_simps)
    then have "below_window c e w" "unat (c + w) = unat pn" using win by (simp_all add: below sums)
    then show ?thesis by (simp add: nearest_def word_unat_eq_iff)
  next
    case 3
    then have d: "unat c = unat pn + ?W" using cq p by (simp add: algebra_simps)
    then have "\<not> below_window c e w" "above_window c e w" using win by (auto simp: below above)
    moreover have "unat (c - w) = unat pn" using d assms(1) by (simp add: unat_sub_if')
    ultimately show ?thesis by (simp add: nearest_def word_unat_eq_iff)
  qed
qed

lemma read_be_store:
  assumes "n \<le> length buf" "n \<le> 4"
  shows "unat (read_be (store_be n buf pn) n) = unat pn mod 2 ^ (8 * n)"
proof -
  have "map (rd (store_be n buf pn)) [0..<n] = take n (store_be n buf pn)"
    using assms by (intro map_rd_take) (simp add: store_be_eq)
  also have "\<dots> = be_bytes n (unat pn)" using assms by (simp add: store_be_eq overwrite_0)
  finally have "read_be (store_be n buf pn) n = of_nat (unat pn mod 256 ^ n)"
    by (simp add: read_be_def load_be_eq be_val_be_bytes)
  moreover have "(256 :: nat) ^ n = 2 ^ (8 * n)" by (simp add: power_mult)
  moreover have "unat pn mod 2 ^ (8 * n) < 2 ^ 64"
  proof -
    have "unat pn mod 2 ^ (8 * n) \<le> unat pn" by simp
    also have "unat pn < 2 ^ 64" using unsigned_less[of pn] by simp
    finally show ?thesis .
  qed
  ultimately show ?thesis by (simp add: unat_of_nat)
qed

lemma pnum_decode_window:
  assumes n: "1 \<le> n" "n \<le> 4" "n \<le> length buf" and L: "unat L < 2 ^ 62"
    and win: "unat L + 1 < unat pn + 2 ^ (8 * n - 1)" "unat pn \<le> unat L + 1 + 2 ^ (8 * n - 1)"
  shows "quic_pnum_decode (snd (quic_pnum_encode buf pn n)) n L = pn"
proof -
  define h :: nat where "h = 2 ^ (8 * n - 1)"
  have W: "2 * h = 2 ^ (8 * n)" using n(1) by (simp add: h_def power_eq_if[of 2 "8 * n"])
  have "(2 :: nat) ^ (8 * n - 1) \<le> 2 ^ 31" using n by (intro power_increasing) simp_all
  then have h: "0 < h" "h \<le> 2 ^ 31" by (simp_all add: h_def)
  have e: "unat (L + 1) = unat L + 1" using L by (simp only: unat_word_ariths) simp
  let ?t = "read_be (store_be n buf pn) n"
  have t: "unat ?t = unat pn mod (2 * h)" using read_be_store[OF n(3,2)] W by simp
  have "unat ((L + 1) AND NOT (push_bit (8 * n) 1 - 1) OR ?t) = unat (L + 1) div 2 ^ (8 * n) * 2 ^ (8 * n) + unat ?t"
    using n L e t W h by (intro candidate_unat) simp_all
  then have c: "unat ((L + 1) AND NOT (push_bit (8 * n) 1 - 1) OR ?t) =
      unat (L + 1) div (2 * h) * (2 * h) + unat pn mod (2 * h)" using W t by simp
  have "nearest ((L + 1) AND NOT (push_bit (8 * n) 1 - 1) OR ?t) (L + 1) (push_bit (8 * n) 1) = pn"
  proof (rule nearest_eq[OF _ h(1,2) _ c])
    show "unat (push_bit (8 * n) 1 :: u64) = 2 * h" using n(2) by (simp add: W unat_exp)
    show "unat (L + 1) < 2 ^ 63" using L e by simp
    show "unat (L + 1) < unat pn + h" "unat pn \<le> unat (L + 1) + h" using win e by (simp_all add: h_def)
  qed
  then show ?thesis
    by (simp only: quic_pnum_decode_def quic_pnum_encode_def snd_conv Let_def mult.commute[of n 8])
qed

text \<open>Below the window the decoder returns another number: the one in the window with the same truncation.\<close>

lemma pnum_decode_cong:
  assumes "n \<le> 4" "n \<le> length buf" "unat pn mod 2 ^ (8 * n) = unat pn' mod 2 ^ (8 * n)"
  shows "quic_pnum_decode (snd (quic_pnum_encode buf pn n)) n L = quic_pnum_decode (snd (quic_pnum_encode buf pn' n)) n L"
proof -
  have "read_be (store_be n buf pn) n = read_be (store_be n buf pn') n"
    using read_be_store[OF assms(2,1)] assms(3) by (simp add: word_unat_eq_iff)
  then show ?thesis by (simp add: quic_pnum_decode_def quic_pnum_encode_def)
qed

lemma pnum_decode_below:
  assumes n: "1 \<le> n" "n \<le> 4" "n \<le> length buf" and L: "unat L < 2 ^ 62" and low: "unat pn + 2 ^ (8 * n - 1) \<le> unat L + 1"
  shows "pn < quic_pnum_decode (snd (quic_pnum_encode buf pn n)) n L"
proof -
  define h :: nat where "h = 2 ^ (8 * n - 1)"
  have W: "2 * h = 2 ^ (8 * n)" using n(1) by (simp add: h_def power_eq_if[of 2 "8 * n"])
  have "(2 :: nat) ^ (8 * n - 1) \<le> 2 ^ 31" using n by (intro power_increasing) simp_all
  then have h: "0 < h" "h \<le> 2 ^ 31" by (simp_all add: h_def)
  define d where "d = unat L + 1 - h - unat pn"
  define q where "q = unat pn + 2 * h * (d div (2 * h) + 1)"
  have d: "unat L + 1 = unat pn + h + d" using low by (simp add: d_def h_def)
  have dm: "2 * h * (d div (2 * h)) + d mod (2 * h) = d" "d mod (2 * h) < 2 * h" using h(1) by simp_all
  have q: "unat L + 1 < q + h" "q \<le> unat L + 1 + h" "unat pn < q"
    using d dm h(1) unfolding q_def distrib_left mult_1_right by linarith+
  have "q < 2 ^ 64" using q(2) L h(2) by simp
  then have u: "unat (of_nat q :: u64) = q" by (simp add: unat_of_nat)
  have "q mod (2 * h) = unat pn mod (2 * h)" by (simp only: q_def mod_mult_self2)
  then have "quic_pnum_decode (snd (quic_pnum_encode buf pn n)) n L = quic_pnum_decode (snd (quic_pnum_encode buf (of_nat q) n)) n L"
    using W u by (intro pnum_decode_cong[OF n(2,3)]) simp
  also have "\<dots> = of_nat q" using q u by (intro pnum_decode_window[OF n L]) (simp_all add: h_def)
  finally show ?thesis using q(3) u by (simp add: word_less_nat_alt)
qed

text \<open>The two length computations of the repository agree as long as doubling does not wrap.\<close>

lemma pn_loops_agree:
  assumes "1 \<le> b" "unat x < 2 ^ 63"
  shows "pnlen_loop x b = pnum_len_loop (x * 2) b"
  using assms
proof (induction x b rule: pnlen_loop.induct)
  case (1 x b)
  have "drop_bit (8 * b - 1) x \<noteq> 0 \<longleftrightarrow> push_bit (8 * b) 1 \<le> x * 2" if "b < 4"
  proof -
    obtain k where k: "8 * b = Suc k" using "1.prems"(1) by (cases "8 * b") auto
    have "drop_bit k x = 0 \<longleftrightarrow> unat (drop_bit k x) = 0"
      by (simp only: word_unat_eq_iff unsigned_0)
    also have "\<dots> \<longleftrightarrow> unat x < 2 ^ k"
      by (simp only: unat_drop_bit_eq) (simp add: drop_bit_eq_div div_eq_0_iff)
    finally have d: "drop_bit k x \<noteq> 0 \<longleftrightarrow> 2 ^ k \<le> unat x" by auto
    have "unat (x * 2) = unat x * 2" using "1.prems"(2) by (simp only: unat_word_ariths) simp
    moreover have "unat (2 ^ Suc k :: u64) = 2 ^ Suc k" using k that by (intro unat_exp) simp
    ultimately have "2 ^ Suc k \<le> x * 2 \<longleftrightarrow> 2 ^ Suc k \<le> unat x * 2" by (simp only: word_le_nat_alt)
    then have "push_bit (8 * b) 1 \<le> x * 2 \<longleftrightarrow> 2 ^ k \<le> unat x" unfolding k by simp
    then show ?thesis using d k by simp
  qed
  then have cond: "b < 4 \<and> drop_bit (8 * b - 1) x \<noteq> 0 \<longleftrightarrow> b < 4 \<and> push_bit (8 * b) 1 \<le> x * 2" by blast
  show ?case
  proof (cases "b < 4 \<and> drop_bit (8 * b - 1) x \<noteq> 0")
    case True
    have "pnlen_loop x b = pnlen_loop x (b + 1)"
      by (subst pnlen_loop.simps) (rule if_P[OF True])
    moreover have "pnum_len_loop (x * 2) b = pnum_len_loop (x * 2) (b + 1)"
      by (subst pnum_len_loop.simps) (rule if_P[OF iffD1[OF cond True]])
    ultimately show ?thesis using "1.IH"[OF True] "1.prems" by simp
  next
    case False
    have "pnlen_loop x b = b"
      by (subst pnlen_loop.simps) (rule if_not_P[OF False])
    moreover have "pnum_len_loop (x * 2) b = b"
      by (subst pnum_len_loop.simps) (rule if_not_P[OF False[unfolded cond]])
    ultimately show ?thesis by simp
  qed
qed

section \<open>Properties\<close>



text \<open>the two length functions of the repository are the same function, and it returns the
  least number of bytes, from 1 to 4, whose window is more than twice the unacknowledged range.\<close>

theorem packet_number_length_minimal:
  assumes "unat (pn - la) < 2 ^ 31"
  shows "quic_pnlen_needed pn la = quic_pnum_len pn la \<and>
    (\<forall>j. 1 \<le> j \<and> j \<le> 4 \<longrightarrow> (2 * unat (pn - la) < 2 ^ (8 * j) \<longleftrightarrow> quic_pnum_len pn la \<le> j))"
proof -
  note s = pnum_len_sound[OF assms]
  have "quic_pnlen_needed pn la = quic_pnum_len pn la"
    using assms by (simp add: quic_pnlen_needed_def quic_pnum_len_def pn_loops_agree)
  moreover have "2 * unat (pn - la) < 2 ^ (8 * j) \<longleftrightarrow> quic_pnum_len pn la \<le> j" if "1 \<le> j" for j
  proof
    assume "quic_pnum_len pn la \<le> j"
    then have "(2 :: nat) ^ (8 * quic_pnum_len pn la) \<le> 2 ^ (8 * j)" by (intro power_increasing) simp_all
    with s(3) show "2 * unat (pn - la) < 2 ^ (8 * j)" by linarith
  next
    assume "2 * unat (pn - la) < 2 ^ (8 * j)"
    then show "quic_pnum_len pn la \<le> j" using s(4) that by (meson not_le)
  qed
  ultimately show ?thesis by simp
qed

theorem packet_number_length_minimal_witness:
  "quic_pnlen_needed 0xac5c02 0xabe8b3 = quic_pnum_len 0xac5c02 0xabe8b3 \<and> quic_pnum_len 0xac5c02 0xabe8b3 \<le> 2"
proof -
  have "unat (0xac5c02 - 0xabe8b3 :: u64) < 2 ^ 31" by simp
  from packet_number_length_minimal[OF this] show ?thesis
    by (elim conjE allE[of _ "2 :: nat"]) simp
qed

end
