(* ===== verification/Wire_Format.thy ===== *)
theory Wire_Format
  imports Varint "HOL-Library.Monad_Syntax"
begin

text \<open>
  How the codecs of the repository are specified. A C writer is a sequence of cursor
  helpers; \<open>puts\<close> states what such a writer does to any buffer with enough room and that
  it reports failure otherwise, and composes along \<open>put_seq\<close>. A C reader is a sequence of
  taking helpers; \<open>takes\<close> states what it reads from any buffer that carries the wire
  bytes at the cursor, and composes along \<open>Option.bind\<close>. The locale \<open>wire_codec\<close> is the
  contract of an encoder and a decoder of one message; the lemmas a client of a codec
  needs are proved in it once.
\<close>

section \<open>Writers\<close>

text \<open>The buffers a writer may be called on: the capacity is within the object, and the
  object is smaller than half the address space, so that no offset computation of a
  writer wraps.\<close>

definition out_ok :: "bytes \<Rightarrow> usz \<Rightarrow> usz \<Rightarrow> bool" where
  "out_ok buf cap off \<longleftrightarrow> off \<le> cap \<and> cap \<le> length buf \<and> length buf < 2 ^ 63"

definition puts :: "(bytes \<Rightarrow> usz \<Rightarrow> put_res) \<Rightarrow> usz \<Rightarrow> bool \<Rightarrow> bytes \<Rightarrow> bool" where
  "puts k cap ok ws \<longleftrightarrow>
     (\<forall>buf off. out_ok buf cap off \<longrightarrow>
        (if ok \<and> off + length ws \<le> cap
         then k buf off = (True, overwrite buf off ws, off + length ws)
         else \<not> fst (k buf off)))"

lemma putsI:
  assumes "\<And>buf off. out_ok buf cap off \<Longrightarrow> ok \<Longrightarrow> off + length ws \<le> cap \<Longrightarrow>
             k buf off = (True, overwrite buf off ws, off + length ws)"
    and "\<And>buf off. out_ok buf cap off \<Longrightarrow> \<not> (ok \<and> off + length ws \<le> cap) \<Longrightarrow> \<not> fst (k buf off)"
  shows "puts k cap ok ws"
  using assms by (auto simp: puts_def)

lemma putsD:
  assumes "puts k cap ok ws" "out_ok buf cap off"
  shows "ok \<Longrightarrow> off + length ws \<le> cap \<Longrightarrow> k buf off = (True, overwrite buf off ws, off + length ws)"
    and "\<not> (ok \<and> off + length ws \<le> cap) \<Longrightarrow> \<not> fst (k buf off)"
  using assms by (auto simp: puts_def)

lemma out_ok_step:
  "out_ok buf cap off \<Longrightarrow> off + length ws \<le> cap \<Longrightarrow>
   out_ok (overwrite buf off ws) cap (off + length ws)"
  by (simp add: out_ok_def)

lemma puts_then:
  assumes 1: "puts k1 cap ok1 ws1" and 2: "ok1 \<Longrightarrow> puts k2 cap ok2 ws2"
    and K: "\<And>b o'. K (True, b, o') = k2 b o'" "\<And>b o'. \<not> fst (K (False, b, o'))"
  shows "puts (\<lambda>buf off. K (k1 buf off)) cap (ok1 \<and> ok2) (ws1 @ ws2)"
proof (rule putsI)
  fix buf off
  assume o: "out_ok buf cap off" and ok: "ok1 \<and> ok2" and len: "off + length (ws1 @ ws2) \<le> cap"
  have "k2 (overwrite buf off ws1) (off + length ws1) =
        (True, overwrite (overwrite buf off ws1) (off + length ws1) ws2, off + length ws1 + length ws2)"
    using ok len by (intro putsD(1)[OF 2 out_ok_step[OF o]]) simp_all
  then show "K (k1 buf off) = (True, overwrite buf off (ws1 @ ws2), off + length (ws1 @ ws2))"
    using putsD(1)[OF 1 o] ok len o by (simp add: overwrite_overwrite out_ok_def K)
next
  fix buf off
  assume o: "out_ok buf cap off" and no: "\<not> ((ok1 \<and> ok2) \<and> off + length (ws1 @ ws2) \<le> cap)"
  show "\<not> fst (K (k1 buf off))"
  proof (cases "ok1 \<and> off + length ws1 \<le> cap")
    case True
    then have k1: "k1 buf off = (True, overwrite buf off ws1, off + length ws1)"
      using putsD(1)[OF 1 o] by blast
    have "\<not> fst (k2 (overwrite buf off ws1) (off + length ws1))"
      using True no by (intro putsD(2)[OF 2 out_ok_step[OF o]]) auto
    then show ?thesis by (simp add: k1 K)
  next
    case False
    then show ?thesis using putsD(2)[OF 1 o] K(2) by (cases "k1 buf off") auto
  qed
qed

text \<open>The rule for \<^verbatim>\<open>if (!p) return 0; return q\<close>.\<close>

lemma puts_seq:
  assumes "puts k1 cap ok1 ws1" "ok1 \<Longrightarrow> puts k2 cap ok2 ws2"
  shows "puts (\<lambda>buf off. put_seq (k1 buf off) k2) cap (ok1 \<and> ok2) (ws1 @ ws2)"
  using assms by (rule puts_then) simp_all

lemma puts_if:
  assumes "c \<Longrightarrow> puts k1 cap ok1 ws1" "\<not> c \<Longrightarrow> puts k2 cap ok2 ws2"
  shows "puts (\<lambda>buf off. if c then k1 buf off else k2 buf off) cap (if c then ok1 else ok2)
              (if c then ws1 else ws2)"
  using assms by (cases c) auto

lemma puts_skip: "puts (\<lambda>buf off. (True, buf, off)) cap True []"
  by (simp add: puts_def out_ok_def)

lemma puts_varint: "puts (\<lambda>buf off. quic_varint_put buf cap off v) cap (v \<le> QUIC_VARINT_MAX) (varint_wire v)"
proof (rule putsI)
  fix buf off
  assume o: "out_ok buf cap off" "v \<le> QUIC_VARINT_MAX" "off + length (varint_wire v) \<le> cap"
  then have add: "usz_add off (quic_varint_len v) = off + quic_varint_len v"
    by (simp add: out_ok_def)
  have "quic_varint_len v \<le> length (drop off buf)"
    using o unfolding out_ok_def length_drop length_varint_wire by linarith
  then show "quic_varint_put buf cap off v =
        (True, overwrite buf off (varint_wire v), off + length (varint_wire v))"
    using o varint_encode_eq[OF o(2)] varint_len_0[of v]
    by (simp add: quic_varint_put_def Let_def add overwrite_def add.commute)
next
  fix buf off
  assume o: "out_ok buf cap off"
    and no: "\<not> (v \<le> QUIC_VARINT_MAX \<and> off + length (varint_wire v) \<le> cap)"
  have "off + quic_varint_len v < 2 ^ 64" using o varint_len_le_8[of v] by (simp add: out_ok_def)
  then show "\<not> fst (quic_varint_put buf cap off v)"
    using no varint_len_0[of v] by (auto simp: quic_varint_put_def Let_def)
qed

lemma puts_eqI:
  "puts k cap ok' ws' \<Longrightarrow> (ok \<longleftrightarrow> ok') \<Longrightarrow> (ok \<Longrightarrow> ws = ws') \<Longrightarrow> puts k cap ok ws"
  unfolding puts_def by auto

lemma put_seq_assoc:
  "put_seq (put_seq r k1) k2 = put_seq r (\<lambda>buf off. put_seq (k1 buf off) k2)"
  by (cases r; cases "fst r") (auto simp: put_seq_def split: prod.splits)

lemma puts_bytes:
  assumes "n \<le> length src" "n < 2 ^ 63"
  shows "puts (\<lambda>buf off. quic_put_bytes buf cap off src n) cap True (take n src)"
  using assms by (intro putsI) (auto simp: quic_put_bytes_def out_ok_def)

text \<open>An encoder runs a writer at offset 0 and returns the final offset, or 0.\<close>

lemma put_done_puts:
  assumes "puts k cap ok ws" "cap \<le> length buf" "length buf < 2 ^ 63"
  shows "ok \<Longrightarrow> length ws \<le> cap \<Longrightarrow> put_done (k buf 0) = (length ws, overwrite buf 0 ws)"
    and "\<not> (ok \<and> length ws \<le> cap) \<Longrightarrow> fst (put_done (k buf 0)) = 0"
proof -
  have "out_ok buf cap 0" using assms(2,3) by (simp add: out_ok_def)
  note D = putsD[OF assms(1) this]
  show "ok \<Longrightarrow> length ws \<le> cap \<Longrightarrow> put_done (k buf 0) = (length ws, overwrite buf 0 ws)"
    using D(1) by simp
  show "\<not> (ok \<and> length ws \<le> cap) \<Longrightarrow> fst (put_done (k buf 0)) = 0"
    using D(2) by (cases "k buf 0") (simp add: put_done_def)
qed

lemma puts_type:
  assumes "unat v < 64" "puts k cap ok ws"
  shows "puts (\<lambda>buf off. put_seq (quic_varint_put buf cap off v) k) cap ok (ucast v # ws)"
  using puts_seq[OF puts_varint[of cap v] assms(2)] small_le_varint_max[OF assms(1)]
  by (simp add: varint_wire_small[OF assms(1)])

text \<open>A length as a varint, then that many bytes: the common end of the variable-size frames.\<close>

lemma puts_len_view:
  assumes "length src = unat len"
  shows "puts (\<lambda>buf off. put_seq (quic_varint_put buf cap off len) (\<lambda>buf off.
           quic_put_bytes buf cap off src (unat len))) cap (len \<le> QUIC_VARINT_MAX) (varint_wire len @ src)"
proof -
  have "puts (\<lambda>buf off. quic_put_bytes buf cap off src (unat len)) cap True src"
    if "len \<le> QUIC_VARINT_MAX"
    using that puts_bytes[of "unat len" src cap] assms by (simp add: varint_max_unat)
  from puts_seq[OF puts_varint this] show ?thesis by (rule puts_eqI) simp_all
qed

lemma puts_byte:
  assumes "puts k cap ok ws"
  shows "puts (\<lambda>buf off. if off \<ge> cap then (False, buf, off) else k (buf[off := b]) (off + 1)) cap ok (b # ws)"
proof (rule putsI)
  fix buf off
  assume o: "out_ok buf cap off" and ok: "ok" "off + length (b # ws) \<le> cap"
  have "buf[off := b] = overwrite buf off [b]"
    using o ok by (simp add: overwrite_def upd_conv_take_nth_drop out_ok_def)
  moreover have "k (overwrite buf off [b]) (off + 1) =
      (True, overwrite (overwrite buf off [b]) (off + 1) ws, off + 1 + length ws)"
    using ok out_ok_step[OF o, of "[b]"] by (intro putsD(1)[OF assms]) auto
  ultimately show "(if off \<ge> cap then (False, buf, off) else k (buf[off := b]) (off + 1)) =
      (True, overwrite buf off (b # ws), off + length (b # ws))"
    using ok o overwrite_overwrite[of off "[b]" buf ws] by (simp add: out_ok_def)
next
  fix buf off
  assume o: "out_ok buf cap off" and no: "\<not> (ok \<and> off + length (b # ws) \<le> cap)"
  show "\<not> fst (if off \<ge> cap then (False, buf, off) else k (buf[off := b]) (off + 1))"
  proof (cases "off < cap")
    case True
    then have "out_ok (buf[off := b]) cap (off + 1)" using o by (simp add: out_ok_def)
    then show ?thesis using True no putsD(2)[OF assms] by simp
  qed simp
qed


section \<open>Readers\<close>

type_synonym 'a reader = "bytes \<Rightarrow> usz \<Rightarrow> usz \<Rightarrow> ('a \<times> usz) option"

text \<open>\<open>takes r ws x\<close>: wherever the bytes \<open>ws\<close> stand within the first \<open>n\<close> bytes of a buffer,
  reading there yields \<open>x\<close> and moves the cursor behind them.\<close>

definition takes :: "'a reader \<Rightarrow> bytes \<Rightarrow> 'a \<Rightarrow> bool" where
  "takes r ws x \<longleftrightarrow>
     (\<forall>pre rest n. length pre + length ws \<le> n \<longrightarrow> n \<le> length pre + length ws + length rest \<longrightarrow> n < 2 ^ 63 \<longrightarrow>
        r (pre @ ws @ rest) n (length pre) = Some (x, length pre + length ws))"

lemma takesI:
  assumes "\<And>pre rest n. length pre + length ws \<le> n \<Longrightarrow> n \<le> length pre + length ws + length rest \<Longrightarrow>
     n < 2 ^ 63 \<Longrightarrow> r (pre @ ws @ rest) n (length pre) = Some (x, length pre + length ws)"
  shows "takes r ws x"
  using assms by (simp add: takes_def)

lemma takesD:
  assumes "takes r ws x" "length pre + length ws \<le> n" "n \<le> length pre + length ws + length rest" "n < 2 ^ 63"
  shows "r (pre @ ws @ rest) n (length pre) = Some (x, length pre + length ws)"
  using assms by (simp add: takes_def)

lemma takes_bind:
  assumes 1: "takes r1 ws1 x1" and 2: "takes (r2 x1) ws2 x2"
  shows "takes (\<lambda>buf n off. do { (x, off) \<leftarrow> r1 buf n off; r2 x buf n off }) (ws1 @ ws2) x2"
proof (rule takesI)
  fix pre rest :: bytes and n
  assume len: "length pre + length (ws1 @ ws2) \<le> n" "n \<le> length pre + length (ws1 @ ws2) + length rest"
    "n < 2 ^ 63"
  have "r1 (pre @ ws1 @ ws2 @ rest) n (length pre) = Some (x1, length pre + length ws1)"
    using len by (intro takesD[OF 1]) auto
  moreover have "r2 x1 ((pre @ ws1) @ ws2 @ rest) n (length (pre @ ws1)) =
      Some (x2, length (pre @ ws1) + length ws2)"
    using len by (intro takesD[OF 2]) auto
  ultimately show "do { (x, off) \<leftarrow> r1 (pre @ (ws1 @ ws2) @ rest) n (length pre);
        r2 x (pre @ (ws1 @ ws2) @ rest) n off } = Some (x2, length pre + length (ws1 @ ws2))"
    by (simp add: add.assoc)
qed

lemma takes_last:
  assumes "takes r ws x"
  shows "takes (\<lambda>buf n off. do { (x, off) \<leftarrow> r buf n off; Some (f x, off) }) ws (f x)"
  using takes_bind[OF assms, of "\<lambda>x buf n off. Some (f x, off)" "[]" "f x"]
  by (simp add: takes_def)

lemma takes_behind:
  assumes "takes r ws x" "Suc (length ws) \<le> n" "n \<le> Suc (length ws + length rest)" "n < 2 ^ 63"
  shows "r (t # ws @ rest) n 1 = Some (x, Suc (length ws))"
  using takesD[OF assms(1), of "[t]" n rest] assms(2-) by simp

lemma takes_eqI: "takes r ws' x' \<Longrightarrow> ws = ws' \<Longrightarrow> x = x' \<Longrightarrow> takes r ws x"
  by simp

lemma takes_return: "takes (\<lambda>buf n off. Some (x, off)) [] x"
  by (simp add: takes_def)

lemma takes_varint: "v \<le> QUIC_VARINT_MAX \<Longrightarrow> takes quic_varint_take (varint_wire v) v"
  by (intro takesI) (simp add: quic_varint_take_def varint_decode_wire)

lemma takes_bytes: "takes (\<lambda>buf n off. quic_take_bytes buf n off (length ws)) ws ws"
  by (intro takesI) (simp add: quic_take_bytes_def)

lemma takes_0:
  assumes "takes r ws x" "length ws \<le> n" "n \<le> length buf" "n < 2 ^ 63" "take (length ws) buf = ws"
  shows "r buf n 0 = Some (x, length ws)"
  using takesD[OF assms(1), of "[]" n "drop (length ws) buf"] assms(2-)
  by (metis append_take_drop_id length_append append_Nil list.size(3) add_0)

text \<open>\<open>reads_within r P\<close>: on any bytes whatever, a successful read ends within the first \<open>n\<close>
  bytes, has not moved backwards, and its value satisfies \<open>P\<close>.\<close>

definition reads_within :: "'a reader \<Rightarrow> ('a \<Rightarrow> bool) \<Rightarrow> bool" where
  "reads_within r P \<longleftrightarrow>
     (\<forall>buf n off x off'. off \<le> n \<longrightarrow> n < 2 ^ 63 \<longrightarrow> r buf n off = Some (x, off') \<longrightarrow>
        off \<le> off' \<and> off' \<le> n \<and> P x)"

lemma reads_withinD:
  assumes "reads_within r P" "r buf n off = Some (x, off')" "off \<le> n" "n < 2 ^ 63"
  shows "off \<le> off'" "off' \<le> n" "P x"
  using assms unfolding reads_within_def by blast+

lemma reads_within_bind:
  assumes 1: "reads_within r1 P1" and 2: "\<And>x. P1 x \<Longrightarrow> reads_within (r2 x) P2"
  shows "reads_within (\<lambda>buf n off. do { (x, off) \<leftarrow> r1 buf n off; r2 x buf n off }) P2"
  unfolding reads_within_def
proof (intro allI impI)
  fix buf n off x off'
  assume a: "off \<le> n" "n < 2 ^ 63" "do { (x, off) \<leftarrow> r1 buf n off; r2 x buf n off } = Some (x, off')"
  then obtain y off1 where y: "r1 buf n off = Some (y, off1)" "r2 y buf n off1 = Some (x, off')"
    by (auto split: Option.bind_splits)
  note one = reads_withinD[OF 1 y(1) a(1,2)]
  show "off \<le> off' \<and> off' \<le> n \<and> P2 x"
    using one reads_withinD[OF 2[OF one(3)] y(2) one(2) a(2)] by simp
qed

lemma reads_within_return: "P x \<Longrightarrow> reads_within (\<lambda>buf n off. Some (x, off)) P"
  by (simp add: reads_within_def)

lemma reads_within_if:
  "(c \<Longrightarrow> reads_within r1 P) \<Longrightarrow> (\<not> c \<Longrightarrow> reads_within r2 P) \<Longrightarrow>
   reads_within (\<lambda>buf n off. if c then r1 buf n off else r2 buf n off) P"
  by (cases c) auto

lemma reads_within_fail: "reads_within (\<lambda>buf n off. None) P"
  by (simp add: reads_within_def)

lemma reads_within_varint: "reads_within quic_varint_take (\<lambda>v. v \<le> QUIC_VARINT_MAX)"
  unfolding reads_within_def using varint_take_sound by (meson less_imp_le)

lemma reads_within_bytes:
  assumes "k < 2 ^ 63"
  shows "reads_within (\<lambda>buf n off. quic_take_bytes buf n off k) (\<lambda>bs. length bs \<le> k)"
  using assms by (auto simp: reads_within_def quic_take_bytes_def split: if_splits)

lemmas reads_within_intros = reads_within_bind[OF reads_within_varint] reads_within_varint
  reads_within_return reads_within_if reads_within_fail

section \<open>The contract of a codec\<close>

locale wire_codec =
  fixes enc :: "bytes \<Rightarrow> usz \<Rightarrow> 'a \<Rightarrow> usz \<times> bytes"
    and dec :: "bytes \<Rightarrow> usz \<Rightarrow> ('a \<times> usz) option"
    and wire :: "'a \<Rightarrow> bytes"
    and wf :: "'a \<Rightarrow> bool"
    and valid :: "'a \<Rightarrow> bool"
  assumes enc_fits: "wf x \<Longrightarrow> valid x \<Longrightarrow> length (wire x) \<le> cap \<Longrightarrow> cap \<le> length buf \<Longrightarrow>
      length buf < 2 ^ 63 \<Longrightarrow> enc buf cap x = (length (wire x), overwrite buf 0 (wire x))"
    and enc_fails: "wf x \<Longrightarrow> \<not> (valid x \<and> length (wire x) \<le> cap) \<Longrightarrow> cap \<le> length buf \<Longrightarrow>
      length buf < 2 ^ 63 \<Longrightarrow> fst (enc buf cap x) = 0"
    and dec_wire: "wf x \<Longrightarrow> valid x \<Longrightarrow> length (wire x) \<le> n \<Longrightarrow> n \<le> length (wire x @ rest) \<Longrightarrow>
      n < 2 ^ 63 \<Longrightarrow> dec (wire x @ rest) n = Some (x, length (wire x))"
    and wire_nonempty: "valid x \<Longrightarrow> wire x \<noteq> []"
begin

lemma enc_result:
  assumes "wf x" "cap \<le> length buf" "length buf < 2 ^ 63"
  shows "fst (enc buf cap x) = (if valid x \<and> length (wire x) \<le> cap then length (wire x) else 0)"
  using enc_fits[OF assms(1) _ _ assms(2,3)] enc_fails[OF assms(1) _ assms(2,3)] by auto

lemma enc_succeeds_iff:
  assumes "wf x" "cap \<le> length buf" "length buf < 2 ^ 63"
  shows "fst (enc buf cap x) \<noteq> 0 \<longleftrightarrow> valid x \<and> length (wire x) \<le> cap"
  using enc_result[OF assms] wire_nonempty by auto

lemma roundtrip:
  assumes "wf x" "cap \<le> length buf" "length buf < 2 ^ 63" "enc buf cap x = (w, buf')" "w \<noteq> 0"
  shows "w \<le> cap" "length buf' = length buf" "drop w buf' = drop w buf"
    "\<And>n. w \<le> n \<Longrightarrow> n \<le> length buf \<Longrightarrow> dec buf' n = Some (x, w)"
proof -
  have fit: "valid x" "length (wire x) \<le> cap"
    using enc_succeeds_iff[OF assms(1-3)] assms(4,5) by auto
  then have w: "w = length (wire x)" and b: "buf' = wire x @ drop w buf"
    using enc_fits[OF assms(1) _ _ assms(2,3)] assms(4) by (auto simp: overwrite_0)
  show "w \<le> cap" "length buf' = length buf" "drop w buf' = drop w buf"
    using fit w b assms(2) by auto
  show "\<And>n. w \<le> n \<Longrightarrow> n \<le> length buf \<Longrightarrow> dec buf' n = Some (x, w)"
    using dec_wire[OF assms(1) fit(1)] fit w b assms(2,3) by auto
qed

lemma wire_inj:
  assumes "wf x" "valid x" "wf y" "valid y" "wire x @ r = wire y @ s" "length (wire x @ r) < 2 ^ 63"
  shows "x = y"
proof -
  let ?n = "length (wire x @ r)"
  have len: "?n = length (wire y) + length s" by (simp only: assms(5) length_append)
  have "dec (wire x @ r) ?n = Some (x, length (wire x))"
    by (rule dec_wire[OF assms(1,2) _ _ assms(6)]) simp_all
  moreover have "dec (wire y @ s) ?n = Some (y, length (wire y))"
    by (rule dec_wire[OF assms(3,4) _ _ assms(6)]) (use len in simp_all)
  ultimately show ?thesis using assms(5) by simp
qed

end

text \<open>How the contract is established for a codec made of cursor helpers.\<close>

definition gets :: "(bytes \<Rightarrow> usz \<Rightarrow> ('a \<times> usz) option) \<Rightarrow> bytes \<Rightarrow> 'a \<Rightarrow> bool" where
  "gets dec ws x \<longleftrightarrow>
     (\<forall>rest n. length ws \<le> n \<longrightarrow> n \<le> length ws + length rest \<longrightarrow> n < 2 ^ 63 \<longrightarrow>
        dec (ws @ rest) n = Some (x, length ws))"

lemma getsI:
  assumes "takes r ws x" "\<And>buf n. rd buf 0 = t \<Longrightarrow> dec buf n = r buf n 1"
  shows "gets dec (t # ws) x"
  using takes_behind[OF assms(1)] assms(2) by (auto simp: gets_def)

lemma wire_codecI:
  fixes wf :: "'a \<Rightarrow> bool"
  assumes "\<And>x cap. wf x \<Longrightarrow> puts (k x cap) cap (valid x) (wire x)"
    and "\<And>x cap buf. enc buf cap x = put_done (k x cap buf 0)"
    and "\<And>x. wf x \<Longrightarrow> valid x \<Longrightarrow> gets dec (wire x) x"
    and "\<And>x. valid x \<Longrightarrow> wire x \<noteq> []"
  shows "wire_codec enc dec wire wf valid"
proof
  fix x :: 'a and cap :: usz and buf :: bytes
  assume a: "wf x" "cap \<le> length buf" "length buf < 2 ^ 63"
  note P = put_done_puts[OF assms(1)[OF a(1)] a(2,3)]
  show "valid x \<Longrightarrow> length (wire x) \<le> cap \<Longrightarrow> enc buf cap x = (length (wire x), overwrite buf 0 (wire x))"
    using P(1) assms(2) by simp
  show "\<not> (valid x \<and> length (wire x) \<le> cap) \<Longrightarrow> fst (enc buf cap x) = 0"
    using P(2) assms(2) by simp
qed (use assms(3,4) in \<open>auto simp: gets_def\<close>)

section \<open>Properties\<close>

text \<open>a varint written into a buffer with room is read back: the write moves the cursor by
  the encoded length, leaves every other byte of the buffer alone, and taking a varint at
  the old cursor yields the value and the new cursor.\<close>

theorem varint_put_take:
  assumes "v \<le> QUIC_VARINT_MAX" "off + quic_varint_len v \<le> cap" "cap \<le> length buf" "length buf < 2 ^ 63"
  shows "\<exists>buf'. quic_varint_put buf cap off v = (True, buf', off + quic_varint_len v)
    \<and> length buf' = length buf \<and> take off buf' = take off buf
    \<and> drop (off + quic_varint_len v) buf' = drop (off + quic_varint_len v) buf
    \<and> quic_varint_take buf' cap off = Some (v, off + quic_varint_len v)"
proof -
  let ?w = "varint_wire v" and ?b = "overwrite buf off (varint_wire v)"
  have "out_ok buf cap off" using assms by (simp add: out_ok_def)
  then have "quic_varint_put buf cap off v = (True, ?b, off + length ?w)"
    using assms by (intro putsD(1)[OF puts_varint]) simp_all
  moreover have "quic_varint_take (take off buf @ ?w @ drop (off + length ?w) buf) cap (length (take off buf)) =
      Some (v, length (take off buf) + length ?w)"
    using assms by (intro takesD[OF takes_varint]) simp_all
  moreover have "length (take off buf) = off" using assms by simp
  ultimately show ?thesis using assms by (simp add: overwrite_def)
qed

theorem varint_put_take_witness:
  "\<exists>buf'. quic_varint_put (replicate 8 0) 8 1 0x3BBD = (True, buf', 3) \<and>
     quic_varint_take buf' 8 1 = Some (0x3BBD, 3)"
  using varint_put_take[of "0x3BBD" 1 8 "replicate 8 0"]
  by (auto simp: QUIC_VARINT_MAX_def quic_varint_len_def)

text \<open>the encoder's length is the shortest of all encodings: whatever bytes decode to a
  value, the value is encodable and its own encoding is not longer than what was read.\<close>

theorem varint_decode_minimal:
  assumes "quic_varint_decode bs n = Some (v, need)" "n \<le> length bs"
  shows "v \<le> QUIC_VARINT_MAX \<and> 0 < quic_varint_len v \<and> quic_varint_len v \<le> need \<and> need \<le> n"
proof -
  define c where "c = unat (hd bs) div 64"
  have c: "c < 4" using unat_u8_less[of "hd bs"] by (simp add: c_def)
  have d: "need = 2 ^ c" "need \<le> n" "v = of_nat (be_val (take need bs) mod 2 ^ (8 * need - 2))"
    using assms(1) unfolding varint_decode_eq[OF assms(2)] Let_def c_def by (auto split: if_splits)
  have "c = 0 \<or> c = 1 \<or> c = 2 \<or> c = 3" using c by linarith
  then have need: "need = 1 \<or> need = 2 \<or> need = 4 \<or> need = 8" using d(1) by auto
  let ?m = "be_val (take need bs) mod 2 ^ (8 * need - 2)"
  have m: "?m < 2 ^ (8 * need - 2)" by simp
  also have "(2 :: nat) ^ (8 * need - 2) \<le> 2 ^ 62" using need by (intro power_increasing) auto
  finally have "unat v = ?m" unfolding d(3) by (simp add: unat_of_nat)
  with m have v: "unat v < 2 ^ (8 * need - 2)" by simp
  then have "quic_varint_len v \<le> need \<and> unat v < 2 ^ 62"
    using need by (auto simp: varint_len_unat)
  moreover have "0 < quic_varint_len v"
    using calculation varint_len_0[of v] by (auto simp: varint_max_unat)
  ultimately show ?thesis using d(2) by (simp add: varint_max_unat)
qed

theorem varint_decode_minimal_witness:
  "quic_varint_decode [0x40, 0x25] 2 = Some (37, 2) \<and> quic_varint_len 37 \<le> 2"
proof -
  have "quic_varint_decode [0x40, 0x25] 2 = Some (37, 2)" by code_simp
  with varint_decode_minimal[OF this] show ?thesis by simp
qed

end
