(* ===== verification/Frames.thy ===== *)
theory Frames
  imports Wire_Format
begin

text \<open>
  The frame codecs of \<^verbatim>\<open>src/transport/packet/frame/frame/\<close>: frame.c (PADDING/PING, CRYPTO,
  STREAM, CONNECTION_CLOSE), flowctl.c, stream_ctl.c, connctl.c and ncid.c. Each encoder
  and decoder follows its C function, with the static helpers it is made of. A view of
  the code, a pointer with a separate length field, is the list of the bytes it spans.
  For every codec the wire layout of RFC 9000, section 19, is stated on its own, and the
  contract \<open>wire_codec\<close> is proved of the code.
\<close>

section \<open>Frame types\<close>

definition QUIC_FRAME_CRYPTO :: u64 where "QUIC_FRAME_CRYPTO = 0x06"
definition QUIC_FRAME_STREAM_BASE :: u8 where "QUIC_FRAME_STREAM_BASE = 0x08"
definition QUIC_FRAME_CONN_CLOSE_TPT :: u8 where "QUIC_FRAME_CONN_CLOSE_TPT = 0x1c"
definition QUIC_FRAME_CONN_CLOSE_APP :: u8 where "QUIC_FRAME_CONN_CLOSE_APP = 0x1d"
definition QUIC_STREAM_FIN :: u8 where "QUIC_STREAM_FIN = 0x01"
definition QUIC_STREAM_LEN :: u8 where "QUIC_STREAM_LEN = 0x02"
definition QUIC_STREAM_OFF :: u8 where "QUIC_STREAM_OFF = 0x04"

lemmas frame_consts = QUIC_FRAME_CRYPTO_def QUIC_FRAME_STREAM_BASE_def QUIC_FRAME_CONN_CLOSE_TPT_def
  QUIC_FRAME_CONN_CLOSE_APP_def QUIC_STREAM_FIN_def QUIC_STREAM_LEN_def QUIC_STREAM_OFF_def

record quic_crypto_frame =
  cr_offset :: u64
  cr_length :: u64
  cr_data :: bytes

record quic_stream_frame =
  sf_stream_id :: u64
  sf_offset :: u64
  sf_length :: u64
  sf_data :: bytes
  sf_fin :: u8

record quic_conn_close_frame =
  cc_is_app :: u8
  cc_error_code :: u64
  cc_frame_type :: u64
  cc_reason_len :: u64
  cc_reason :: bytes

section \<open>frame.c\<close>

definition write_bytes :: "bytes \<Rightarrow> usz \<Rightarrow> usz \<Rightarrow> bytes \<Rightarrow> u64 \<Rightarrow> usz \<times> bytes" where
  "write_bytes buf cap off src len =
     (if usz_add off (unat len) > cap then (0, buf)
      else (usz_add off (unat len), overwrite buf off (take (unat len) src)))"

definition read_bytes :: "bytes \<Rightarrow> usz \<Rightarrow> usz \<Rightarrow> u64 \<Rightarrow> (bytes \<times> usz) option" where
  "read_bytes buf n off len =
     (if usz_add off (unat len) > n then None
      else Some (take (unat len) (drop off buf), usz_add off (unat len)))"

definition quic_frame_put_simple :: "bytes \<Rightarrow> usz \<Rightarrow> u8 \<Rightarrow> usz \<times> bytes" where
  "quic_frame_put_simple buf cap type = (if cap = 0 then (0, buf) else (1, buf[0 := type]))"

definition put_crypto_hdr :: "bytes \<Rightarrow> usz \<Rightarrow> usz \<Rightarrow> quic_crypto_frame \<Rightarrow> put_res" where
  "put_crypto_hdr buf cap off f =
     put_seq (quic_varint_put buf cap off QUIC_FRAME_CRYPTO) (\<lambda>buf off.
     put_seq (quic_varint_put buf cap off (cr_offset f)) (\<lambda>buf off.
     quic_varint_put buf cap off (cr_length f)))"

definition quic_frame_put_crypto :: "bytes \<Rightarrow> usz \<Rightarrow> quic_crypto_frame \<Rightarrow> usz \<times> bytes" where
  "quic_frame_put_crypto buf cap f =
     (case put_crypto_hdr buf cap 0 f of (ok, buf, off) \<Rightarrow>
        if \<not> ok then (0, buf) else write_bytes buf cap off (cr_data f) (cr_length f))"

definition take_crypto_hdr :: "bytes \<Rightarrow> usz \<Rightarrow> usz \<Rightarrow> ((u64 \<times> u64) \<times> usz) option" where
  "take_crypto_hdr buf n off =
     do { (offset, off) \<leftarrow> quic_varint_take buf n off;
          (len, off) \<leftarrow> quic_varint_take buf n off;
          Some ((offset, len), off) }"

definition quic_frame_get_crypto :: "bytes \<Rightarrow> usz \<Rightarrow> (quic_crypto_frame \<times> usz) option" where
  "quic_frame_get_crypto buf n =
     do { (h, off) \<leftarrow> take_crypto_hdr buf n 1;
          (data, off) \<leftarrow> read_bytes buf n off (snd h);
          Some (\<lparr>cr_offset = fst h, cr_length = snd h, cr_data = data\<rparr>, off) }"

definition stream_type :: "quic_stream_frame \<Rightarrow> u8" where
  "stream_type f =
     (let t = QUIC_FRAME_STREAM_BASE OR QUIC_STREAM_LEN;
          t = (if sf_offset f \<noteq> 0 then t OR QUIC_STREAM_OFF else t)
      in if sf_fin f \<noteq> 0 then t OR QUIC_STREAM_FIN else t)"

definition put_opt_offset :: "bytes \<Rightarrow> usz \<Rightarrow> usz \<Rightarrow> u64 \<Rightarrow> put_res" where
  "put_opt_offset buf cap off offset =
     (if offset = 0 then (True, buf, off) else quic_varint_put buf cap off offset)"

definition put_stream_prefix :: "bytes \<Rightarrow> usz \<Rightarrow> usz \<Rightarrow> quic_stream_frame \<Rightarrow> put_res" where
  "put_stream_prefix buf cap off f =
     put_seq (quic_varint_put buf cap off (ucast (stream_type f))) (\<lambda>buf off.
     quic_varint_put buf cap off (sf_stream_id f))"

definition put_stream_hdr :: "bytes \<Rightarrow> usz \<Rightarrow> usz \<Rightarrow> quic_stream_frame \<Rightarrow> put_res" where
  "put_stream_hdr buf cap off f =
     put_seq (put_stream_prefix buf cap off f) (\<lambda>buf off.
     put_seq (put_opt_offset buf cap off (sf_offset f)) (\<lambda>buf off.
     quic_varint_put buf cap off (sf_length f)))"

definition quic_frame_put_stream :: "bytes \<Rightarrow> usz \<Rightarrow> quic_stream_frame \<Rightarrow> usz \<times> bytes" where
  "quic_frame_put_stream buf cap f =
     (case put_stream_hdr buf cap 0 f of (ok, buf, off) \<Rightarrow>
        if \<not> ok then (0, buf) else write_bytes buf cap off (sf_data f) (sf_length f))"

definition take_opt_offset :: "bytes \<Rightarrow> usz \<Rightarrow> usz \<Rightarrow> u8 \<Rightarrow> (u64 \<times> usz) option" where
  "take_opt_offset buf n off type =
     (if type AND QUIC_STREAM_OFF = 0 then Some (0, off) else quic_varint_take buf n off)"

definition take_stream_hdr :: "bytes \<Rightarrow> usz \<Rightarrow> usz \<Rightarrow> u8 \<Rightarrow> ((u64 \<times> u64 \<times> u64) \<times> usz) option" where
  "take_stream_hdr buf n off type =
     do { (sid, off) \<leftarrow> quic_varint_take buf n off;
          (offset, off) \<leftarrow> take_opt_offset buf n off type;
          (len, off) \<leftarrow> quic_varint_take buf n off;
          Some ((sid, offset, len), off) }"

definition quic_frame_get_stream :: "bytes \<Rightarrow> usz \<Rightarrow> (quic_stream_frame \<times> usz) option" where
  "quic_frame_get_stream buf n =
     (let type = rd buf 0;
          fin = (if type AND QUIC_STREAM_FIN \<noteq> 0 then 1 else 0)
      in do { (h, off) \<leftarrow> take_stream_hdr buf n 1 type;
              (data, off) \<leftarrow> read_bytes buf n off (snd (snd h));
              Some (\<lparr>sf_stream_id = fst h, sf_offset = fst (snd h), sf_length = snd (snd h),
                     sf_data = data, sf_fin = fin\<rparr>, off) })"

definition put_opt_frame_type :: "bytes \<Rightarrow> usz \<Rightarrow> usz \<Rightarrow> quic_conn_close_frame \<Rightarrow> put_res" where
  "put_opt_frame_type buf cap off f =
     (if cc_is_app f \<noteq> 0 then (True, buf, off) else quic_varint_put buf cap off (cc_frame_type f))"

definition put_cc_prefix :: "bytes \<Rightarrow> usz \<Rightarrow> usz \<Rightarrow> quic_conn_close_frame \<Rightarrow> put_res" where
  "put_cc_prefix buf cap off f =
     (let type = (if cc_is_app f \<noteq> 0 then QUIC_FRAME_CONN_CLOSE_APP else QUIC_FRAME_CONN_CLOSE_TPT)
      in put_seq (quic_varint_put buf cap off (ucast type)) (\<lambda>buf off.
         quic_varint_put buf cap off (cc_error_code f)))"

definition put_cc_hdr :: "bytes \<Rightarrow> usz \<Rightarrow> usz \<Rightarrow> quic_conn_close_frame \<Rightarrow> put_res" where
  "put_cc_hdr buf cap off f =
     put_seq (put_cc_prefix buf cap off f) (\<lambda>buf off.
     put_seq (put_opt_frame_type buf cap off f) (\<lambda>buf off.
     quic_varint_put buf cap off (cc_reason_len f)))"

definition quic_frame_put_conn_close :: "bytes \<Rightarrow> usz \<Rightarrow> quic_conn_close_frame \<Rightarrow> usz \<times> bytes" where
  "quic_frame_put_conn_close buf cap f =
     (case put_cc_hdr buf cap 0 f of (ok, buf, off) \<Rightarrow>
        if \<not> ok then (0, buf) else write_bytes buf cap off (cc_reason f) (cc_reason_len f))"

definition take_opt_frame_type :: "bytes \<Rightarrow> usz \<Rightarrow> usz \<Rightarrow> u8 \<Rightarrow> (u64 \<times> usz) option" where
  "take_opt_frame_type buf n off is_app =
     (if is_app \<noteq> 0 then Some (0, off) else quic_varint_take buf n off)"

definition take_cc_hdr :: "bytes \<Rightarrow> usz \<Rightarrow> usz \<Rightarrow> u8 \<Rightarrow> ((u64 \<times> u64 \<times> u64) \<times> usz) option" where
  "take_cc_hdr buf n off is_app =
     do { (code, off) \<leftarrow> quic_varint_take buf n off;
          (ft, off) \<leftarrow> take_opt_frame_type buf n off is_app;
          (len, off) \<leftarrow> quic_varint_take buf n off;
          Some ((code, ft, len), off) }"

definition quic_frame_get_conn_close :: "bytes \<Rightarrow> usz \<Rightarrow> (quic_conn_close_frame \<times> usz) option" where
  "quic_frame_get_conn_close buf n =
     (let is_app = (if rd buf 0 = QUIC_FRAME_CONN_CLOSE_APP then 1 else 0)
      in do { (h, off) \<leftarrow> take_cc_hdr buf n 1 is_app;
              (reason, off) \<leftarrow> read_bytes buf n off (snd (snd h));
              Some (\<lparr>cc_is_app = is_app, cc_error_code = fst h, cc_frame_type = fst (snd h),
                     cc_reason_len = snd (snd h), cc_reason = reason\<rparr>, off) })"

section \<open>flowctl.c\<close>

definition QUIC_FRAME_MAX_DATA :: u64 where "QUIC_FRAME_MAX_DATA = 0x10"
definition QUIC_FRAME_MAX_STREAM_DATA :: u64 where "QUIC_FRAME_MAX_STREAM_DATA = 0x11"
definition QUIC_FRAME_MAX_STREAMS_BIDI :: u64 where "QUIC_FRAME_MAX_STREAMS_BIDI = 0x12"
definition QUIC_FRAME_DATA_BLOCKED :: u64 where "QUIC_FRAME_DATA_BLOCKED = 0x14"
definition QUIC_FRAME_STREAM_DATA_BLOCKED :: u64 where "QUIC_FRAME_STREAM_DATA_BLOCKED = 0x15"
definition QUIC_FRAME_STREAMS_BLOCKED_BIDI :: u64 where "QUIC_FRAME_STREAMS_BLOCKED_BIDI = 0x16"

lemmas flow_consts = QUIC_FRAME_MAX_DATA_def QUIC_FRAME_MAX_STREAM_DATA_def QUIC_FRAME_MAX_STREAMS_BIDI_def
  QUIC_FRAME_DATA_BLOCKED_def QUIC_FRAME_STREAM_DATA_BLOCKED_def QUIC_FRAME_STREAMS_BLOCKED_BIDI_def

record quic_data_frame =
  df_value :: u64

record quic_stream_data_frame =
  sd_stream_id :: u64
  sd_value :: u64

record quic_streams_frame =
  ms_max_streams :: u64
  ms_uni :: int

definition put_at :: "bytes \<Rightarrow> usz \<Rightarrow> usz \<Rightarrow> u64 \<Rightarrow> put_res" where
  "put_at buf cap off v = quic_varint_put buf cap off v"

definition put_one_varint_frame :: "bytes \<Rightarrow> usz \<Rightarrow> u64 \<Rightarrow> u64 \<Rightarrow> usz \<times> bytes" where
  "put_one_varint_frame buf cap type value =
     put_done (put_seq (put_at buf cap 0 type) (\<lambda>buf off. put_at buf cap off value))"

definition get_one_varint_frame :: "bytes \<Rightarrow> usz \<Rightarrow> (u64 \<times> usz) option" where
  "get_one_varint_frame buf n = quic_varint_take buf n 1"

definition put_two_varint_frame :: "bytes \<Rightarrow> usz \<Rightarrow> u64 \<Rightarrow> u64 \<Rightarrow> u64 \<Rightarrow> usz \<times> bytes" where
  "put_two_varint_frame buf cap type a b =
     (case put_one_varint_frame buf cap type a of (off, buf) \<Rightarrow>
        if off = 0 then (0, buf) else put_done (put_at buf cap off b))"

definition get_two_varint_frame :: "bytes \<Rightarrow> usz \<Rightarrow> ((u64 \<times> u64) \<times> usz) option" where
  "get_two_varint_frame buf n =
     do { (a, off) \<leftarrow> get_one_varint_frame buf n;
          (b, off) \<leftarrow> quic_varint_take buf n off;
          Some ((a, b), off) }"

definition quic_max_data_encode :: "bytes \<Rightarrow> usz \<Rightarrow> quic_data_frame \<Rightarrow> usz \<times> bytes" where
  "quic_max_data_encode buf cap f = put_one_varint_frame buf cap QUIC_FRAME_MAX_DATA (df_value f)"

definition quic_max_data_decode :: "bytes \<Rightarrow> usz \<Rightarrow> (quic_data_frame \<times> usz) option" where
  "quic_max_data_decode buf n =
     do { (v, off) \<leftarrow> get_one_varint_frame buf n; Some (\<lparr>df_value = v\<rparr>, off) }"

definition quic_data_blocked_encode :: "bytes \<Rightarrow> usz \<Rightarrow> quic_data_frame \<Rightarrow> usz \<times> bytes" where
  "quic_data_blocked_encode buf cap f =
     put_one_varint_frame buf cap QUIC_FRAME_DATA_BLOCKED (df_value f)"

definition quic_data_blocked_decode :: "bytes \<Rightarrow> usz \<Rightarrow> (quic_data_frame \<times> usz) option" where
  "quic_data_blocked_decode buf n =
     do { (v, off) \<leftarrow> get_one_varint_frame buf n; Some (\<lparr>df_value = v\<rparr>, off) }"

definition quic_max_stream_data_encode :: "bytes \<Rightarrow> usz \<Rightarrow> quic_stream_data_frame \<Rightarrow> usz \<times> bytes" where
  "quic_max_stream_data_encode buf cap f =
     put_two_varint_frame buf cap QUIC_FRAME_MAX_STREAM_DATA (sd_stream_id f) (sd_value f)"

definition quic_max_stream_data_decode :: "bytes \<Rightarrow> usz \<Rightarrow> (quic_stream_data_frame \<times> usz) option" where
  "quic_max_stream_data_decode buf n =
     do { (ab, off) \<leftarrow> get_two_varint_frame buf n;
          Some (\<lparr>sd_stream_id = fst ab, sd_value = snd ab\<rparr>, off) }"

definition quic_stream_data_blocked_encode :: "bytes \<Rightarrow> usz \<Rightarrow> quic_stream_data_frame \<Rightarrow> usz \<times> bytes" where
  "quic_stream_data_blocked_encode buf cap f =
     put_two_varint_frame buf cap QUIC_FRAME_STREAM_DATA_BLOCKED (sd_stream_id f) (sd_value f)"

definition quic_stream_data_blocked_decode ::
    "bytes \<Rightarrow> usz \<Rightarrow> (quic_stream_data_frame \<times> usz) option" where
  "quic_stream_data_blocked_decode buf n =
     do { (ab, off) \<leftarrow> get_two_varint_frame buf n;
          Some (\<lparr>sd_stream_id = fst ab, sd_value = snd ab\<rparr>, off) }"

definition streams_type :: "u64 \<Rightarrow> int \<Rightarrow> u64" where
  "streams_type bidi_type uni = bidi_type + (if uni \<noteq> 0 then 1 else 0)"

definition quic_max_streams_encode :: "bytes \<Rightarrow> usz \<Rightarrow> quic_streams_frame \<Rightarrow> usz \<times> bytes" where
  "quic_max_streams_encode buf cap f =
     put_one_varint_frame buf cap (streams_type QUIC_FRAME_MAX_STREAMS_BIDI (ms_uni f)) (ms_max_streams f)"

definition quic_max_streams_decode :: "bytes \<Rightarrow> usz \<Rightarrow> (quic_streams_frame \<times> usz) option" where
  "quic_max_streams_decode buf n =
     (let uni = uint (rd buf 0 AND 1)
      in do { (v, off) \<leftarrow> get_one_varint_frame buf n;
              Some (\<lparr>ms_max_streams = v, ms_uni = uni\<rparr>, off) })"

definition quic_streams_blocked_encode :: "bytes \<Rightarrow> usz \<Rightarrow> quic_streams_frame \<Rightarrow> usz \<times> bytes" where
  "quic_streams_blocked_encode buf cap f =
     put_one_varint_frame buf cap (streams_type QUIC_FRAME_STREAMS_BLOCKED_BIDI (ms_uni f)) (ms_max_streams f)"

definition quic_streams_blocked_decode :: "bytes \<Rightarrow> usz \<Rightarrow> (quic_streams_frame \<times> usz) option" where
  "quic_streams_blocked_decode buf n =
     (let uni = uint (rd buf 0 AND 1)
      in do { (v, off) \<leftarrow> get_one_varint_frame buf n;
              Some (\<lparr>ms_max_streams = v, ms_uni = uni\<rparr>, off) })"

section \<open>stream\_ctl.c\<close>

definition QUIC_FRAME_RESET_STREAM :: u64 where "QUIC_FRAME_RESET_STREAM = 0x04"
definition QUIC_FRAME_STOP_SENDING :: u64 where "QUIC_FRAME_STOP_SENDING = 0x05"

record quic_reset_stream_frame =
  rs_stream_id :: u64
  rs_error_code :: u64
  rs_final_size :: u64

record quic_stop_sending_frame =
  ss_stream_id :: u64
  ss_error_code :: u64

definition put_rs_head :: "bytes \<Rightarrow> usz \<Rightarrow> usz \<Rightarrow> quic_reset_stream_frame \<Rightarrow> put_res" where
  "put_rs_head buf cap off f =
     put_seq (quic_varint_put buf cap off QUIC_FRAME_RESET_STREAM) (\<lambda>buf off.
     quic_varint_put buf cap off (rs_stream_id f))"

definition put_rs_tail :: "bytes \<Rightarrow> usz \<Rightarrow> usz \<Rightarrow> quic_reset_stream_frame \<Rightarrow> put_res" where
  "put_rs_tail buf cap off f =
     put_seq (quic_varint_put buf cap off (rs_error_code f)) (\<lambda>buf off.
     quic_varint_put buf cap off (rs_final_size f))"

definition quic_reset_stream_encode :: "bytes \<Rightarrow> usz \<Rightarrow> quic_reset_stream_frame \<Rightarrow> usz \<times> bytes" where
  "quic_reset_stream_encode buf cap f =
     put_done (put_seq (put_rs_head buf cap 0 f) (\<lambda>buf off. put_rs_tail buf cap off f))"

definition take_rs_head :: "bytes \<Rightarrow> usz \<Rightarrow> usz \<Rightarrow> ((u64 \<times> u64) \<times> usz) option" where
  "take_rs_head buf n off =
     do { (sid, off) \<leftarrow> quic_varint_take buf n off;
          (code, off) \<leftarrow> quic_varint_take buf n off;
          Some ((sid, code), off) }"

definition quic_reset_stream_decode :: "bytes \<Rightarrow> usz \<Rightarrow> (quic_reset_stream_frame \<times> usz) option" where
  "quic_reset_stream_decode buf n =
     do { (h, off) \<leftarrow> take_rs_head buf n 1;
          (fs, off) \<leftarrow> quic_varint_take buf n off;
          Some (\<lparr>rs_stream_id = fst h, rs_error_code = snd h, rs_final_size = fs\<rparr>, off) }"

definition put_ss_head :: "bytes \<Rightarrow> usz \<Rightarrow> usz \<Rightarrow> quic_stop_sending_frame \<Rightarrow> put_res" where
  "put_ss_head buf cap off f =
     put_seq (quic_varint_put buf cap off QUIC_FRAME_STOP_SENDING) (\<lambda>buf off.
     quic_varint_put buf cap off (ss_stream_id f))"

definition quic_stop_sending_encode :: "bytes \<Rightarrow> usz \<Rightarrow> quic_stop_sending_frame \<Rightarrow> usz \<times> bytes" where
  "quic_stop_sending_encode buf cap f =
     put_done (put_seq (put_ss_head buf cap 0 f) (\<lambda>buf off. quic_varint_put buf cap off (ss_error_code f)))"

definition quic_stop_sending_decode :: "bytes \<Rightarrow> usz \<Rightarrow> (quic_stop_sending_frame \<times> usz) option" where
  "quic_stop_sending_decode buf n =
     do { (sid, off) \<leftarrow> quic_varint_take buf n 1;
          (code, off) \<leftarrow> quic_varint_take buf n off;
          Some (\<lparr>ss_stream_id = sid, ss_error_code = code\<rparr>, off) }"

section \<open>connctl.c\<close>

definition QUIC_FRAME_NEW_TOKEN :: u64 where "QUIC_FRAME_NEW_TOKEN = 0x07"
definition QUIC_FRAME_RETIRE_CID :: u64 where "QUIC_FRAME_RETIRE_CID = 0x19"
definition QUIC_FRAME_PATH_CHALLENGE :: u8 where "QUIC_FRAME_PATH_CHALLENGE = 0x1a"
definition QUIC_FRAME_PATH_RESPONSE :: u8 where "QUIC_FRAME_PATH_RESPONSE = 0x1b"
definition QUIC_FRAME_HANDSHAKE_DONE :: u8 where "QUIC_FRAME_HANDSHAKE_DONE = 0x1e"
definition QUIC_PATH_DATA :: usz where "QUIC_PATH_DATA = 8"

record quic_new_token_frame =
  nt_length :: u64
  nt_token :: bytes

definition put_new_token_head :: "bytes \<Rightarrow> usz \<Rightarrow> usz \<Rightarrow> u64 \<Rightarrow> put_res" where
  "put_new_token_head buf cap off len =
     put_seq (quic_varint_put buf cap off QUIC_FRAME_NEW_TOKEN) (\<lambda>buf off.
     quic_varint_put buf cap off len)"

definition quic_new_token_encode :: "bytes \<Rightarrow> usz \<Rightarrow> quic_new_token_frame \<Rightarrow> usz \<times> bytes" where
  "quic_new_token_encode buf cap f =
     put_done (put_seq (put_new_token_head buf cap 0 (nt_length f)) (\<lambda>buf off.
       quic_put_bytes buf cap off (nt_token f) (unat (nt_length f))))"

definition take_token_view :: "bytes \<Rightarrow> usz \<Rightarrow> usz \<Rightarrow> u64 \<Rightarrow> (bytes \<times> usz) option" where
  "take_token_view buf n off len =
     (if usz_add off (unat len) > n then None
      else Some (take (unat len) (drop off buf), usz_add off (unat len)))"

definition quic_new_token_decode :: "bytes \<Rightarrow> usz \<Rightarrow> (quic_new_token_frame \<times> usz) option" where
  "quic_new_token_decode buf n =
     do { (len, off) \<leftarrow> quic_varint_take buf n 1;
          (token, off) \<leftarrow> take_token_view buf n off len;
          Some (\<lparr>nt_length = len, nt_token = token\<rparr>, off) }"

definition quic_retire_cid_encode :: "bytes \<Rightarrow> usz \<Rightarrow> u64 \<Rightarrow> usz \<times> bytes" where
  "quic_retire_cid_encode buf cap seq =
     put_done (put_seq (quic_varint_put buf cap 0 QUIC_FRAME_RETIRE_CID) (\<lambda>buf off.
       quic_varint_put buf cap off seq))"

definition quic_retire_cid_decode :: "bytes \<Rightarrow> usz \<Rightarrow> (u64 \<times> usz) option" where
  "quic_retire_cid_decode buf n = quic_varint_take buf n 1"

definition quic_path_encode :: "bytes \<Rightarrow> usz \<Rightarrow> u8 \<Rightarrow> bytes \<Rightarrow> usz \<times> bytes" where
  "quic_path_encode buf cap type data =
     (if cap = 0 then (0, buf)
      else put_done (quic_put_bytes (buf[0 := type]) cap 1 data QUIC_PATH_DATA))"

definition type_is :: "bytes \<Rightarrow> usz \<Rightarrow> u8 \<Rightarrow> bool" where
  "type_is buf n type \<longleftrightarrow> n \<noteq> 0 \<and> rd buf 0 = type"

definition quic_path_decode :: "bytes \<Rightarrow> usz \<Rightarrow> u8 \<Rightarrow> (bytes \<times> usz) option" where
  "quic_path_decode buf n type =
     (if \<not> type_is buf n type then None else quic_take_bytes buf n 1 QUIC_PATH_DATA)"

definition quic_handshake_done_encode :: "bytes \<Rightarrow> usz \<Rightarrow> usz \<times> bytes" where
  "quic_handshake_done_encode buf cap =
     (if cap = 0 then (0, buf) else (1, buf[0 := QUIC_FRAME_HANDSHAKE_DONE]))"

definition quic_handshake_done_decode :: "bytes \<Rightarrow> usz \<Rightarrow> usz" where
  "quic_handshake_done_decode buf n =
     (if n = 0 \<or> rd buf 0 \<noteq> QUIC_FRAME_HANDSHAKE_DONE then 0 else 1)"

section \<open>ncid.c\<close>

definition QUIC_FRAME_NEW_CID :: u64 where "QUIC_FRAME_NEW_CID = 0x18"
definition QUIC_NCID_TOKEN :: usz where "QUIC_NCID_TOKEN = 16"
definition QUIC_NCID_MAX_LEN :: u8 where "QUIC_NCID_MAX_LEN = 20"

text \<open>The 20-byte array \<^verbatim>\<open>cid\<close> is represented by the bytes that \<^verbatim>\<open>cid_len\<close> marks as used.\<close>

record quic_ncid_frame =
  nc_seq :: u64
  nc_retire_prior_to :: u64
  nc_cid_len :: u8
  nc_cid :: bytes
  nc_token :: bytes

definition ncid_valid :: "quic_ncid_frame \<Rightarrow> bool" where
  "ncid_valid f \<longleftrightarrow> nc_cid_len f \<le> QUIC_NCID_MAX_LEN \<and> nc_retire_prior_to f \<le> nc_seq f"

definition put_ncid_head :: "bytes \<Rightarrow> usz \<Rightarrow> usz \<Rightarrow> quic_ncid_frame \<Rightarrow> put_res" where
  "put_ncid_head buf cap off f =
     put_seq (quic_varint_put buf cap off QUIC_FRAME_NEW_CID) (\<lambda>buf off.
     put_seq (quic_varint_put buf cap off (nc_seq f)) (\<lambda>buf off.
     quic_varint_put buf cap off (nc_retire_prior_to f)))"

definition put_ncid_body :: "bytes \<Rightarrow> usz \<Rightarrow> usz \<Rightarrow> quic_ncid_frame \<Rightarrow> put_res" where
  "put_ncid_body buf cap off f =
     (if off \<ge> cap then (False, buf, off)
      else put_seq (quic_put_bytes (buf[off := nc_cid_len f]) cap (off + 1) (nc_cid f) (unat (nc_cid_len f)))
        (\<lambda>buf off. quic_put_bytes buf cap off (nc_token f) QUIC_NCID_TOKEN))"

definition put_ncid :: "bytes \<Rightarrow> usz \<Rightarrow> usz \<Rightarrow> quic_ncid_frame \<Rightarrow> put_res" where
  "put_ncid buf cap off f =
     put_seq (put_ncid_head buf cap off f) (\<lambda>buf off. put_ncid_body buf cap off f)"

definition quic_ncid_encode :: "bytes \<Rightarrow> usz \<Rightarrow> quic_ncid_frame \<Rightarrow> usz \<times> bytes" where
  "quic_ncid_encode buf cap f =
     (if \<not> ncid_valid f then (0, buf) else put_done (put_ncid buf cap 0 f))"

definition take_ncid_head :: "bytes \<Rightarrow> usz \<Rightarrow> usz \<Rightarrow> ((u64 \<times> u64) \<times> usz) option" where
  "take_ncid_head buf n off =
     do { (seq, off) \<leftarrow> quic_varint_take buf n off;
          (rpt, off) \<leftarrow> quic_varint_take buf n off;
          Some ((seq, rpt), off) }"

definition cid_len_ok :: "bytes \<Rightarrow> usz \<Rightarrow> usz \<Rightarrow> bool" where
  "cid_len_ok buf n off \<longleftrightarrow> off < n \<and> rd buf off \<le> QUIC_NCID_MAX_LEN"

definition take_ncid_body :: "bytes \<Rightarrow> usz \<Rightarrow> usz \<Rightarrow> ((u8 \<times> bytes \<times> bytes) \<times> usz) option" where
  "take_ncid_body buf n off =
     (if \<not> cid_len_ok buf n off then None
      else let cid_len = rd buf off
           in do { (cid, off) \<leftarrow> quic_take_bytes buf n (off + 1) (unat cid_len);
                   (token, off) \<leftarrow> quic_take_bytes buf n off QUIC_NCID_TOKEN;
                   Some ((cid_len, cid, token), off) })"

definition quic_ncid_decode :: "bytes \<Rightarrow> usz \<Rightarrow> (quic_ncid_frame \<times> usz) option" where
  "quic_ncid_decode buf n =
     do { (h, off) \<leftarrow> take_ncid_head buf n 1;
          (b, off) \<leftarrow> take_ncid_body buf n off;
          Some (\<lparr>nc_seq = fst h, nc_retire_prior_to = snd h, nc_cid_len = fst b,
                 nc_cid = fst (snd b), nc_token = snd (snd b)\<rparr>, off) }"

section \<open>Wire layouts\<close>

definition crypto_wire :: "quic_crypto_frame \<Rightarrow> bytes" where
  "crypto_wire f = 0x06 # varint_wire (cr_offset f) @ varint_wire (cr_length f) @ cr_data f"

definition crypto_wf :: "quic_crypto_frame \<Rightarrow> bool" where
  "crypto_wf f \<longleftrightarrow> length (cr_data f) = unat (cr_length f)"

definition crypto_ok :: "quic_crypto_frame \<Rightarrow> bool" where
  "crypto_ok f \<longleftrightarrow> cr_offset f \<le> QUIC_VARINT_MAX \<and> cr_length f \<le> QUIC_VARINT_MAX"

definition stream_wire :: "quic_stream_frame \<Rightarrow> bytes" where
  "stream_wire f =
     (0x0A + (if sf_offset f = 0 then 0 else 4) + sf_fin f) # varint_wire (sf_stream_id f) @
     (if sf_offset f = 0 then [] else varint_wire (sf_offset f)) @ varint_wire (sf_length f) @ sf_data f"

definition stream_wf :: "quic_stream_frame \<Rightarrow> bool" where
  "stream_wf f \<longleftrightarrow> length (sf_data f) = unat (sf_length f) \<and> (sf_fin f = 0 \<or> sf_fin f = 1)"

definition stream_ok :: "quic_stream_frame \<Rightarrow> bool" where
  "stream_ok f \<longleftrightarrow> sf_stream_id f \<le> QUIC_VARINT_MAX \<and> sf_offset f \<le> QUIC_VARINT_MAX \<and>
     sf_length f \<le> QUIC_VARINT_MAX"

definition conn_close_wire :: "quic_conn_close_frame \<Rightarrow> bytes" where
  "conn_close_wire f =
     (0x1c + cc_is_app f) # varint_wire (cc_error_code f) @
     (if cc_is_app f = 0 then varint_wire (cc_frame_type f) else []) @
     varint_wire (cc_reason_len f) @ cc_reason f"

definition conn_close_wf :: "quic_conn_close_frame \<Rightarrow> bool" where
  "conn_close_wf f \<longleftrightarrow> length (cc_reason f) = unat (cc_reason_len f) \<and>
     (cc_is_app f = 0 \<or> cc_is_app f = 1 \<and> cc_frame_type f = 0)"

definition conn_close_ok :: "quic_conn_close_frame \<Rightarrow> bool" where
  "conn_close_ok f \<longleftrightarrow> cc_error_code f \<le> QUIC_VARINT_MAX \<and> cc_frame_type f \<le> QUIC_VARINT_MAX \<and>
     cc_reason_len f \<le> QUIC_VARINT_MAX"

section \<open>The codecs implement the layouts\<close>

lemma put_done_write:
  "(case r of (ok, buf, off) \<Rightarrow> if \<not> ok then (0, buf) else write_bytes buf cap off src len) =
   put_done (put_seq r (\<lambda>buf off. quic_put_bytes buf cap off src (unat len)))"
  by (cases r) (simp add: write_bytes_def quic_put_bytes_def)

lemma takes_view:
  "length src = unat len \<Longrightarrow> takes (\<lambda>buf n off. read_bytes buf n off len) src src"
  using takes_bytes[of src] by (simp add: read_bytes_def quic_take_bytes_def)

lemma puts_crypto:
  assumes "crypto_wf f"
  shows "puts (\<lambda>buf off. put_seq (put_crypto_hdr buf cap off f) (\<lambda>buf off.
           quic_put_bytes buf cap off (cr_data f) (unat (cr_length f)))) cap (crypto_ok f) (crypto_wire f)"
  unfolding put_crypto_hdr_def put_seq_assoc
  by (rule puts_eqI, rule puts_type, simp add: frame_consts, rule puts_seq[OF puts_varint], rule puts_len_view)
    (use assms in \<open>auto simp: frame_consts crypto_ok_def crypto_wire_def crypto_wf_def\<close>)

lemma gets_crypto:
  assumes "crypto_wf f" "crypto_ok f"
  shows "gets quic_frame_get_crypto (crypto_wire f) f"
proof -
  have h: "takes take_crypto_hdr (varint_wire (cr_offset f) @ varint_wire (cr_length f)) (cr_offset f, cr_length f)"
    unfolding take_crypto_hdr_def
    by (intro takes_bind[OF takes_varint] takes_last[OF takes_varint]) (use assms in \<open>auto simp: crypto_ok_def\<close>)
  have "takes (\<lambda>buf n off. do { (h, off) \<leftarrow> take_crypto_hdr buf n off;
            (data, off) \<leftarrow> read_bytes buf n off (snd h);
            Some (\<lparr>cr_offset = fst h, cr_length = snd h, cr_data = data\<rparr>, off) })
         ((varint_wire (cr_offset f) @ varint_wire (cr_length f)) @ cr_data f) f"
    by (rule takes_bind[OF h], rule takes_eqI, rule takes_last, rule takes_view)
      (use assms in \<open>auto simp: crypto_wf_def\<close>)
  then show ?thesis
    unfolding crypto_wire_def append_assoc by (rule getsI) (simp add: quic_frame_get_crypto_def)
qed

interpretation crypto: wire_codec quic_frame_put_crypto quic_frame_get_crypto crypto_wire crypto_wf crypto_ok
  by (rule wire_codecI[OF puts_crypto _ gets_crypto])
    (simp_all add: quic_frame_put_crypto_def put_done_write crypto_wire_def)

lemma puts_stream:
  assumes "stream_wf f"
  shows "puts (\<lambda>buf off. put_seq (put_stream_hdr buf cap off f) (\<lambda>buf off.
           quic_put_bytes buf cap off (sf_data f) (unat (sf_length f)))) cap (stream_ok f) (stream_wire f)"
proof -
  have t: "ucast (ucast (stream_type f) :: u64) = (0x0A :: u8) + (if sf_offset f = 0 then 0 else 4) + sf_fin f"
    "unat (ucast (stream_type f) :: u64) < 64"
    using assms by (auto simp: stream_type_def frame_consts stream_wf_def)
  show ?thesis
    unfolding put_stream_hdr_def put_stream_prefix_def put_opt_offset_def put_seq_assoc
    by (rule puts_eqI, rule puts_type[OF t(2)], rule puts_seq[OF puts_varint], rule puts_seq,
        rule puts_if[OF puts_skip puts_varint], rule puts_len_view)
      (use assms t(1) in \<open>auto simp: stream_ok_def stream_wire_def stream_wf_def\<close>)
qed

lemma gets_stream:
  assumes "stream_wf f" "stream_ok f"
  shows "gets quic_frame_get_stream (stream_wire f) f"
proof -
  define t where "t = (0x0A :: u8) + (if sf_offset f = 0 then 0 else 4) + sf_fin f"
  have off: "t AND QUIC_STREAM_OFF = 0 \<longleftrightarrow> sf_offset f = 0"
    and fin: "(if t AND QUIC_STREAM_FIN \<noteq> 0 then 1 else 0) = sf_fin f"
    using assms(1) by (auto simp: t_def frame_consts stream_wf_def)
  have o: "takes (\<lambda>buf n off. take_opt_offset buf n off t)
      (if sf_offset f = 0 then [] else varint_wire (sf_offset f)) (sf_offset f)"
    using assms(2) takes_return[of 0] takes_varint[of "sf_offset f"]
    by (auto simp: take_opt_offset_def off stream_ok_def)
  have h: "takes (\<lambda>buf n off. take_stream_hdr buf n off t)
      (varint_wire (sf_stream_id f) @ (if sf_offset f = 0 then [] else varint_wire (sf_offset f)) @
       varint_wire (sf_length f)) (sf_stream_id f, sf_offset f, sf_length f)"
    unfolding take_stream_hdr_def
    by (intro takes_bind[OF takes_varint] takes_bind[OF o] takes_last[OF takes_varint])
      (use assms in \<open>auto simp: stream_ok_def\<close>)
  have "takes (\<lambda>buf n off. do { (h, off) \<leftarrow> take_stream_hdr buf n off t;
              (data, off) \<leftarrow> read_bytes buf n off (snd (snd h));
              Some (\<lparr>sf_stream_id = fst h, sf_offset = fst (snd h), sf_length = snd (snd h),
                     sf_data = data, sf_fin = sf_fin f\<rparr>, off) })
         ((varint_wire (sf_stream_id f) @ (if sf_offset f = 0 then [] else varint_wire (sf_offset f)) @
       varint_wire (sf_length f)) @ sf_data f) f"
    by (rule takes_bind[OF h], rule takes_eqI, rule takes_last, rule takes_view)
      (use assms in \<open>auto simp: stream_wf_def\<close>)
  then show ?thesis
    unfolding stream_wire_def append_assoc t_def[symmetric]
    by (rule getsI) (simp add: quic_frame_get_stream_def Let_def fin)
qed

interpretation stream: wire_codec quic_frame_put_stream quic_frame_get_stream stream_wire stream_wf stream_ok
  by (rule wire_codecI[OF puts_stream _ gets_stream])
    (simp_all add: quic_frame_put_stream_def put_done_write stream_wire_def)

lemma puts_conn_close:
  assumes "conn_close_wf f"
  shows "puts (\<lambda>buf off. put_seq (put_cc_hdr buf cap off f) (\<lambda>buf off.
           quic_put_bytes buf cap off (cc_reason f) (unat (cc_reason_len f)))) cap
           (conn_close_ok f) (conn_close_wire f)"
proof -
  define type where "type = (if cc_is_app f \<noteq> 0 then QUIC_FRAME_CONN_CLOSE_APP else QUIC_FRAME_CONN_CLOSE_TPT)"
  have t: "ucast (ucast type :: u64) = (0x1c :: u8) + cc_is_app f" "unat (ucast type :: u64) < 64"
    using assms by (auto simp: type_def frame_consts conn_close_wf_def)
  show ?thesis
    unfolding put_cc_hdr_def put_cc_prefix_def put_opt_frame_type_def put_seq_assoc Let_def type_def[symmetric]
    by (rule puts_eqI, rule puts_type[OF t(2)], rule puts_seq[OF puts_varint], rule puts_seq,
        rule puts_if[OF puts_skip puts_varint], rule puts_len_view)
      (use assms t(1) in \<open>auto simp: conn_close_ok_def conn_close_wire_def conn_close_wf_def\<close>)
qed

lemma gets_conn_close:
  assumes "conn_close_wf f" "conn_close_ok f"
  shows "gets quic_frame_get_conn_close (conn_close_wire f) f"
proof -
  have app: "(if 0x1c + cc_is_app f = QUIC_FRAME_CONN_CLOSE_APP then 1 else 0) = cc_is_app f"
    using assms(1) by (auto simp: frame_consts conn_close_wf_def)
  let ?ft = "if cc_is_app f = 0 then varint_wire (cc_frame_type f) else []"
  have o: "takes (\<lambda>buf n off. take_opt_frame_type buf n off (cc_is_app f)) ?ft (cc_frame_type f)"
    using assms takes_return[of 0] takes_varint[of "cc_frame_type f"]
    by (auto simp: take_opt_frame_type_def conn_close_ok_def conn_close_wf_def)
  have h: "takes (\<lambda>buf n off. take_cc_hdr buf n off (cc_is_app f))
      (varint_wire (cc_error_code f) @ ?ft @ varint_wire (cc_reason_len f))
      (cc_error_code f, cc_frame_type f, cc_reason_len f)"
    unfolding take_cc_hdr_def
    by (intro takes_bind[OF takes_varint] takes_bind[OF o] takes_last[OF takes_varint])
      (use assms in \<open>auto simp: conn_close_ok_def\<close>)
  have "takes (\<lambda>buf n off. do { (h, off) \<leftarrow> take_cc_hdr buf n off (cc_is_app f);
              (reason, off) \<leftarrow> read_bytes buf n off (snd (snd h));
              Some (\<lparr>cc_is_app = cc_is_app f, cc_error_code = fst h, cc_frame_type = fst (snd h),
                     cc_reason_len = snd (snd h), cc_reason = reason\<rparr>, off) })
         ((varint_wire (cc_error_code f) @ ?ft @ varint_wire (cc_reason_len f)) @ cc_reason f) f"
    by (rule takes_bind[OF h], rule takes_eqI, rule takes_last, rule takes_view)
      (use assms in \<open>auto simp: conn_close_wf_def\<close>)
  then show ?thesis
    unfolding conn_close_wire_def append_assoc
    by (rule getsI) (simp add: quic_frame_get_conn_close_def Let_def app)
qed

interpretation conn_close: wire_codec quic_frame_put_conn_close quic_frame_get_conn_close
    conn_close_wire conn_close_wf conn_close_ok
  by (rule wire_codecI[OF puts_conn_close _ gets_conn_close])
    (simp_all add: quic_frame_put_conn_close_def put_done_write conn_close_wire_def)

text \<open>The frames of fixed varints and NEW\_TOKEN.\<close>

definition max_data_wire :: "quic_data_frame \<Rightarrow> bytes" where
  "max_data_wire f = 0x10 # varint_wire (df_value f)"

definition data_blocked_wire :: "quic_data_frame \<Rightarrow> bytes" where
  "data_blocked_wire f = 0x14 # varint_wire (df_value f)"

definition data_ok :: "quic_data_frame \<Rightarrow> bool" where
  "data_ok f \<longleftrightarrow> df_value f \<le> QUIC_VARINT_MAX"

definition max_stream_data_wire :: "quic_stream_data_frame \<Rightarrow> bytes" where
  "max_stream_data_wire f = 0x11 # varint_wire (sd_stream_id f) @ varint_wire (sd_value f)"

definition stream_data_blocked_wire :: "quic_stream_data_frame \<Rightarrow> bytes" where
  "stream_data_blocked_wire f = 0x15 # varint_wire (sd_stream_id f) @ varint_wire (sd_value f)"

definition stream_data_ok :: "quic_stream_data_frame \<Rightarrow> bool" where
  "stream_data_ok f \<longleftrightarrow> sd_stream_id f \<le> QUIC_VARINT_MAX \<and> sd_value f \<le> QUIC_VARINT_MAX"

definition max_streams_wire :: "quic_streams_frame \<Rightarrow> bytes" where
  "max_streams_wire f = (if ms_uni f = 0 then 0x12 else 0x13) # varint_wire (ms_max_streams f)"

definition streams_blocked_wire :: "quic_streams_frame \<Rightarrow> bytes" where
  "streams_blocked_wire f = (if ms_uni f = 0 then 0x16 else 0x17) # varint_wire (ms_max_streams f)"

definition streams_wf :: "quic_streams_frame \<Rightarrow> bool" where
  "streams_wf f \<longleftrightarrow> ms_uni f = 0 \<or> ms_uni f = 1"

definition streams_ok :: "quic_streams_frame \<Rightarrow> bool" where
  "streams_ok f \<longleftrightarrow> ms_max_streams f \<le> QUIC_VARINT_MAX"

definition reset_stream_wire :: "quic_reset_stream_frame \<Rightarrow> bytes" where
  "reset_stream_wire f =
     0x04 # varint_wire (rs_stream_id f) @ varint_wire (rs_error_code f) @ varint_wire (rs_final_size f)"

definition reset_stream_ok :: "quic_reset_stream_frame \<Rightarrow> bool" where
  "reset_stream_ok f \<longleftrightarrow> rs_stream_id f \<le> QUIC_VARINT_MAX \<and> rs_error_code f \<le> QUIC_VARINT_MAX \<and>
     rs_final_size f \<le> QUIC_VARINT_MAX"

definition stop_sending_wire :: "quic_stop_sending_frame \<Rightarrow> bytes" where
  "stop_sending_wire f = 0x05 # varint_wire (ss_stream_id f) @ varint_wire (ss_error_code f)"

definition stop_sending_ok :: "quic_stop_sending_frame \<Rightarrow> bool" where
  "stop_sending_ok f \<longleftrightarrow> ss_stream_id f \<le> QUIC_VARINT_MAX \<and> ss_error_code f \<le> QUIC_VARINT_MAX"

definition new_token_wire :: "quic_new_token_frame \<Rightarrow> bytes" where
  "new_token_wire f = 0x07 # varint_wire (nt_length f) @ nt_token f"

definition new_token_wf :: "quic_new_token_frame \<Rightarrow> bool" where
  "new_token_wf f \<longleftrightarrow> length (nt_token f) = unat (nt_length f)"

definition new_token_ok :: "quic_new_token_frame \<Rightarrow> bool" where
  "new_token_ok f \<longleftrightarrow> nt_length f \<le> QUIC_VARINT_MAX"

definition retire_cid_wire :: "u64 \<Rightarrow> bytes" where
  "retire_cid_wire seq = 0x19 # varint_wire seq"

text \<open>The two-varint encoder tests the offset its one-varint part returns; a successful
  part never ends at offset 0.\<close>

lemma put_at_off:
  assumes "put_at buf cap off v = (True, buf', off')" "off < 2 ^ 63"
  shows "off' = off + quic_varint_len v" "off < off'"
proof -
  have n: "quic_varint_len v \<noteq> 0" and "usz_add off (quic_varint_len v) = off'"
    using assms(1) by (auto simp: put_at_def quic_varint_put_def Let_def quic_varint_encode_def split: if_splits)
  then show "off' = off + quic_varint_len v" using assms(2) varint_len_le_8[of v] by simp
  with n show "off < off'" by simp
qed

lemma put_two_eq:
  "put_two_varint_frame buf cap type a b =
   put_done (put_seq (put_at buf cap 0 type) (\<lambda>buf off.
      put_seq (put_at buf cap off a) (\<lambda>buf off. put_at buf cap off b)))"
proof -
  obtain ok1 buf1 off1 where 1: "put_at buf cap 0 type = (ok1, buf1, off1)" by (cases "put_at buf cap 0 type") auto
  obtain ok2 buf2 off2 where 2: "put_at buf1 cap off1 a = (ok2, buf2, off2)" by (cases "put_at buf1 cap off1 a") auto
  have "off2 \<noteq> 0" if "ok1" "ok2"
  proof -
    have "off1 < 2 ^ 63" using put_at_off(1)[of buf cap 0 type] 1 that varint_len_le_8[of type] by simp
    then show ?thesis using put_at_off(2)[of buf1 cap off1 a] 2 that by simp
  qed
  then show ?thesis
    by (cases ok1; cases ok2) (simp_all add: put_two_varint_frame_def put_one_varint_frame_def 1 2)
qed

text \<open>Codecs of one and of two varints, for any type and any way of building the frame from
  the type byte and the values.\<close>

lemma one_varint_codec:
  assumes enc: "\<And>buf cap x. enc buf cap x = put_one_varint_frame buf cap (type x) (val x)"
    and dec: "\<And>buf n. dec buf n = do { (v, off) \<leftarrow> get_one_varint_frame buf n; Some (F (rd buf 0) v, off) }"
    and type: "\<And>x. unat (type x) < 64" and F: "\<And>x. wfx x \<Longrightarrow> F (ucast (type x)) (val x) = x"
    and wire: "\<And>x. wire x = ucast (type x) # varint_wire (val x)"
    and ok: "\<And>x. ok x \<longleftrightarrow> val x \<le> QUIC_VARINT_MAX"
  shows "wire_codec enc dec wire wfx ok"
proof (rule wire_codecI)
  fix x cap
  show "puts (\<lambda>buf off. put_seq (put_at buf cap off (type x)) (\<lambda>buf off. put_at buf cap off (val x)))
      cap (ok x) (wire x)"
    unfolding put_at_def wire ok by (rule puts_type[OF type puts_varint])
next
  fix x assume x: "wfx x" "ok x"
  then have v: "takes quic_varint_take (varint_wire (val x)) (val x)" by (simp add: takes_varint ok)
  have "takes (\<lambda>buf n off. do { (v, off) \<leftarrow> quic_varint_take buf n off; Some (F (ucast (type x)) v, off) })
      (varint_wire (val x)) x"
    by (rule takes_eqI[OF takes_last[OF v]]) (simp_all add: F[OF x(1)])
  then show "gets dec (wire x) x"
    unfolding wire by (rule getsI) (simp add: dec get_one_varint_frame_def)
qed (simp_all add: enc wire put_one_varint_frame_def)

lemma two_varint_codec:
  assumes enc: "\<And>buf cap x. enc buf cap x = put_two_varint_frame buf cap type (a x) (b x)"
    and dec: "\<And>buf n. dec buf n = do { (ab, off) \<leftarrow> get_two_varint_frame buf n; Some (F ab, off) }"
    and type: "unat type < 64" and F: "\<And>x. F (a x, b x) = x"
    and wire: "\<And>x. wire x = ucast type # varint_wire (a x) @ varint_wire (b x)"
    and ok: "\<And>x. ok x \<longleftrightarrow> a x \<le> QUIC_VARINT_MAX \<and> b x \<le> QUIC_VARINT_MAX"
  shows "wire_codec enc dec wire (\<lambda>_. True) ok"
proof (rule wire_codecI)
  fix x cap
  show "puts (\<lambda>buf off. put_seq (put_at buf cap off type) (\<lambda>buf off.
      put_seq (put_at buf cap off (a x)) (\<lambda>buf off. put_at buf cap off (b x)))) cap (ok x) (wire x)"
    unfolding put_at_def wire ok by (rule puts_type[OF type puts_seq[OF puts_varint puts_varint]])
next
  fix x assume x: "ok x"
  then have v: "takes quic_varint_take (varint_wire (a x)) (a x)" "takes quic_varint_take (varint_wire (b x)) (b x)"
    by (simp_all add: takes_varint ok)
  have "takes (\<lambda>buf n off. do { (a, off) \<leftarrow> quic_varint_take buf n off;
      (b, off) \<leftarrow> quic_varint_take buf n off; Some (F (a, b), off) }) (varint_wire (a x) @ varint_wire (b x)) x"
    by (rule takes_bind[OF v(1)], rule takes_eqI[OF takes_last[OF v(2)]]) (simp_all add: F)
  then show "gets dec (wire x) x"
    unfolding wire
    by (rule getsI) (auto simp: dec get_two_varint_frame_def get_one_varint_frame_def split: Option.bind_splits)
qed (simp_all add: enc wire put_two_eq)

lemmas flow_codec_defs = flow_consts quic_max_data_encode_def quic_max_data_decode_def
  quic_data_blocked_encode_def quic_data_blocked_decode_def quic_max_stream_data_encode_def
  quic_max_stream_data_decode_def quic_stream_data_blocked_encode_def quic_stream_data_blocked_decode_def
  quic_max_streams_encode_def quic_max_streams_decode_def quic_streams_blocked_encode_def
  quic_streams_blocked_decode_def streams_type_def

interpretation max_data: wire_codec quic_max_data_encode quic_max_data_decode
    max_data_wire "\<lambda>_. True" data_ok
  by (rule one_varint_codec[where type = "\<lambda>_. QUIC_FRAME_MAX_DATA" and val = df_value and F = "\<lambda>_ v. \<lparr>df_value = v\<rparr>"])
    (simp_all add: flow_codec_defs max_data_wire_def data_ok_def)

interpretation data_blocked: wire_codec quic_data_blocked_encode quic_data_blocked_decode
    data_blocked_wire "\<lambda>_. True" data_ok
  by (rule one_varint_codec[where type = "\<lambda>_. QUIC_FRAME_DATA_BLOCKED" and val = df_value and F = "\<lambda>_ v. \<lparr>df_value = v\<rparr>"])
    (simp_all add: flow_codec_defs data_blocked_wire_def data_ok_def)

interpretation max_stream_data: wire_codec quic_max_stream_data_encode quic_max_stream_data_decode
    max_stream_data_wire "\<lambda>_. True" stream_data_ok
  by (rule two_varint_codec[where type = QUIC_FRAME_MAX_STREAM_DATA and a = sd_stream_id and b = sd_value
        and F = "\<lambda>ab. \<lparr>sd_stream_id = fst ab, sd_value = snd ab\<rparr>"])
    (simp_all add: flow_codec_defs max_stream_data_wire_def stream_data_ok_def)

interpretation stream_data_blocked: wire_codec quic_stream_data_blocked_encode quic_stream_data_blocked_decode
    stream_data_blocked_wire "\<lambda>_. True" stream_data_ok
  by (rule two_varint_codec[where type = QUIC_FRAME_STREAM_DATA_BLOCKED and a = sd_stream_id and b = sd_value
        and F = "\<lambda>ab. \<lparr>sd_stream_id = fst ab, sd_value = snd ab\<rparr>"])
    (simp_all add: flow_codec_defs stream_data_blocked_wire_def stream_data_ok_def)

interpretation max_streams: wire_codec quic_max_streams_encode quic_max_streams_decode
    max_streams_wire streams_wf streams_ok
  by (rule one_varint_codec[where type = "\<lambda>f. streams_type QUIC_FRAME_MAX_STREAMS_BIDI (ms_uni f)"
        and val = ms_max_streams and F = "\<lambda>t v. \<lparr>ms_max_streams = v, ms_uni = uint (t AND 1)\<rparr>"])
    (auto simp: flow_codec_defs max_streams_wire_def streams_wf_def streams_ok_def Let_def)

interpretation streams_blocked: wire_codec quic_streams_blocked_encode quic_streams_blocked_decode
    streams_blocked_wire streams_wf streams_ok
  by (rule one_varint_codec[where type = "\<lambda>f. streams_type QUIC_FRAME_STREAMS_BLOCKED_BIDI (ms_uni f)"
        and val = ms_max_streams and F = "\<lambda>t v. \<lparr>ms_max_streams = v, ms_uni = uint (t AND 1)\<rparr>"])
    (auto simp: flow_codec_defs streams_blocked_wire_def streams_wf_def streams_ok_def Let_def)

text \<open>RESET\_STREAM, STOP\_SENDING, NEW\_TOKEN, RETIRE\_CONNECTION\_ID.\<close>

lemma puts_reset_stream:
  "puts (\<lambda>buf off. put_seq (put_rs_head buf cap off f) (\<lambda>buf off. put_rs_tail buf cap off f)) cap
     (reset_stream_ok f) (reset_stream_wire f)"
  unfolding put_rs_head_def put_rs_tail_def put_seq_assoc
  by (rule puts_eqI, rule puts_type, simp add: QUIC_FRAME_RESET_STREAM_def,
      rule puts_seq[OF puts_varint puts_seq[OF puts_varint puts_varint]])
    (auto simp: QUIC_FRAME_RESET_STREAM_def reset_stream_ok_def reset_stream_wire_def)

lemma gets_reset_stream:
  assumes "reset_stream_ok f"
  shows "gets quic_reset_stream_decode (reset_stream_wire f) f"
proof -
  have h: "takes take_rs_head (varint_wire (rs_stream_id f) @ varint_wire (rs_error_code f))
      (rs_stream_id f, rs_error_code f)"
    unfolding take_rs_head_def
    by (intro takes_bind[OF takes_varint] takes_last[OF takes_varint]) (use assms in \<open>auto simp: reset_stream_ok_def\<close>)
  have "takes (\<lambda>buf n off. do { (h, off) \<leftarrow> take_rs_head buf n off;
          (fs, off) \<leftarrow> quic_varint_take buf n off;
          Some (\<lparr>rs_stream_id = fst h, rs_error_code = snd h, rs_final_size = fs\<rparr>, off) })
       ((varint_wire (rs_stream_id f) @ varint_wire (rs_error_code f)) @ varint_wire (rs_final_size f)) f"
    by (rule takes_bind[OF h], rule takes_eqI, rule takes_last, rule takes_varint)
      (use assms in \<open>auto simp: reset_stream_ok_def\<close>)
  then show ?thesis
    unfolding reset_stream_wire_def append_assoc by (rule getsI) (simp add: quic_reset_stream_decode_def)
qed

interpretation reset_stream: wire_codec quic_reset_stream_encode quic_reset_stream_decode
    reset_stream_wire "\<lambda>_. True" reset_stream_ok
  by (rule wire_codecI[OF puts_reset_stream _ gets_reset_stream])
    (simp_all add: quic_reset_stream_encode_def reset_stream_wire_def)

lemma puts_stop_sending:
  "puts (\<lambda>buf off. put_seq (put_ss_head buf cap off f) (\<lambda>buf off. quic_varint_put buf cap off (ss_error_code f)))
     cap (stop_sending_ok f) (stop_sending_wire f)"
  unfolding put_ss_head_def put_seq_assoc
  by (rule puts_eqI, rule puts_type, simp add: QUIC_FRAME_STOP_SENDING_def, rule puts_seq[OF puts_varint puts_varint])
    (auto simp: QUIC_FRAME_STOP_SENDING_def stop_sending_ok_def stop_sending_wire_def)

lemma gets_stop_sending:
  assumes "stop_sending_ok f"
  shows "gets quic_stop_sending_decode (stop_sending_wire f) f"
proof -
  have v: "takes quic_varint_take (varint_wire (ss_stream_id f)) (ss_stream_id f)"
    "takes quic_varint_take (varint_wire (ss_error_code f)) (ss_error_code f)"
    using assms by (simp_all add: takes_varint stop_sending_ok_def)
  have "takes (\<lambda>buf n off. do { (sid, off) \<leftarrow> quic_varint_take buf n off;
          (code, off) \<leftarrow> quic_varint_take buf n off;
          Some (\<lparr>ss_stream_id = sid, ss_error_code = code\<rparr>, off) })
       (varint_wire (ss_stream_id f) @ varint_wire (ss_error_code f)) f"
    by (rule takes_bind[OF v(1)], rule takes_eqI[OF takes_last[OF v(2)]]) simp_all
  then show ?thesis
    unfolding stop_sending_wire_def by (rule getsI) (simp add: quic_stop_sending_decode_def)
qed

interpretation stop_sending: wire_codec quic_stop_sending_encode quic_stop_sending_decode
    stop_sending_wire "\<lambda>_. True" stop_sending_ok
  by (rule wire_codecI[OF puts_stop_sending _ gets_stop_sending])
    (simp_all add: quic_stop_sending_encode_def stop_sending_wire_def)

lemma puts_new_token:
  assumes "new_token_wf f"
  shows "puts (\<lambda>buf off. put_seq (put_new_token_head buf cap off (nt_length f)) (\<lambda>buf off.
       quic_put_bytes buf cap off (nt_token f) (unat (nt_length f)))) cap (new_token_ok f) (new_token_wire f)"
  unfolding put_new_token_head_def put_seq_assoc
  by (rule puts_eqI, rule puts_type, simp add: QUIC_FRAME_NEW_TOKEN_def, rule puts_len_view)
    (use assms in \<open>auto simp: QUIC_FRAME_NEW_TOKEN_def new_token_ok_def new_token_wire_def new_token_wf_def\<close>)

lemma takes_token_view:
  "length src = unat len \<Longrightarrow> takes (\<lambda>buf n off. take_token_view buf n off len) src src"
  using takes_bytes[of src] by (simp add: take_token_view_def quic_take_bytes_def)

lemma gets_new_token:
  assumes "new_token_wf f" "new_token_ok f"
  shows "gets quic_new_token_decode (new_token_wire f) f"
proof -
  have v: "takes quic_varint_take (varint_wire (nt_length f)) (nt_length f)"
    using assms by (simp add: takes_varint new_token_ok_def)
  have "takes (\<lambda>buf n off. do { (len, off) \<leftarrow> quic_varint_take buf n off;
          (token, off) \<leftarrow> take_token_view buf n off len;
          Some (\<lparr>nt_length = len, nt_token = token\<rparr>, off) }) (varint_wire (nt_length f) @ nt_token f) f"
    by (rule takes_bind[OF v], rule takes_eqI, rule takes_last, rule takes_token_view)
      (use assms in \<open>auto simp: new_token_wf_def\<close>)
  then show ?thesis
    unfolding new_token_wire_def by (rule getsI) (simp add: quic_new_token_decode_def)
qed

interpretation new_token: wire_codec quic_new_token_encode quic_new_token_decode
    new_token_wire new_token_wf new_token_ok
  by (rule wire_codecI[OF puts_new_token _ gets_new_token])
    (simp_all add: quic_new_token_encode_def new_token_wire_def)

interpretation retire_cid: wire_codec quic_retire_cid_encode quic_retire_cid_decode
    retire_cid_wire "\<lambda>_. True" "\<lambda>seq. seq \<le> QUIC_VARINT_MAX"
  by (rule one_varint_codec[where type = "\<lambda>_. QUIC_FRAME_RETIRE_CID" and val = "\<lambda>x. x" and F = "\<lambda>_ v. v"])
    (simp_all add: quic_retire_cid_encode_def quic_retire_cid_decode_def retire_cid_wire_def
      QUIC_FRAME_RETIRE_CID_def put_one_varint_frame_def put_at_def get_one_varint_frame_def)

text \<open>NEW\_CONNECTION\_ID: the encoder also checks the frame, the decoder only the CID length.\<close>

definition ncid_wire :: "quic_ncid_frame \<Rightarrow> bytes" where
  "ncid_wire f = 0x18 # varint_wire (nc_seq f) @ varint_wire (nc_retire_prior_to f) @
     nc_cid_len f # nc_cid f @ nc_token f"

definition ncid_wf :: "quic_ncid_frame \<Rightarrow> bool" where
  "ncid_wf f \<longleftrightarrow> length (nc_cid f) = unat (nc_cid_len f) \<and> length (nc_token f) = 16"

definition ncid_ok :: "quic_ncid_frame \<Rightarrow> bool" where
  "ncid_ok f \<longleftrightarrow> unat (nc_cid_len f) \<le> 20 \<and> nc_retire_prior_to f \<le> nc_seq f \<and> nc_seq f \<le> QUIC_VARINT_MAX"

lemma puts_ncid:
  assumes "ncid_wf f"
  shows "puts (\<lambda>buf off. if \<not> ncid_valid f then (False, buf, off) else put_ncid buf cap off f) cap
    (ncid_ok f) (ncid_wire f)"
proof (cases "ncid_valid f")
  case True
  have c: "puts (\<lambda>buf off. quic_put_bytes buf cap off (nc_cid f) (unat (nc_cid_len f))) cap True (nc_cid f)"
    using puts_bytes[of "unat (nc_cid_len f)" "nc_cid f" cap] assms unat_u8_less[of "nc_cid_len f"]
    by (simp add: ncid_wf_def)
  have t: "puts (\<lambda>buf off. quic_put_bytes buf cap off (nc_token f) QUIC_NCID_TOKEN) cap True (nc_token f)"
    using puts_bytes[of 16 "nc_token f" cap] assms by (simp add: ncid_wf_def QUIC_NCID_TOKEN_def)
  have b: "puts (\<lambda>buf off. put_ncid_body buf cap off f) cap True (nc_cid_len f # nc_cid f @ nc_token f)"
    unfolding put_ncid_body_def using puts_byte[OF puts_seq[OF c t]] by simp
  have "puts (\<lambda>buf off. put_ncid buf cap off f) cap (ncid_ok f) (ncid_wire f)"
    unfolding put_ncid_def put_ncid_head_def put_seq_assoc
    by (rule puts_eqI, rule puts_type, simp add: QUIC_FRAME_NEW_CID_def,
        rule puts_seq[OF puts_varint puts_seq[OF puts_varint b]])
      (use True in \<open>auto simp: QUIC_FRAME_NEW_CID_def ncid_ok_def ncid_wire_def ncid_valid_def
         QUIC_NCID_MAX_LEN_def word_le_nat_alt\<close>)
  then show ?thesis using True by simp
next
  case False
  then have "\<not> ncid_ok f" by (auto simp: ncid_valid_def ncid_ok_def QUIC_NCID_MAX_LEN_def word_le_nat_alt)
  with False show ?thesis by (simp add: puts_def)
qed

lemma gets_ncid:
  assumes "ncid_wf f" "ncid_ok f"
  shows "gets quic_ncid_decode (ncid_wire f) f"
proof -
  have ok: "nc_seq f \<le> QUIC_VARINT_MAX" "nc_retire_prior_to f \<le> QUIC_VARINT_MAX" "unat (nc_cid_len f) \<le> 20"
    using assms(2) by (auto simp: ncid_ok_def)
  have h: "takes take_ncid_head (varint_wire (nc_seq f) @ varint_wire (nc_retire_prior_to f))
      (nc_seq f, nc_retire_prior_to f)"
    unfolding take_ncid_head_def by (intro takes_bind[OF takes_varint] takes_last[OF takes_varint] ok)
  have c: "takes (\<lambda>buf n off. quic_take_bytes buf n off (unat (nc_cid_len f))) (nc_cid f) (nc_cid f)"
    and t: "takes (\<lambda>buf n off. quic_take_bytes buf n off QUIC_NCID_TOKEN) (nc_token f) (nc_token f)"
    using takes_bytes[of "nc_cid f"] takes_bytes[of "nc_token f"] assms(1)
    by (simp_all add: ncid_wf_def QUIC_NCID_TOKEN_def)
  have ct: "takes (\<lambda>buf n off. do { (cid, off) \<leftarrow> quic_take_bytes buf n off (unat (nc_cid_len f));
      (token, off) \<leftarrow> quic_take_bytes buf n off QUIC_NCID_TOKEN; Some ((nc_cid_len f, cid, token), off) })
      (nc_cid f @ nc_token f) (nc_cid_len f, nc_cid f, nc_token f)"
    by (rule takes_bind[OF c takes_last[OF t]])
  have b: "takes take_ncid_body (nc_cid_len f # nc_cid f @ nc_token f) (nc_cid_len f, nc_cid f, nc_token f)"
  proof (rule takesI)
    fix pre rest :: bytes and n
    assume len: "length pre + length (nc_cid_len f # nc_cid f @ nc_token f) \<le> n"
      "n \<le> length pre + length (nc_cid_len f # nc_cid f @ nc_token f) + length rest" "n < 2 ^ 63"
    let ?buf = "pre @ (nc_cid_len f # nc_cid f @ nc_token f) @ rest"
    have "rd ?buf (length pre) = nc_cid_len f" by (simp add: rd_append)
    then have "cid_len_ok ?buf n (length pre)" "rd ?buf (length pre) = nc_cid_len f"
      using len ok(3) by (simp_all add: cid_len_ok_def QUIC_NCID_MAX_LEN_def word_le_nat_alt)
    then show "take_ncid_body ?buf n (length pre) = Some ((nc_cid_len f, nc_cid f, nc_token f),
        length pre + length (nc_cid_len f # nc_cid f @ nc_token f))"
      using takesD[OF ct, of "pre @ [nc_cid_len f]" n rest] len by (simp add: take_ncid_body_def)
  qed
  have "takes (\<lambda>buf n off. do { (h, off) \<leftarrow> take_ncid_head buf n off;
          (b, off) \<leftarrow> take_ncid_body buf n off;
          Some (\<lparr>nc_seq = fst h, nc_retire_prior_to = snd h, nc_cid_len = fst b,
                 nc_cid = fst (snd b), nc_token = snd (snd b)\<rparr>, off) })
       ((varint_wire (nc_seq f) @ varint_wire (nc_retire_prior_to f)) @ nc_cid_len f # nc_cid f @ nc_token f) f"
    by (rule takes_bind[OF h], rule takes_eqI, rule takes_last[OF b]) simp_all
  then show ?thesis
    unfolding ncid_wire_def append_assoc by (rule getsI) (simp add: quic_ncid_decode_def)
qed

interpretation ncid: wire_codec quic_ncid_encode quic_ncid_decode ncid_wire ncid_wf ncid_ok
  by (rule wire_codecI[OF puts_ncid _ gets_ncid])
    (simp_all add: quic_ncid_encode_def ncid_wire_def)

text \<open>PATH\_CHALLENGE and PATH\_RESPONSE: the type is an argument of both sides.\<close>

interpretation path: wire_codec "\<lambda>buf cap. quic_path_encode buf cap type" "\<lambda>buf n. quic_path_decode buf n type"
    "\<lambda>data. type # data" "\<lambda>data. length data = 8" "\<lambda>_. True" for type
proof (rule wire_codecI)
  fix data :: bytes and cap
  assume "length data = 8"
  then have "puts (\<lambda>buf off. quic_put_bytes buf cap off data QUIC_PATH_DATA) cap True data"
    using puts_bytes[of 8 data cap] by (simp add: QUIC_PATH_DATA_def)
  from puts_byte[OF this]
  show "puts (\<lambda>buf off. if off \<ge> cap then (False, buf, off)
      else quic_put_bytes (buf[off := type]) cap (off + 1) data QUIC_PATH_DATA) cap True (type # data)" .
qed (auto simp: quic_path_encode_def quic_path_decode_def gets_def type_is_def quic_take_bytes_def QUIC_PATH_DATA_def)

section \<open>Properties\<close>

text \<open>C10: the STREAM frame codec. For every frame whose data view has the stated length, the
  encoder succeeds exactly when all fields are encodable and the frame fits, it then
  writes only the bytes it reports, and decoding them yields the frame and the same length.\<close>

theorem stream_frame_roundtrip:
  assumes "stream_wf f" "cap \<le> length buf" "length buf < 2 ^ 63" "quic_frame_put_stream buf cap f = (w, buf')"
  shows "(w \<noteq> 0 \<longleftrightarrow> stream_ok f \<and> length (stream_wire f) \<le> cap)
    \<and> (w \<noteq> 0 \<longrightarrow> w \<le> cap \<and> length buf' = length buf \<and> drop w buf' = drop w buf
        \<and> (\<forall>n. w \<le> n \<and> n \<le> length buf \<longrightarrow> quic_frame_get_stream buf' n = Some (f, w)))"
  using stream.enc_succeeds_iff[OF assms(1-3)] stream.roundtrip[OF assms] assms(4) by auto

theorem stream_frame_roundtrip_witness:
  "\<exists>w buf'. quic_frame_put_stream (replicate 16 0) 16
      \<lparr>sf_stream_id = 4, sf_offset = 100, sf_length = 3, sf_data = [1, 2, 3], sf_fin = 1\<rparr> = (w, buf') \<and> w \<noteq> 0 \<and>
    quic_frame_get_stream buf' 16 =
      Some (\<lparr>sf_stream_id = 4, sf_offset = 100, sf_length = 3, sf_data = [1, 2, 3], sf_fin = 1\<rparr>, w)"
proof -
  let ?f = "\<lparr>sf_stream_id = 4, sf_offset = 100, sf_length = 3, sf_data = [1, 2, 3], sf_fin = 1\<rparr>"
  obtain w buf' where e: "quic_frame_put_stream (replicate 16 0) 16 ?f = (w, buf')" by fastforce
  have "stream_ok ?f" "length (stream_wire ?f) \<le> 16"
    by (simp_all add: stream_ok_def QUIC_VARINT_MAX_def stream_wire_def varint_len_unat)
  moreover have "stream_wf ?f" by (simp add: stream_wf_def)
  ultimately show ?thesis using stream_frame_roundtrip[OF _ _ _ e] e by auto
qed

text \<open>the NEW\_CONNECTION\_ID codec. The encoder refuses a frame whose Retire Prior To exceeds
  its sequence number or whose connection ID is longer than 20 bytes, and every frame it
  does encode is decoded back to itself.\<close>

theorem ncid_frame_roundtrip:
  assumes "ncid_wf f" "cap \<le> length buf" "length buf < 2 ^ 63" "quic_ncid_encode buf cap f = (w, buf')"
  shows "(w \<noteq> 0 \<longleftrightarrow> unat (nc_cid_len f) \<le> 20 \<and> nc_retire_prior_to f \<le> nc_seq f
            \<and> nc_seq f \<le> QUIC_VARINT_MAX \<and> length (ncid_wire f) \<le> cap)
    \<and> (w \<noteq> 0 \<longrightarrow> quic_ncid_decode buf' w = Some (f, w) \<and> drop w buf' = drop w buf)"
proof -
  have "w \<noteq> 0 \<Longrightarrow> quic_ncid_decode buf' w = Some (f, w)"
    using ncid.roundtrip(1,4)[OF assms] assms(2) by simp
  then show ?thesis
    using ncid.enc_succeeds_iff[OF assms(1-3)] ncid.roundtrip(3)[OF assms] assms(4)
    by (auto simp: ncid_ok_def)
qed

theorem ncid_frame_roundtrip_witness:
  "\<exists>w buf'. quic_ncid_encode (replicate 32 0) 32
      \<lparr>nc_seq = 2, nc_retire_prior_to = 1, nc_cid_len = 4, nc_cid = [1, 2, 3, 4], nc_token = replicate 16 7\<rparr> = (w, buf') \<and>
    w \<noteq> 0 \<and> quic_ncid_decode buf' w =
      Some (\<lparr>nc_seq = 2, nc_retire_prior_to = 1, nc_cid_len = 4, nc_cid = [1, 2, 3, 4], nc_token = replicate 16 7\<rparr>, w)"
proof -
  let ?f = "\<lparr>nc_seq = 2, nc_retire_prior_to = 1, nc_cid_len = 4, nc_cid = [1, 2, 3, 4], nc_token = replicate 16 7\<rparr>"
  obtain w buf' where e: "quic_ncid_encode (replicate 32 0) 32 ?f = (w, buf')" by fastforce
  have "length (ncid_wire ?f) \<le> 32"
    by (simp add: ncid_wire_def varint_len_unat)
  moreover have "ncid_wf ?f" by (simp add: ncid_wf_def)
  ultimately show ?thesis using ncid_frame_roundtrip[OF _ _ _ e] e by (auto simp: QUIC_VARINT_MAX_def)
qed

end
