(* ===== verification/Ack_Frame.thy ===== *)
theory Ack_Frame
  imports Frames
begin

text \<open>
  The ACK frame: \<^verbatim>\<open>src/transport/packet/frame/frame/ack.c\<close> and ack\_range.c. Ranges of
  acknowledged packet numbers travel as a descending walk of gaps and lengths. The
  lemmas show that the encoder accepts exactly the descending, disjoint and non-adjacent
  range lists, that the decoder inverts it, and that whatever bytes it is given the
  decoder only returns such lists.
\<close>

section \<open>The code\<close>

definition QUIC_FRAME_ACK :: u64 where "QUIC_FRAME_ACK = 0x02"
definition QUIC_FRAME_ACK_ECN :: u64 where "QUIC_FRAME_ACK_ECN = 0x03"
definition QUIC_ACK_MAX_RANGES :: usz where "QUIC_ACK_MAX_RANGES = 32"

lemmas ack_consts = QUIC_FRAME_ACK_def QUIC_FRAME_ACK_ECN_def QUIC_ACK_MAX_RANGES_def

record quic_ack_range =
  ar_hi :: u64
  ar_lo :: u64

text \<open>The fixed array \<^verbatim>\<open>ranges\<close> is represented by the cells that \<^verbatim>\<open>n_ranges\<close> marks as used.\<close>

record quic_ack_frame =
  af_ack_delay :: u64
  af_n_ranges :: usz
  af_ranges :: "quic_ack_range list"
  af_has_ecn :: u8
  af_ect0 :: u64
  af_ect1 :: u64
  af_ce :: u64

definition put_pair :: "bytes \<Rightarrow> usz \<Rightarrow> usz \<Rightarrow> quic_ack_range \<Rightarrow> quic_ack_range \<Rightarrow> put_res" where
  "put_pair buf cap off prev cur =
     put_seq (quic_varint_put buf cap off (ar_lo prev - ar_hi cur - 2)) (\<lambda>buf off.
     quic_varint_put buf cap off (ar_hi cur - ar_lo cur))"

definition ack_type :: "quic_ack_frame \<Rightarrow> u64" where
  "ack_type f = (if af_has_ecn f \<noteq> 0 then QUIC_FRAME_ACK_ECN else QUIC_FRAME_ACK)"

definition put_ack_meta :: "bytes \<Rightarrow> usz \<Rightarrow> usz \<Rightarrow> quic_ack_frame \<Rightarrow> put_res" where
  "put_ack_meta buf cap off f =
     put_seq (quic_varint_put buf cap off (ack_type f)) (\<lambda>buf off.
     put_seq (quic_varint_put buf cap off (ar_hi (af_ranges f ! 0))) (\<lambda>buf off.
     quic_varint_put buf cap off (af_ack_delay f)))"

definition put_three :: "bytes \<Rightarrow> usz \<Rightarrow> usz \<Rightarrow> u64 \<Rightarrow> u64 \<Rightarrow> u64 \<Rightarrow> put_res" where
  "put_three buf cap off a b c =
     put_seq (quic_varint_put buf cap off a) (\<lambda>buf off.
     put_seq (quic_varint_put buf cap off b) (\<lambda>buf off.
     quic_varint_put buf cap off c))"

definition put_ack_ecn :: "bytes \<Rightarrow> usz \<Rightarrow> usz \<Rightarrow> quic_ack_frame \<Rightarrow> put_res" where
  "put_ack_ecn buf cap off f =
     (if af_has_ecn f = 0 then (True, buf, off)
      else put_three buf cap off (af_ect0 f) (af_ect1 f) (af_ce f))"

definition put_ack_head :: "bytes \<Rightarrow> usz \<Rightarrow> usz \<Rightarrow> quic_ack_frame \<Rightarrow> put_res" where
  "put_ack_head buf cap off f =
     (let r0 = af_ranges f ! 0
      in put_seq (put_ack_meta buf cap off f) (\<lambda>buf off.
         put_seq (quic_varint_put buf cap off (of_nat (usz_sub (af_n_ranges f) 1))) (\<lambda>buf off.
         quic_varint_put buf cap off (ar_hi r0 - ar_lo r0))))"

text \<open>One iteration: a failed pair clears \<^verbatim>\<open>ok\<close> and the loop goes on.\<close>

fun put_pair_step :: "usz \<Rightarrow> put_res \<Rightarrow> quic_ack_range \<times> quic_ack_range \<Rightarrow> put_res" where
  "put_pair_step cap (ok, buf, off) (prev, cur) =
     (case put_pair buf cap off prev cur of (ok', buf', off') \<Rightarrow> (ok \<and> ok', buf', off'))"

text \<open>The loop visits \<^verbatim>\<open>(ranges[i - 1], ranges[i])\<close> for i from 1.\<close>

definition put_ack_pairs :: "bytes \<Rightarrow> usz \<Rightarrow> usz \<Rightarrow> quic_ack_frame \<Rightarrow> put_res" where
  "put_ack_pairs buf cap off f =
     (let rs = take (af_n_ranges f) (af_ranges f)
      in foldl (put_pair_step cap) (True, buf, off) (zip rs (tl rs)))"

definition ranges_ok :: "usz \<Rightarrow> bool" where
  "ranges_ok n \<longleftrightarrow> n \<noteq> 0 \<and> n \<le> QUIC_ACK_MAX_RANGES"

definition put_ack_pairs_ecn :: "bytes \<Rightarrow> usz \<Rightarrow> usz \<Rightarrow> quic_ack_frame \<Rightarrow> put_res" where
  "put_ack_pairs_ecn buf cap off f =
     put_seq (put_ack_pairs buf cap off f) (\<lambda>buf off. put_ack_ecn buf cap off f)"

definition put_ack_body :: "bytes \<Rightarrow> usz \<Rightarrow> usz \<Rightarrow> quic_ack_frame \<Rightarrow> put_res" where
  "put_ack_body buf cap off f =
     put_seq (put_ack_head buf cap off f) (\<lambda>buf off. put_ack_pairs_ecn buf cap off f)"

definition quic_ack_encode :: "bytes \<Rightarrow> usz \<Rightarrow> quic_ack_frame \<Rightarrow> usz \<times> bytes" where
  "quic_ack_encode buf cap f =
     (if \<not> ranges_ok (af_n_ranges f) then (0, buf) else put_done (put_ack_body buf cap 0 f))"

definition take_ack_meta :: "bytes \<Rightarrow> usz \<Rightarrow> usz \<Rightarrow> ((u64 \<times> u64 \<times> u64) \<times> usz) option" where
  "take_ack_meta buf n off =
     do { (largest, off) \<leftarrow> quic_varint_take buf n off;
          (delay, off) \<leftarrow> quic_varint_take buf n off;
          (count, off) \<leftarrow> quic_varint_take buf n off;
          Some ((largest, delay, count), off) }"

definition take_first :: "bytes \<Rightarrow> usz \<Rightarrow> usz \<Rightarrow> u64 \<Rightarrow> (u64 \<times> usz) option" where
  "take_first buf n off largest =
     do { (first, off) \<leftarrow> quic_varint_take buf n off;
          if first \<le> largest then Some (first, off) else None }"

text \<open>Returns \<^verbatim>\<open>ranges[0]\<close>, the delay and the count.\<close>

definition take_ack_head ::
    "bytes \<Rightarrow> usz \<Rightarrow> usz \<Rightarrow> ((quic_ack_range \<times> u64 \<times> u64) \<times> usz) option" where
  "take_ack_head buf n off =
     do { (m, off) \<leftarrow> take_ack_meta buf n off;
          (first, off) \<leftarrow> take_first buf n off (fst m);
          Some ((\<lparr>ar_hi = fst m, ar_lo = fst m - first\<rparr>, fst (snd m), snd (snd m)), off) }"

definition pair_fits :: "u64 \<Rightarrow> u64 \<Rightarrow> u64 \<Rightarrow> bool" where
  "pair_fits prev_lo gap len \<longleftrightarrow> prev_lo \<ge> gap + 2 \<and> prev_lo - gap - 2 \<ge> len"

definition take_two :: "bytes \<Rightarrow> usz \<Rightarrow> usz \<Rightarrow> ((u64 \<times> u64) \<times> usz) option" where
  "take_two buf n off =
     do { (a, off) \<leftarrow> quic_varint_take buf n off;
          (b, off) \<leftarrow> quic_varint_take buf n off;
          Some ((a, b), off) }"

text \<open>Appends \<^verbatim>\<open>ranges[i]\<close> to the cells filled so far; \<^verbatim>\<open>ranges[i - 1]\<close> is the last of them.\<close>

definition take_pair ::
    "bytes \<Rightarrow> usz \<Rightarrow> usz \<Rightarrow> quic_ack_range list \<Rightarrow> (quic_ack_range list \<times> usz) option" where
  "take_pair buf n off rs =
     (let prev_lo = ar_lo (last rs)
      in do { (gl, off) \<leftarrow> take_two buf n off;
              if \<not> pair_fits prev_lo (fst gl) (snd gl) then None
              else let hi = prev_lo - fst gl - 2
                   in Some (rs @ [\<lparr>ar_hi = hi, ar_lo = hi - snd gl\<rparr>], off) })"

text \<open>The loop of \<^verbatim>\<open>take_ack_pairs\<close>, \<open>count\<close> times. The code keeps reading after a failed pair,
  but then returns 0 whatever it reads; the model stops there.\<close>

primrec take_ack_pairs ::
    "bytes \<Rightarrow> usz \<Rightarrow> usz \<Rightarrow> quic_ack_range list \<Rightarrow> nat \<Rightarrow> (quic_ack_range list \<times> usz) option" where
  "take_ack_pairs buf n off rs 0 = Some (rs, off)"
| "take_ack_pairs buf n off rs (Suc count) =
     do { (rs, off) \<leftarrow> take_pair buf n off rs; take_ack_pairs buf n off rs count }"

definition count_fits :: "u64 \<Rightarrow> bool" where
  "count_fits count \<longleftrightarrow> count + 1 \<le> of_nat QUIC_ACK_MAX_RANGES"

definition take_ack_prologue ::
    "bytes \<Rightarrow> usz \<Rightarrow> usz \<Rightarrow> ((quic_ack_range \<times> u64 \<times> u64) \<times> usz) option" where
  "take_ack_prologue buf n off =
     do { (h, off) \<leftarrow> take_ack_head buf n off;
          if count_fits (snd (snd h)) then Some (h, off) else None }"

definition take_ack_ecn :: "bytes \<Rightarrow> usz \<Rightarrow> usz \<Rightarrow> bool \<Rightarrow> ((u64 \<times> u64 \<times> u64) \<times> usz) option" where
  "take_ack_ecn buf n off has_ecn =
     (if \<not> has_ecn then Some ((0, 0, 0), off)
      else do { (ab, off) \<leftarrow> take_two buf n off;
                (ce, off) \<leftarrow> quic_varint_take buf n off;
                Some ((fst ab, snd ab, ce), off) })"

definition take_ack_rest ::
    "bytes \<Rightarrow> usz \<Rightarrow> usz \<Rightarrow> bool \<Rightarrow> quic_ack_range \<Rightarrow> u64 \<Rightarrow>
     ((quic_ack_range list \<times> u64 \<times> u64 \<times> u64) \<times> usz) option" where
  "take_ack_rest buf n off has_ecn r0 count =
     do { (rs, off) \<leftarrow> take_ack_pairs buf n off [r0] (unat count);
          (ecn, off) \<leftarrow> take_ack_ecn buf n off has_ecn;
          Some ((rs, ecn), off) }"

definition quic_ack_decode :: "bytes \<Rightarrow> usz \<Rightarrow> (quic_ack_frame \<times> usz) option" where
  "quic_ack_decode buf n =
     (let has_ecn = (ucast (rd buf 0) = QUIC_FRAME_ACK_ECN)
      in do { (h, off) \<leftarrow> take_ack_prologue buf n 1;
              (r, off) \<leftarrow> take_ack_rest buf n off has_ecn (fst h) (snd (snd h));
              Some (\<lparr>af_ack_delay = fst (snd h), af_n_ranges = unat (snd (snd h)) + 1,
                     af_ranges = fst r, af_has_ecn = (if has_ecn then 1 else 0),
                     af_ect0 = fst (snd r), af_ect1 = fst (snd (snd r)), af_ce = snd (snd (snd r))\<rparr>, off) })"

definition quic_ack_range_ok :: "u64 \<Rightarrow> u64 \<Rightarrow> bool" where
  "quic_ack_range_ok largest first_range \<longleftrightarrow> first_range \<le> largest"

definition quic_ack_gap_ok :: "u64 \<Rightarrow> u64 \<Rightarrow> u64 \<Rightarrow> bool" where
  "quic_ack_gap_ok smallest gap range_len =
     (if smallest < gap + 2 then False else smallest - gap - 2 \<ge> range_len)"

section \<open>Descending range lists and their wire form\<close>

fun ack_desc :: "quic_ack_range list \<Rightarrow> bool" where
  "ack_desc [] \<longleftrightarrow> True"
| "ack_desc [r] \<longleftrightarrow> ar_lo r \<le> ar_hi r"
| "ack_desc (p # r # rs) \<longleftrightarrow>
     ar_lo p \<le> ar_hi p \<and> unat (ar_hi r) + 2 \<le> unat (ar_lo p) \<and> ack_desc (r # rs)"

fun pairs_wire :: "quic_ack_range \<Rightarrow> quic_ack_range list \<Rightarrow> bytes" where
  "pairs_wire p [] = []"
| "pairs_wire p (r # rs) =
     varint_wire (ar_lo p - ar_hi r - 2) @ varint_wire (ar_hi r - ar_lo r) @ pairs_wire r rs"

definition ack_wire :: "quic_ack_frame \<Rightarrow> bytes" where
  "ack_wire f =
     (let r0 = hd (af_ranges f) in
      (if af_has_ecn f = 0 then 0x02 else 0x03) # varint_wire (ar_hi r0) @ varint_wire (af_ack_delay f) @
      varint_wire (of_nat (length (af_ranges f) - 1)) @ varint_wire (ar_hi r0 - ar_lo r0) @
      pairs_wire r0 (tl (af_ranges f)) @
      (if af_has_ecn f = 0 then []
       else varint_wire (af_ect0 f) @ varint_wire (af_ect1 f) @ varint_wire (af_ce f)))"

definition pn_range :: "quic_ack_range \<Rightarrow> bool" where
  "pn_range r \<longleftrightarrow> ar_hi r \<le> QUIC_VARINT_MAX \<and> ar_lo r \<le> QUIC_VARINT_MAX"

definition ack_wf :: "quic_ack_frame \<Rightarrow> bool" where
  "ack_wf f \<longleftrightarrow> af_n_ranges f = length (af_ranges f) \<and> list_all pn_range (af_ranges f) \<and>
     (af_has_ecn f = 0 \<and> af_ect0 f = 0 \<and> af_ect1 f = 0 \<and> af_ce f = 0 \<or> af_has_ecn f = 1)"

definition ack_ok :: "quic_ack_frame \<Rightarrow> bool" where
  "ack_ok f \<longleftrightarrow> af_ranges f \<noteq> [] \<and> length (af_ranges f) \<le> 32 \<and> ack_desc (af_ranges f) \<and>
     af_ack_delay f \<le> QUIC_VARINT_MAX \<and> af_ect0 f \<le> QUIC_VARINT_MAX \<and> af_ect1 f \<le> QUIC_VARINT_MAX \<and>
     af_ce f \<le> QUIC_VARINT_MAX"

text \<open>On packet numbers a difference is encodable exactly when it does not wrap.\<close>

lemma diff_varint:
  assumes "a \<le> QUIC_VARINT_MAX" "b \<le> QUIC_VARINT_MAX"
  shows "a - b \<le> QUIC_VARINT_MAX \<longleftrightarrow> b \<le> a"
    and "a - b - 2 \<le> QUIC_VARINT_MAX \<longleftrightarrow> unat b + 2 \<le> unat a"
proof -
  have ab: "unat a < 2 ^ 62" "unat b < 2 ^ 62" using assms by (simp_all add: varint_max_unat)
  show "a - b \<le> QUIC_VARINT_MAX \<longleftrightarrow> b \<le> a"
    unfolding varint_max_unat using ab by (auto simp: unat_sub_if' word_le_nat_alt)
  have "unat (b + 2) = unat b + 2" using ab by (simp add: unat_word_ariths)
  moreover have "a - b - 2 = a - (b + 2)" by simp
  ultimately show "a - b - 2 \<le> QUIC_VARINT_MAX \<longleftrightarrow> unat b + 2 \<le> unat a"
    unfolding varint_max_unat using ab by (auto simp: unat_sub_if')
qed

lemma ack_desc_Cons: "ack_desc (p # rs) \<longleftrightarrow>
    ar_lo p \<le> ar_hi p \<and> (rs \<noteq> [] \<longrightarrow> unat (ar_hi (hd rs)) + 2 \<le> unat (ar_lo p) \<and> ack_desc rs)"
  by (cases rs) auto

lemma put_pair_step_False: "\<not> fst (foldl (put_pair_step cap) (False, b, o') xs)"
  by (induction xs arbitrary: b o') (auto split: prod.splits)

lemma put_pair_step_True: "put_pair_step cap (True, b, o') (p, r) = put_pair b cap o' p r"
  by (simp split: prod.splits)

lemma puts_pairs:
  assumes "list_all pn_range (p # rs)" "ar_lo p \<le> ar_hi p"
  shows "puts (\<lambda>buf off. foldl (put_pair_step cap) (True, buf, off) (zip (p # rs) rs)) cap
           (ack_desc (p # rs)) (pairs_wire p rs)"
  using assms
proof (induction rs arbitrary: p)
  case Nil
  then show ?case using puts_skip[of cap] by simp
next
  case (Cons r rs)
  have pr: "puts (\<lambda>buf off. put_pair buf cap off p r) cap
      (unat (ar_hi r) + 2 \<le> unat (ar_lo p) \<and> ar_lo r \<le> ar_hi r)
      (varint_wire (ar_lo p - ar_hi r - 2) @ varint_wire (ar_hi r - ar_lo r))"
    unfolding put_pair_def
    by (rule puts_eqI[OF puts_seq[OF puts_varint puts_varint]])
      (use Cons.prems in \<open>auto simp: pn_range_def diff_varint\<close>)
  have "puts (\<lambda>buf off. foldl (put_pair_step cap) (put_pair buf cap off p r) (zip (r # rs) rs)) cap
     ((unat (ar_hi r) + 2 \<le> unat (ar_lo p) \<and> ar_lo r \<le> ar_hi r) \<and> ack_desc (r # rs))
     ((varint_wire (ar_lo p - ar_hi r - 2) @ varint_wire (ar_hi r - ar_lo r)) @ pairs_wire r rs)"
    by (rule puts_then[OF pr Cons.IH]) (use Cons.prems put_pair_step_False in auto)
  then show ?case
    by (simp add: put_pair_step_True del: put_pair_step.simps)
      (rule puts_eqI, assumption, auto simp: Cons.prems ack_desc_Cons)
qed

lemma puts_ack:
  assumes "ack_wf f"
  shows "puts (\<lambda>buf off. if \<not> ranges_ok (af_n_ranges f) then (False, buf, off) else put_ack_body buf cap off f)
           cap (ack_ok f) (ack_wire f)"
proof (cases "ranges_ok (af_n_ranges f)")
  case True
  then obtain r0 rs where rs: "af_ranges f = r0 # rs"
    using assms by (cases "af_ranges f") (auto simp: ranges_ok_def ack_wf_def)
  have n: "af_n_ranges f = length (r0 # rs)" "length (r0 # rs) \<le> 32" "list_all pn_range (r0 # rs)"
    using assms True by (auto simp: rs ack_wf_def ranges_ok_def ack_consts)
  have cnt: "of_nat (usz_sub (af_n_ranges f) 1) = (of_nat (length rs) :: u64)"
    "of_nat (length rs) \<le> QUIC_VARINT_MAX"
    using n by (auto simp: varint_max_unat unat_of_nat)
  have t: "unat (ack_type f) < 64" by (simp add: ack_type_def ack_consts)
  have ecn: "puts (\<lambda>buf off. put_ack_ecn buf cap off f) cap
      (if af_has_ecn f = 0 then True
       else af_ect0 f \<le> QUIC_VARINT_MAX \<and> af_ect1 f \<le> QUIC_VARINT_MAX \<and> af_ce f \<le> QUIC_VARINT_MAX)
      (if af_has_ecn f = 0 then []
       else varint_wire (af_ect0 f) @ varint_wire (af_ect1 f) @ varint_wire (af_ce f))"
    unfolding put_ack_ecn_def put_three_def
    by (rule puts_if[OF puts_skip puts_seq[OF puts_varint puts_seq[OF puts_varint puts_varint]]])
  have prs: "puts (\<lambda>buf off. put_ack_pairs buf cap off f) cap (ack_desc (r0 # rs)) (pairs_wire r0 rs)"
    if "ar_lo r0 \<le> ar_hi r0"
    unfolding put_ack_pairs_def Let_def rs n(1) using puts_pairs[OF n(3) that, of cap] by simp
  have r0: "ar_hi r0 \<le> QUIC_VARINT_MAX" "ar_hi r0 - ar_lo r0 \<le> QUIC_VARINT_MAX \<longleftrightarrow> ar_lo r0 \<le> ar_hi r0"
    using n(3) by (auto simp: pn_range_def diff_varint)
  have "puts (\<lambda>buf off. put_ack_body buf cap off f) cap (ack_ok f) (ack_wire f)"
    unfolding put_ack_body_def put_ack_head_def put_ack_meta_def put_ack_pairs_ecn_def Let_def put_seq_assoc rs cnt
    by (rule puts_eqI, rule puts_type[OF t], rule puts_seq[OF puts_varint], rule puts_seq[OF puts_varint],
        rule puts_seq[OF puts_varint], rule puts_seq[OF puts_varint], rule puts_seq[OF prs ecn])
      (use assms r0 cnt n(2) in \<open>auto simp: ack_ok_def rs ack_wf_def ack_wire_def ack_type_def ack_consts ack_desc_Cons\<close>)
  then show ?thesis using True by simp
next
  case False
  then have "\<not> ack_ok f" using assms by (auto simp: ack_ok_def ack_wf_def ranges_ok_def ack_consts)
  with False show ?thesis by (simp add: puts_def)
qed


text \<open>Reading a pair back.\<close>

lemma pair_fits_wire:
  assumes "pn_range p" "pn_range r" "unat (ar_hi r) + 2 \<le> unat (ar_lo p)" "ar_lo r \<le> ar_hi r"
  shows "pair_fits (ar_lo p) (ar_lo p - ar_hi r - 2) (ar_hi r - ar_lo r)"
proof -
  have "ar_lo p - ar_hi r - 2 + 2 = ar_lo p - ar_hi r" "ar_lo p - (ar_lo p - ar_hi r - 2) - 2 = ar_hi r"
    by simp_all
  moreover have "ar_lo p - ar_hi r \<le> ar_lo p" "ar_hi r - ar_lo r \<le> ar_hi r"
    using assms(3,4) by (simp_all add: word_le_nat_alt unat_sub_if')
  ultimately show ?thesis by (simp add: pair_fits_def)
qed

lemma takes_pairs:
  assumes "list_all pn_range (p # rs)" "ack_desc (p # rs)"
  shows "takes (\<lambda>buf n off. take_ack_pairs buf n off (pre @ [p]) (length rs)) (pairs_wire p rs) (pre @ p # rs)"
  using assms
proof (induction rs arbitrary: p pre)
  case Nil
  then show ?case by (simp add: takes_return)
next
  case (Cons r rs)
  have v: "ar_lo p - ar_hi r - 2 \<le> QUIC_VARINT_MAX" "ar_hi r - ar_lo r \<le> QUIC_VARINT_MAX"
    and fits: "pair_fits (ar_lo p) (ar_lo p - ar_hi r - 2) (ar_hi r - ar_lo r)"
    using Cons.prems by (auto simp: pn_range_def diff_varint ack_desc_Cons intro!: pair_fits_wire)
  have two: "takes take_two (varint_wire (ar_lo p - ar_hi r - 2) @ varint_wire (ar_hi r - ar_lo r))
      (ar_lo p - ar_hi r - 2, ar_hi r - ar_lo r)"
    unfolding take_two_def by (intro takes_bind[OF takes_varint] takes_last[OF takes_varint] v)
  have one: "takes (\<lambda>buf n off. take_pair buf n off (pre @ [p]))
      ((varint_wire (ar_lo p - ar_hi r - 2) @ varint_wire (ar_hi r - ar_lo r)) @ []) (pre @ [p, r])"
    unfolding take_pair_def Let_def by (rule takes_bind[OF two]) (use fits in \<open>simp add: takes_eqI[OF takes_return]\<close>)
  have "takes (\<lambda>buf n off. take_ack_pairs buf n off ((pre @ [p]) @ [r]) (length rs)) (pairs_wire r rs)
      ((pre @ [p]) @ r # rs)"
    using Cons.prems by (intro Cons.IH) (auto simp: ack_desc_Cons)
  then have "takes (\<lambda>buf n off. do { (rs', off) \<leftarrow> take_pair buf n off (pre @ [p]);
      take_ack_pairs buf n off rs' (length rs) })
      ((varint_wire (ar_lo p - ar_hi r - 2) @ varint_wire (ar_hi r - ar_lo r)) @ pairs_wire r rs)
      ((pre @ [p]) @ r # rs)"
    using takes_bind[OF one] by simp
  then show ?case by simp
qed

lemma gets_ack:
  assumes "ack_wf f" "ack_ok f"
  shows "gets quic_ack_decode (ack_wire f) f"
proof -
  obtain r0 rs where rs: "af_ranges f = r0 # rs" using assms(2) by (cases "af_ranges f") (auto simp: ack_ok_def)
  let ?cnt = "of_nat (length rs) :: u64"
  have n: "af_n_ranges f = Suc (length rs)" "length rs \<le> 31" "list_all pn_range (r0 # rs)" "ack_desc (r0 # rs)"
    using assms by (auto simp: rs ack_wf_def ack_ok_def)
  have cnt: "?cnt \<le> QUIC_VARINT_MAX" "unat ?cnt = length rs" "count_fits ?cnt"
    unfolding varint_max_unat count_fits_def word_le_nat_alt
    using n(2) by (auto simp: unat_of_nat ack_consts unat_word_ariths QUIC_VARINT_MAX_def)
  have r0: "ar_hi r0 \<le> QUIC_VARINT_MAX" "ar_hi r0 - ar_lo r0 \<le> QUIC_VARINT_MAX" "ar_hi r0 - ar_lo r0 \<le> ar_hi r0"
    using n(3,4) by (auto simp: pn_range_def diff_varint ack_desc_Cons word_le_nat_alt unat_sub_if')
  have delay: "af_ack_delay f \<le> QUIC_VARINT_MAX" using assms(2) by (simp add: ack_ok_def)
  have m: "takes take_ack_meta (varint_wire (ar_hi r0) @ varint_wire (af_ack_delay f) @ varint_wire ?cnt)
      (ar_hi r0, af_ack_delay f, ?cnt)"
    unfolding take_ack_meta_def
    by (intro takes_bind[OF takes_varint] takes_last[OF takes_varint] r0 delay cnt)
  have fst: "takes (\<lambda>buf n off. take_first buf n off (ar_hi r0)) (varint_wire (ar_hi r0 - ar_lo r0) @ []) (ar_hi r0 - ar_lo r0)"
    unfolding take_first_def by (rule takes_bind[OF takes_varint[OF r0(2)]]) (simp add: r0(3) takes_return)
  have h: "takes take_ack_head ((varint_wire (ar_hi r0) @ varint_wire (af_ack_delay f) @ varint_wire ?cnt) @
      varint_wire (ar_hi r0 - ar_lo r0) @ []) (r0, af_ack_delay f, ?cnt)"
    unfolding take_ack_head_def by (rule takes_bind[OF m], rule takes_eqI, rule takes_last, simp, rule fst) simp_all
  have pro: "takes take_ack_prologue (((varint_wire (ar_hi r0) @ varint_wire (af_ack_delay f) @ varint_wire ?cnt) @
      varint_wire (ar_hi r0 - ar_lo r0) @ []) @ []) (r0, af_ack_delay f, ?cnt)"
    unfolding take_ack_prologue_def by (rule takes_bind[OF h]) (simp add: cnt takes_return)
  let ?ecn = "if af_has_ecn f = 0 then []
       else varint_wire (af_ect0 f) @ varint_wire (af_ect1 f) @ varint_wire (af_ce f)"
  have ecn: "takes (\<lambda>buf n off. take_ack_ecn buf n off (af_has_ecn f \<noteq> 0)) ?ecn (af_ect0 f, af_ect1 f, af_ce f)"
  proof (cases "af_has_ecn f = 0")
    case True
    then show ?thesis using assms(1) takes_return[of "(0, 0, 0)"] by (auto simp: take_ack_ecn_def ack_wf_def)
  next
    case False
    have e: "af_ect0 f \<le> QUIC_VARINT_MAX" "af_ect1 f \<le> QUIC_VARINT_MAX" "af_ce f \<le> QUIC_VARINT_MAX"
      using assms(2) by (auto simp: ack_ok_def)
    have two: "takes take_two (varint_wire (af_ect0 f) @ varint_wire (af_ect1 f)) (af_ect0 f, af_ect1 f)"
      unfolding take_two_def by (intro takes_bind[OF takes_varint] takes_last[OF takes_varint] e)
    have "takes (\<lambda>buf n off. do { (ab, off) \<leftarrow> take_two buf n off; (ce, off) \<leftarrow> quic_varint_take buf n off;
        Some ((fst ab, snd ab, ce), off) }) ((varint_wire (af_ect0 f) @ varint_wire (af_ect1 f)) @ varint_wire (af_ce f))
        (af_ect0 f, af_ect1 f, af_ce f)"
      by (rule takes_bind[OF two], rule takes_eqI[OF takes_last[OF takes_varint[OF e(3)]]]) simp_all
    then show ?thesis using False by (simp add: take_ack_ecn_def)
  qed
  have rest: "takes (\<lambda>buf n off. take_ack_rest buf n off (af_has_ecn f \<noteq> 0) r0 ?cnt) (pairs_wire r0 rs @ ?ecn)
      (r0 # rs, af_ect0 f, af_ect1 f, af_ce f)"
    unfolding take_ack_rest_def cnt
    by (rule takes_bind, rule takes_pairs[OF n(3,4), of "[]", simplified append_Nil],
        rule takes_eqI[OF takes_last[OF ecn]]) simp_all
  have "takes (\<lambda>buf n off. do { (h, off) \<leftarrow> take_ack_prologue buf n off;
              (r, off) \<leftarrow> take_ack_rest buf n off (af_has_ecn f \<noteq> 0) (fst h) (snd (snd h));
              Some (\<lparr>af_ack_delay = fst (snd h), af_n_ranges = unat (snd (snd h)) + 1,
                     af_ranges = fst r, af_has_ecn = (if af_has_ecn f \<noteq> 0 then 1 else 0),
                     af_ect0 = fst (snd r), af_ect1 = fst (snd (snd r)), af_ce = snd (snd (snd r))\<rparr>, off) })
     ((((varint_wire (ar_hi r0) @ varint_wire (af_ack_delay f) @ varint_wire ?cnt) @
      varint_wire (ar_hi r0 - ar_lo r0) @ []) @ []) @ pairs_wire r0 rs @ ?ecn) f"
    by (rule takes_bind[OF pro], rule takes_eqI, rule takes_last, simp, rule rest)
      (use assms(1) cnt n(1) in \<open>auto simp: rs ack_wf_def\<close>)
  then show ?thesis
    unfolding ack_wire_def Let_def rs append_assoc append_Nil append_Nil2 list.sel length_Cons diff_Suc_1
    by (rule getsI) (simp add: quic_ack_decode_def Let_def ack_consts)
qed

interpretation ack: wire_codec quic_ack_encode quic_ack_decode ack_wire ack_wf ack_ok
  by (rule wire_codecI[OF puts_ack _ gets_ack]) (simp_all add: quic_ack_encode_def ack_wire_def Let_def)

section \<open>Any input\<close>

lemma ack_desc_snoc:
  "rs \<noteq> [] \<Longrightarrow> ack_desc (rs @ [r]) \<longleftrightarrow>
   ack_desc rs \<and> ar_lo r \<le> ar_hi r \<and> unat (ar_hi r) + 2 \<le> unat (ar_lo (last rs))"
proof (induction rs rule: ack_desc.induct)
  case (3 p q rs)
  then show ?case by auto
qed auto

definition ack_ranges_inv :: "quic_ack_range list \<Rightarrow> bool" where
  "ack_ranges_inv rs \<longleftrightarrow> rs \<noteq> [] \<and> ack_desc rs \<and> list_all pn_range rs"

lemma pair_fits_inv:
  assumes "ack_ranges_inv rs" "pair_fits (ar_lo (last rs)) gap len" "gap \<le> QUIC_VARINT_MAX"
  shows "ack_ranges_inv (rs @ [\<lparr>ar_hi = ar_lo (last rs) - gap - 2, ar_lo = ar_lo (last rs) - gap - 2 - len\<rparr>])"
proof -
  define lo where "lo = ar_lo (last rs)"
  have "pn_range (last rs)" using assms(1) by (simp add: ack_ranges_inv_def list_all_iff)
  then have lo: "unat lo < 2 ^ 62" "unat gap < 2 ^ 62" using assms(3) by (simp_all add: pn_range_def varint_max_unat lo_def)
  then have g2: "unat (gap + 2) = unat gap + 2" by (simp add: unat_word_ariths)
  have eq: "lo - gap - 2 = lo - (gap + 2)" by simp
  have f: "unat gap + 2 \<le> unat lo" "len \<le> lo - gap - 2"
    using assms(2) g2 by (simp_all add: pair_fits_def lo_def word_le_nat_alt)
  then have hi: "unat (lo - gap - 2) = unat lo - (unat gap + 2)"
    unfolding eq by (simp add: unat_sub_if' g2)
  have low: "lo - gap - 2 - len \<le> lo - gap - 2"
    using f(2) by (simp add: word_le_nat_alt unat_sub_if')
  have "lo - gap - 2 \<le> QUIC_VARINT_MAX" using hi lo by (simp add: varint_max_unat)
  with low have "pn_range \<lparr>ar_hi = lo - gap - 2, ar_lo = lo - gap - 2 - len\<rparr>"
    by (simp add: pn_range_def)
  then show ?thesis
    using assms(1) low hi f(1) unfolding lo_def[symmetric] ack_ranges_inv_def
    by (simp add: ack_desc_snoc lo_def[symmetric])
qed

lemma reads_within_two: "reads_within take_two (\<lambda>(a, b). a \<le> QUIC_VARINT_MAX \<and> b \<le> QUIC_VARINT_MAX)"
  unfolding take_two_def by (intro reads_within_intros) simp

lemma reads_within_pair:
  assumes "ack_ranges_inv rs"
  shows "reads_within (\<lambda>buf n off. take_pair buf n off rs) (\<lambda>rs'. ack_ranges_inv rs' \<and> length rs' = Suc (length rs))"
  unfolding take_pair_def Let_def
  by (intro reads_within_bind[OF reads_within_two] reads_within_intros)
    (use pair_fits_inv[OF assms] in auto)

lemma reads_within_pairs:
  assumes "ack_ranges_inv rs"
  shows "reads_within (\<lambda>buf n off. take_ack_pairs buf n off rs count)
    (\<lambda>rs'. ack_ranges_inv rs' \<and> length rs' = length rs + count)"
  using assms
proof (induction count arbitrary: rs)
  case 0
  then show ?case by (simp add: reads_within_return)
next
  case (Suc count)
  have "reads_within (\<lambda>buf n off. do { (rs, off) \<leftarrow> take_pair buf n off rs; take_ack_pairs buf n off rs count })
      (\<lambda>rs'. ack_ranges_inv rs' \<and> length rs' = length rs + Suc count)"
  proof (rule reads_within_bind[OF reads_within_pair[OF Suc.prems]])
    fix rs1 assume "ack_ranges_inv rs1 \<and> length rs1 = Suc (length rs)"
    then show "reads_within (\<lambda>buf n off. take_ack_pairs buf n off rs1 count)
        (\<lambda>rs'. ack_ranges_inv rs' \<and> length rs' = length rs + Suc count)"
      using Suc.IH[of rs1] by simp
  qed
  then show ?case by simp
qed

definition head_inv :: "quic_ack_range \<times> u64 \<times> u64 \<Rightarrow> bool" where
  "head_inv h \<longleftrightarrow> ack_ranges_inv [fst h] \<and> fst (snd h) \<le> QUIC_VARINT_MAX \<and> unat (snd (snd h)) \<le> 31"

lemma reads_within_prologue: "reads_within take_ack_prologue head_inv"
proof -
  have meta: "reads_within take_ack_meta
      (\<lambda>(l, d, c). l \<le> QUIC_VARINT_MAX \<and> d \<le> QUIC_VARINT_MAX \<and> c \<le> QUIC_VARINT_MAX)"
    unfolding take_ack_meta_def by (intro reads_within_intros) simp
  have first: "reads_within (\<lambda>buf n off. take_first buf n off l) (\<lambda>x. x \<le> l)" for l
    unfolding take_first_def by (intro reads_within_intros)
  have head: "reads_within take_ack_head
      (\<lambda>h. ack_ranges_inv [fst h] \<and> fst (snd h) \<le> QUIC_VARINT_MAX \<and> snd (snd h) \<le> QUIC_VARINT_MAX)"
    unfolding take_ack_head_def
  proof (intro reads_within_bind[OF meta] reads_within_bind[OF first] reads_within_return)
    fix m x :: u64 and m' assume "case m' of (l, d, c) \<Rightarrow> l \<le> QUIC_VARINT_MAX \<and> d \<le> QUIC_VARINT_MAX \<and> c \<le> QUIC_VARINT_MAX"
      "x \<le> fst m'"
    then show "ack_ranges_inv [fst (\<lparr>ar_hi = fst m', ar_lo = fst m' - x\<rparr>, fst (snd m'), snd (snd m'))] \<and>
        fst (snd (\<lparr>ar_hi = fst m', ar_lo = fst m' - x\<rparr>, fst (snd m'), snd (snd m'))) \<le> QUIC_VARINT_MAX \<and>
        snd (snd (\<lparr>ar_hi = fst m', ar_lo = fst m' - x\<rparr>, fst (snd m'), snd (snd m'))) \<le> QUIC_VARINT_MAX"
      by (auto simp: ack_ranges_inv_def pn_range_def word_le_nat_alt unat_sub_if' split: prod.splits)
  qed
  show ?thesis unfolding take_ack_prologue_def
  proof (intro reads_within_bind[OF head] reads_within_if reads_within_return reads_within_fail)
    fix h :: "quic_ack_range \<times> u64 \<times> u64"
    assume h: "ack_ranges_inv [fst h] \<and> fst (snd h) \<le> QUIC_VARINT_MAX \<and> snd (snd h) \<le> QUIC_VARINT_MAX"
      and c: "count_fits (snd (snd h))"
    have "unat (snd (snd h)) < 2 ^ 62" using h by (simp add: varint_max_unat)
    then show "head_inv h"
      using h c by (auto simp: head_inv_def count_fits_def ack_consts word_le_nat_alt unat_word_ariths)
  qed
qed

lemma reads_within_ecn: "reads_within (\<lambda>buf n off. take_ack_ecn buf n off e) (\<lambda>_. True)"
  unfolding take_ack_ecn_def by (intro reads_within_intros reads_within_bind[OF reads_within_two]) simp_all

lemma ack_decode_sound:
  assumes "quic_ack_decode buf n = Some (f, used)" "0 < n" "n < 2 ^ 63"
  shows "ack_desc (af_ranges f)" "af_n_ranges f = length (af_ranges f)" "0 < af_n_ranges f"
    "af_n_ranges f \<le> QUIC_ACK_MAX_RANGES" "list_all pn_range (af_ranges f)" "0 < used" "used \<le> n"
proof -
  obtain h off1 rs ecn off2 where 1: "take_ack_prologue buf n 1 = Some (h, off1)"
    and 2: "take_ack_pairs buf n off1 [fst h] (unat (snd (snd h))) = Some (rs, off2)"
    and 3: "take_ack_ecn buf n off2 (ucast (rd buf 0) = QUIC_FRAME_ACK_ECN) = Some (ecn, used)"
    and f: "af_ranges f = rs" "af_n_ranges f = unat (snd (snd h)) + 1"
    using assms(1) by (auto simp: quic_ack_decode_def take_ack_rest_def Let_def split: Option.bind_splits)
  note P = reads_withinD[OF reads_within_prologue 1 _ assms(3)]
  have h: "head_inv h" "1 \<le> off1" "off1 \<le> n" using P assms(2) by auto
  note R = reads_withinD[OF reads_within_pairs 2 h(3) assms(3)]
  have rs: "ack_ranges_inv rs" "length rs = Suc (unat (snd (snd h)))" "off1 \<le> off2" "off2 \<le> n"
    using R h(1) by (auto simp: head_inv_def)
  note E = reads_withinD[OF reads_within_ecn 3 rs(4) assms(3)]
  show "ack_desc (af_ranges f)" "af_n_ranges f = length (af_ranges f)" "0 < af_n_ranges f"
    "af_n_ranges f \<le> QUIC_ACK_MAX_RANGES" "list_all pn_range (af_ranges f)"
    using rs h(1) by (auto simp: f ack_ranges_inv_def head_inv_def ack_consts)
  show "0 < used" "used \<le> n" using E rs h by linarith+
qed

section \<open>Properties\<close>

text \<open>C2: the ACK frame codec. For ranges of packet numbers the encoder succeeds exactly when
  there are 1 to 32 ranges that descend without touching, the other fields are encodable
  and the frame fits; what it wrote is decoded to the same frame.\<close>

theorem ack_frame_roundtrip:
  assumes "ack_wf f" "cap \<le> length buf" "length buf < 2 ^ 63" "quic_ack_encode buf cap f = (w, buf')"
  shows "(w \<noteq> 0 \<longleftrightarrow> ack_ok f \<and> length (ack_wire f) \<le> cap)
    \<and> (w \<noteq> 0 \<longrightarrow> w \<le> cap \<and> drop w buf' = drop w buf
        \<and> (\<forall>n. w \<le> n \<and> n \<le> length buf \<longrightarrow> quic_ack_decode buf' n = Some (f, w)))"
  using ack.enc_succeeds_iff[OF assms(1-3)] ack.roundtrip[OF assms] assms(4) by auto

definition ack_example :: quic_ack_frame where
  "ack_example = \<lparr>af_ack_delay = 5, af_n_ranges = 2, af_ranges = [\<lparr>ar_hi = 20, ar_lo = 18\<rparr>, \<lparr>ar_hi = 10, ar_lo = 4\<rparr>],
     af_has_ecn = 0, af_ect0 = 0, af_ect1 = 0, af_ce = 0\<rparr>"

lemma ack_example:
  "ack_wf ack_example" "ack_ok ack_example" "ack_wire ack_example = [0x02, 0x14, 0x05, 0x01, 0x02, 0x06, 0x06]"
  by (simp_all add: ack_example_def ack_wf_def ack_ok_def pn_range_def QUIC_VARINT_MAX_def ack_wire_def Let_def
      varint_wire_small)

theorem ack_frame_roundtrip_witness:
  "\<exists>w buf'. quic_ack_encode (replicate 16 0) 16 ack_example = (w, buf') \<and> w \<noteq> 0 \<and>
     quic_ack_decode buf' 16 = Some (ack_example, w)"
proof -
  obtain w buf' where e: "quic_ack_encode (replicate 16 0) 16 ack_example = (w, buf')" by fastforce
  show ?thesis using ack_frame_roundtrip[OF ack_example(1) _ _ e] e ack_example(2,3) by auto
qed

text \<open>C8: whatever bytes arrive, an ACK frame the decoder accepts has between 1 and 32 ranges of
  packet numbers that descend strictly with a gap between any two of them, and it ends
  within the bytes that were readable.\<close>

theorem ack_decode_any_input:
  assumes "quic_ack_decode buf n = Some (f, w)" "0 < n" "n < 2 ^ 63"
  shows "ack_desc (af_ranges f) \<and> af_n_ranges f = length (af_ranges f) \<and> 0 < af_n_ranges f \<and>
    af_n_ranges f \<le> QUIC_ACK_MAX_RANGES \<and> list_all pn_range (af_ranges f) \<and> 0 < w \<and> w \<le> n"
  using ack_decode_sound[OF assms] by auto

theorem ack_decode_any_input_witness:
  "quic_ack_decode [0x02, 0x14, 0x05, 0x01, 0x02, 0x06, 0x06] 7 = Some (ack_example, 7) \<and> ack_desc (af_ranges ack_example)"
proof -
  have "quic_ack_decode [0x02, 0x14, 0x05, 0x01, 0x02, 0x06, 0x06] 7 = Some (ack_example, 7)"
    using ack.dec_wire[OF ack_example(1,2), of 7 "[]"] ack_example(3) by simp
  with ack_decode_any_input[OF this] show ?thesis by simp
qed

end
