(* ===== verification/Frame_Dispatch.thy ===== *)
theory Frame_Dispatch
  imports Ack_Frame "HOL-Library.Sublist"
begin

text \<open>
  Classification of frame types (\<^verbatim>\<open>frame/dispatch.c\<close>), the permission table of RFC 9000,
  table 3 (\<^verbatim>\<open>frame/permit.c\<close>), the small checks of crypto\_offset.c, stream\_bounds.c,
  ncid\_check.c and close\_convert.c, and the walk over a decrypted payload
  (\<^verbatim>\<open>pipeline/framewalk.c\<close>). The walk is shown to terminate within the payload on any
  bytes, and to visit exactly the leading frames of the kinds it measures on a payload of encoded frames.
  The table of permit.c gives CONNECTION\_CLOSE one entry for its two types.
\<close>

section \<open>dispatch.c\<close>

datatype quic_frame_kind =
    QUIC_FK_UNKNOWN | QUIC_FK_PADDING | QUIC_FK_PING | QUIC_FK_ACK | QUIC_FK_RESET_STREAM
  | QUIC_FK_STOP_SENDING | QUIC_FK_CRYPTO | QUIC_FK_NEW_TOKEN | QUIC_FK_STREAM | QUIC_FK_MAX_DATA
  | QUIC_FK_MAX_STREAM_DATA | QUIC_FK_MAX_STREAMS | QUIC_FK_DATA_BLOCKED | QUIC_FK_STREAM_DATA_BLOCKED
  | QUIC_FK_STREAMS_BLOCKED | QUIC_FK_NEW_CONNECTION_ID | QUIC_FK_RETIRE_CONNECTION_ID
  | QUIC_FK_PATH_CHALLENGE | QUIC_FK_PATH_RESPONSE | QUIC_FK_CONNECTION_CLOSE | QUIC_FK_HANDSHAKE_DONE
  | QUIC_FK_DATAGRAM

definition TABLE :: "(u64 \<times> quic_frame_kind) list" where
  "TABLE =
    [(0x00, QUIC_FK_PADDING),
     (0x01, QUIC_FK_PING),
     (0x02, QUIC_FK_ACK),
     (0x03, QUIC_FK_ACK),
     (0x04, QUIC_FK_RESET_STREAM),
     (0x05, QUIC_FK_STOP_SENDING),
     (0x06, QUIC_FK_CRYPTO),
     (0x07, QUIC_FK_NEW_TOKEN),
     (0x08, QUIC_FK_STREAM),
     (0x09, QUIC_FK_STREAM),
     (0x0a, QUIC_FK_STREAM),
     (0x0b, QUIC_FK_STREAM),
     (0x0c, QUIC_FK_STREAM),
     (0x0d, QUIC_FK_STREAM),
     (0x0e, QUIC_FK_STREAM),
     (0x0f, QUIC_FK_STREAM),
     (0x10, QUIC_FK_MAX_DATA),
     (0x11, QUIC_FK_MAX_STREAM_DATA),
     (0x12, QUIC_FK_MAX_STREAMS),
     (0x13, QUIC_FK_MAX_STREAMS),
     (0x14, QUIC_FK_DATA_BLOCKED),
     (0x15, QUIC_FK_STREAM_DATA_BLOCKED),
     (0x16, QUIC_FK_STREAMS_BLOCKED),
     (0x17, QUIC_FK_STREAMS_BLOCKED),
     (0x18, QUIC_FK_NEW_CONNECTION_ID),
     (0x19, QUIC_FK_RETIRE_CONNECTION_ID),
     (0x1a, QUIC_FK_PATH_CHALLENGE),
     (0x1b, QUIC_FK_PATH_RESPONSE),
     (0x1c, QUIC_FK_CONNECTION_CLOSE),
     (0x1d, QUIC_FK_CONNECTION_CLOSE),
     (0x1e, QUIC_FK_HANDSHAKE_DONE),
     (0x30, QUIC_FK_DATAGRAM),
     (0x31, QUIC_FK_DATAGRAM)]"

definition quic_frame_classify :: "u64 \<Rightarrow> quic_frame_kind" where
  "quic_frame_classify type =
     (case find (\<lambda>r. fst r = type) TABLE of Some r \<Rightarrow> snd r | None \<Rightarrow> QUIC_FK_UNKNOWN)"

definition non_eliciting :: "quic_frame_kind \<Rightarrow> bool" where
  "non_eliciting k \<longleftrightarrow> k = QUIC_FK_PADDING \<or> k = QUIC_FK_ACK \<or> k = QUIC_FK_CONNECTION_CLOSE"

definition quic_frame_ack_eliciting :: "quic_frame_kind \<Rightarrow> bool" where
  "quic_frame_ack_eliciting kind = (if kind = QUIC_FK_UNKNOWN then False else \<not> non_eliciting kind)"

section \<open>permit.c and the frame checks\<close>

datatype quic_packet_type = QUIC_PKT_INITIAL | QUIC_PKT_HANDSHAKE | QUIC_PKT_0RTT | QUIC_PKT_1RTT

fun pkt_index :: "quic_packet_type \<Rightarrow> nat" where
  "pkt_index QUIC_PKT_INITIAL = 0"
| "pkt_index QUIC_PKT_HANDSHAKE = 1"
| "pkt_index QUIC_PKT_0RTT = 2"
| "pkt_index QUIC_PKT_1RTT = 3"

definition PI :: u8 where "PI = 0x1"
definition PH :: u8 where "PH = 0x2"
definition PZ :: u8 where "PZ = 0x4"
definition PO :: u8 where "PO = 0x8"

fun allowed :: "quic_frame_kind \<Rightarrow> u8" where
  "allowed QUIC_FK_UNKNOWN = 0"
| "allowed QUIC_FK_PADDING = PI OR PH OR PZ OR PO"
| "allowed QUIC_FK_PING = PI OR PH OR PZ OR PO"
| "allowed QUIC_FK_ACK = PI OR PH OR PO"
| "allowed QUIC_FK_RESET_STREAM = PZ OR PO"
| "allowed QUIC_FK_STOP_SENDING = PZ OR PO"
| "allowed QUIC_FK_CRYPTO = PI OR PH OR PO"
| "allowed QUIC_FK_NEW_TOKEN = PO"
| "allowed QUIC_FK_STREAM = PZ OR PO"
| "allowed QUIC_FK_MAX_DATA = PZ OR PO"
| "allowed QUIC_FK_MAX_STREAM_DATA = PZ OR PO"
| "allowed QUIC_FK_MAX_STREAMS = PZ OR PO"
| "allowed QUIC_FK_DATA_BLOCKED = PZ OR PO"
| "allowed QUIC_FK_STREAM_DATA_BLOCKED = PZ OR PO"
| "allowed QUIC_FK_STREAMS_BLOCKED = PZ OR PO"
| "allowed QUIC_FK_NEW_CONNECTION_ID = PZ OR PO"
| "allowed QUIC_FK_RETIRE_CONNECTION_ID = PZ OR PO"
| "allowed QUIC_FK_PATH_CHALLENGE = PZ OR PO"
| "allowed QUIC_FK_PATH_RESPONSE = PO"
| "allowed QUIC_FK_CONNECTION_CLOSE = PI OR PH OR PZ OR PO"
| "allowed QUIC_FK_HANDSHAKE_DONE = PO"
| "allowed QUIC_FK_DATAGRAM = PZ OR PO"

definition quic_frame_permitted :: "quic_frame_kind \<Rightarrow> quic_packet_type \<Rightarrow> bool" where
  "quic_frame_permitted kind pkt \<longleftrightarrow> drop_bit (pkt_index pkt) (allowed kind) AND 1 \<noteq> 0"

definition quic_frame_is_grease :: "u64 \<Rightarrow> bool" where
  "quic_frame_is_grease type = (if type < 0x21 then False else (type - 0x21) mod 0x1f = 0)"

definition quic_crypto_offset_ok :: "u64 \<Rightarrow> u64 \<Rightarrow> u64 \<Rightarrow> bool" where
  "quic_crypto_offset_ok offset len max_offset =
     (if offset + len < offset then False else offset + len \<le> max_offset)"

definition quic_crypto_contiguous :: "u64 \<Rightarrow> u64 \<Rightarrow> bool" where
  "quic_crypto_contiguous received_upto new_offset \<longleftrightarrow> new_offset \<le> received_upto"

definition QUIC_MAX_OFFSET :: u64 where
  "QUIC_MAX_OFFSET = push_bit 62 1"

definition quic_stream_bounds_ok :: "u64 \<Rightarrow> u64 \<Rightarrow> bool" where
  "quic_stream_bounds_ok offset len =
     (let limit = QUIC_MAX_OFFSET - 1 in if offset > limit then False else len \<le> limit - offset)"

definition ncid_check_cid_len_ok :: "u8 \<Rightarrow> bool" where
  "ncid_check_cid_len_ok cid_len \<longleftrightarrow> cid_len \<ge> 1 \<and> cid_len \<le> 20"

definition quic_ncid_check :: "u64 \<Rightarrow> u64 \<Rightarrow> u8 \<Rightarrow> bool" where
  "quic_ncid_check seq retire_prior_to cid_len \<longleftrightarrow> retire_prior_to \<le> seq \<and> ncid_check_cid_len_ok cid_len"

definition quic_close_needs_convert :: "bool \<Rightarrow> bool \<Rightarrow> bool" where
  "quic_close_needs_convert is_app_close in_handshake \<longleftrightarrow> is_app_close \<and> in_handshake"

section \<open>framewalk.c\<close>

record quic_framewalk =
  fw_cur :: bytes
  fw_remaining :: usz

definition quic_framewalk_init :: "bytes \<Rightarrow> usz \<Rightarrow> quic_framewalk" where
  "quic_framewalk_init frames len = \<lparr>fw_cur = frames, fw_remaining = len\<rparr>"

text \<open>The bytes a decoder consumed, 0 when it failed.\<close>

definition used :: "('a \<times> usz) option \<Rightarrow> usz" where
  "used r = (case r of None \<Rightarrow> 0 | Some (_, u) \<Rightarrow> u)"

definition body_len :: "quic_frame_kind \<Rightarrow> bytes \<Rightarrow> usz \<Rightarrow> usz" where
  "body_len kind buf n =
     (if kind = QUIC_FK_CRYPTO then used (quic_frame_get_crypto buf n)
      else if kind = QUIC_FK_STREAM then used (quic_frame_get_stream buf n)
      else used (quic_frame_get_conn_close buf n))"

definition single_byte :: "quic_frame_kind \<Rightarrow> bool" where
  "single_byte kind \<longleftrightarrow> kind = QUIC_FK_PADDING \<or> kind = QUIC_FK_PING \<or> kind = QUIC_FK_HANDSHAKE_DONE"

definition has_body :: "quic_frame_kind \<Rightarrow> bool" where
  "has_body kind \<longleftrightarrow> kind = QUIC_FK_CRYPTO \<or> kind = QUIC_FK_STREAM \<or> kind = QUIC_FK_CONNECTION_CLOSE"

definition ack_len :: "bytes \<Rightarrow> usz \<Rightarrow> usz" where
  "ack_len buf n = used (quic_ack_decode buf n)"

definition decoded_len :: "quic_frame_kind \<Rightarrow> bytes \<Rightarrow> usz \<Rightarrow> usz" where
  "decoded_len kind buf n =
     (if kind = QUIC_FK_ACK then ack_len buf n
      else if has_body kind then body_len kind buf n
      else 0)"

definition frame_len :: "u64 \<Rightarrow> bytes \<Rightarrow> usz \<Rightarrow> usz" where
  "frame_len type buf n =
     (let kind = quic_frame_classify type
      in if single_byte kind then 1 else decoded_len kind buf n)"

text \<open>\<^verbatim>\<open>measure\<close>: the type read and the length, or 0.\<close>

definition measure_frame :: "quic_framewalk \<Rightarrow> u64 \<times> usz" where
  "measure_frame it =
     (case quic_varint_decode (fw_cur it) (fw_remaining it) of
        None \<Rightarrow> (0, 0)
      | Some (type, _) \<Rightarrow>
          let len = frame_len type (fw_cur it) (fw_remaining it)
          in (type, if len > fw_remaining it then 0 else len))"

text \<open>On success: the type, the frame's start, the bytes left from it on, and the moved walker.
  The length is at most the bytes left, so that the subtraction is exact.\<close>

definition quic_framewalk_next :: "quic_framewalk \<Rightarrow> ((u64 \<times> bytes \<times> usz) \<times> quic_framewalk) option" where
  "quic_framewalk_next it =
     (if fw_remaining it = 0 then None
      else case measure_frame it of (type, len) \<Rightarrow>
        if len = 0 then None
        else Some ((type, fw_cur it, fw_remaining it),
                   \<lparr>fw_cur = drop len (fw_cur it), fw_remaining = fw_remaining it - len\<rparr>))"

lemma framewalk_next_less:
  assumes "quic_framewalk_next it = Some (x, it')"
  shows "fw_remaining it' < fw_remaining it"
  using assms by (auto simp: quic_framewalk_next_def measure_frame_def Let_def
      split: if_splits prod.splits option.splits)

text \<open>The loop \<^verbatim>\<open>while (quic_framewalk_next(&it, &type, &frame, &rem))\<close> of connio.c and
  collect.c: what its body is called with, in order, and where the walk stops.\<close>

function framewalk_all :: "quic_framewalk \<Rightarrow> (u64 \<times> bytes \<times> usz) list \<times> quic_framewalk" where
  "framewalk_all it =
     (case quic_framewalk_next it of
        None \<Rightarrow> ([], it)
      | Some (x, it') \<Rightarrow> (case framewalk_all it' of (xs, e) \<Rightarrow> (x # xs, e)))"
  by pat_completeness auto
termination
  by (relation "Wellfounded.measure fw_remaining") (auto dest: framewalk_next_less)

declare framewalk_all.simps [simp del]

section \<open>The frames of a payload\<close>

datatype wframe = W_PADDING | W_PING | W_HANDSHAKE_DONE | W_CRYPTO quic_crypto_frame
  | W_STREAM quic_stream_frame | W_CLOSE quic_conn_close_frame | W_ACK quic_ack_frame

fun fwire :: "wframe \<Rightarrow> bytes" where
  "fwire W_PADDING = [0x00]"
| "fwire W_PING = [0x01]"
| "fwire W_HANDSHAKE_DONE = [0x1e]"
| "fwire (W_CRYPTO f) = crypto_wire f"
| "fwire (W_STREAM f) = stream_wire f"
| "fwire (W_CLOSE f) = conn_close_wire f"
| "fwire (W_ACK f) = ack_wire f"

fun wframe_ok :: "wframe \<Rightarrow> bool" where
  "wframe_ok (W_CRYPTO f) \<longleftrightarrow> crypto_wf f \<and> crypto_ok f"
| "wframe_ok (W_STREAM f) \<longleftrightarrow> stream_wf f \<and> stream_ok f"
| "wframe_ok (W_CLOSE f) \<longleftrightarrow> conn_close_wf f \<and> conn_close_ok f"
| "wframe_ok (W_ACK f) \<longleftrightarrow> ack_wf f \<and> ack_ok f"
| "wframe_ok _ \<longleftrightarrow> True"

fun wkind :: "wframe \<Rightarrow> quic_frame_kind" where
  "wkind W_PADDING = QUIC_FK_PADDING"
| "wkind W_PING = QUIC_FK_PING"
| "wkind W_HANDSHAKE_DONE = QUIC_FK_HANDSHAKE_DONE"
| "wkind (W_CRYPTO f) = QUIC_FK_CRYPTO"
| "wkind (W_STREAM f) = QUIC_FK_STREAM"
| "wkind (W_CLOSE f) = QUIC_FK_CONNECTION_CLOSE"
| "wkind (W_ACK f) = QUIC_FK_ACK"

text \<open>What the loop body of a walk over encoded frames, followed by the bytes \<open>tail\<close>, sees: for each
  frame its type, the payload from there on, and its length.\<close>

fun walk_from :: "wframe list \<Rightarrow> bytes \<Rightarrow> (u64 \<times> bytes \<times> usz) list" where
  "walk_from [] tail = []"
| "walk_from (f # fs) tail =
     (let rest = fwire f @ concat (map fwire fs) @ tail
      in (ucast (hd (fwire f)), rest, length rest) # walk_from fs tail)"

abbreviation walk_spec :: "wframe list \<Rightarrow> (u64 \<times> bytes \<times> usz) list" where
  "walk_spec fs \<equiv> walk_from fs []"

text \<open>The frame types of RFC 9000, section 19, whose frames the walk can measure: PADDING, PING, ACK, CRYPTO,
  STREAM, CONNECTION\_CLOSE and HANDSHAKE\_DONE.\<close>

definition walkable_types :: "u64 set" where
  "walkable_types = {0x00, 0x01, 0x02, 0x03, 0x06, 0x08, 0x09, 0x0a, 0x0b, 0x0c, 0x0d, 0x0e, 0x0f, 0x1c, 0x1d, 0x1e}"

text \<open>The bytes start with the type of a frame that the walk cannot measure.\<close>

definition unwalkable :: "bytes \<Rightarrow> bool" where
  "unwalkable bs \<longleftrightarrow> (case quic_varint_decode bs (length bs) of Some (t, _) \<Rightarrow> t \<notin> walkable_types | None \<Rightarrow> False)"

lemma decode_type_byte:
  assumes "0 < n" "n \<le> length (b # bs)" "unat b < 64"
  shows "quic_varint_decode (b # bs) n = Some (ucast b, 1)"
proof -
  have "ucast (ucast b :: u64) = b" by (intro bit_word_eqI) (auto simp: bit_simps)
  then have "varint_wire (ucast b) = [b]"
    using assms(3) by (simp add: varint_wire_small unsigned_ucast_eq take_bit_eq_mod)
  moreover have "quic_varint_len (ucast b) = 1"
    using assms(3) by (simp add: varint_len_unat unsigned_ucast_eq take_bit_eq_mod)
  moreover have "(ucast b :: u64) \<le> QUIC_VARINT_MAX"
    using assms(3) by (intro small_le_varint_max) (simp add: unsigned_ucast_eq take_bit_eq_mod)
  ultimately show ?thesis
    using varint_decode_wire[of "ucast b" n bs] assms(1,2) by simp
qed

lemma classify_simps:
  "quic_frame_classify 0 = QUIC_FK_PADDING" "quic_frame_classify 1 = QUIC_FK_PING"
  "quic_frame_classify 2 = QUIC_FK_ACK" "quic_frame_classify 3 = QUIC_FK_ACK"
  "quic_frame_classify 6 = QUIC_FK_CRYPTO"
  "quic_frame_classify 0x0A = QUIC_FK_STREAM" "quic_frame_classify 0x0B = QUIC_FK_STREAM"
  "quic_frame_classify 0x0E = QUIC_FK_STREAM" "quic_frame_classify 0x0F = QUIC_FK_STREAM"
  "quic_frame_classify 0x1C = QUIC_FK_CONNECTION_CLOSE" "quic_frame_classify 0x1D = QUIC_FK_CONNECTION_CLOSE"
  "quic_frame_classify 0x1E = QUIC_FK_HANDSHAKE_DONE"
  by (simp_all add: quic_frame_classify_def TABLE_def)

lemma fwire_type:
  assumes "wframe_ok f"
  shows "fwire f \<noteq> []" "unat (hd (fwire f)) < 64" "quic_frame_classify (ucast (hd (fwire f))) = wkind f"
proof -
  show "fwire f \<noteq> []"
    by (cases f) (simp_all add: crypto_wire_def stream_wire_def conn_close_wire_def ack_wire_def Let_def)
  have "unat (hd (fwire f)) < 64 \<and> quic_frame_classify (ucast (hd (fwire f))) = wkind f"
    using assms by (cases f)
      (auto simp: crypto_wire_def stream_wire_def conn_close_wire_def ack_wire_def Let_def
        stream_wf_def conn_close_wf_def classify_simps)
  then show "unat (hd (fwire f)) < 64" "quic_frame_classify (ucast (hd (fwire f))) = wkind f" by auto
qed

lemma frame_len_wire:
  assumes "wframe_ok f" "length (fwire f @ rest) < 2 ^ 63"
  shows "frame_len (ucast (hd (fwire f))) (fwire f @ rest) (length (fwire f @ rest)) = length (fwire f)"
proof -
  have c: "frame_len (ucast (hd (fwire f))) buf n =
      (if single_byte (wkind f) then 1 else decoded_len (wkind f) buf n)" for buf n
    using fwire_type[OF assms(1)] by (simp add: frame_len_def)
  note len = assms(2)
  show ?thesis
  proof (cases f)
    case (W_CRYPTO g)
    then show ?thesis using assms crypto.dec_wire[of g "length (fwire f @ rest)" rest]
      unfolding c by (simp add: single_byte_def decoded_len_def has_body_def body_len_def used_def)
  next
    case (W_STREAM g)
    then show ?thesis using assms stream.dec_wire[of g "length (fwire f @ rest)" rest]
      unfolding c by (simp add: single_byte_def decoded_len_def has_body_def body_len_def used_def)
  next
    case (W_CLOSE g)
    then show ?thesis using assms conn_close.dec_wire[of g "length (fwire f @ rest)" rest]
      unfolding c by (simp add: single_byte_def decoded_len_def has_body_def body_len_def used_def)
  next
    case (W_ACK g)
    then show ?thesis using assms ack.dec_wire[of g "length (fwire f @ rest)" rest]
      unfolding c by (simp add: single_byte_def decoded_len_def ack_len_def used_def)
  qed (use c in \<open>simp_all add: single_byte_def\<close>)
qed

lemma framewalk_next_wire:
  assumes "wframe_ok f" "length (fwire f @ rest) < 2 ^ 63"
  shows "quic_framewalk_next \<lparr>fw_cur = fwire f @ rest, fw_remaining = length (fwire f @ rest)\<rparr> =
    Some ((ucast (hd (fwire f)), fwire f @ rest, length (fwire f @ rest)),
          \<lparr>fw_cur = rest, fw_remaining = length rest\<rparr>)"
proof -
  obtain b bs where w: "fwire f = b # bs" using fwire_type(1)[OF assms(1)] by (cases "fwire f") auto
  have d: "quic_varint_decode (fwire f @ rest) (length (fwire f @ rest)) = Some (ucast b, 1)"
    using fwire_type(2)[OF assms(1)] decode_type_byte[of "length (fwire f @ rest)" b "bs @ rest"] by (simp add: w)
  show ?thesis
    using frame_len_wire[OF assms] d
    by (simp add: quic_framewalk_next_def measure_frame_def w)
qed

lemma frame_len_unwalkable:
  assumes "t \<notin> walkable_types"
  shows "frame_len t buf n = 0"
  using assms
  by (auto simp: walkable_types_def frame_len_def decoded_len_def single_byte_def has_body_def quic_frame_classify_def TABLE_def Let_def)

lemma framewalk_stops:
  assumes "tail = [] \<or> unwalkable tail"
  shows "framewalk_all \<lparr>fw_cur = tail, fw_remaining = length tail\<rparr> = ([], \<lparr>fw_cur = tail, fw_remaining = length tail\<rparr>)"
  using assms
  by (subst framewalk_all.simps)
    (auto simp: quic_framewalk_next_def measure_frame_def unwalkable_def frame_len_unwalkable split: option.splits)

lemma framewalk_all_wire:
  assumes "list_all wframe_ok fs" "length (concat (map fwire fs) @ tail) < 2 ^ 63" "tail = [] \<or> unwalkable tail"
  shows "framewalk_all \<lparr>fw_cur = concat (map fwire fs) @ tail, fw_remaining = length (concat (map fwire fs) @ tail)\<rparr> =
    (walk_from fs tail, \<lparr>fw_cur = tail, fw_remaining = length tail\<rparr>)"
  using assms
proof (induction fs)
  case Nil
  then show ?case using framewalk_stops[of tail] by simp
next
  case (Cons f fs)
  have "framewalk_all \<lparr>fw_cur = concat (map fwire fs) @ tail, fw_remaining = length (concat (map fwire fs) @ tail)\<rparr> =
    (walk_from fs tail, \<lparr>fw_cur = tail, fw_remaining = length tail\<rparr>)"
    using Cons.prems by (intro Cons.IH) auto
  then show ?case
    using framewalk_next_wire[of f "concat (map fwire fs) @ tail"] Cons.prems
    by (subst framewalk_all.simps) (simp add: Let_def)
qed

text \<open>On any payload the walk stays inside it: each frame it reports starts at a suffix.\<close>

lemma framewalk_next_suffix:
  assumes "quic_framewalk_next it = Some ((t, fs, rem), it')"
  shows "fs = fw_cur it" "rem = fw_remaining it" "0 < rem"
    "\<exists>k. 0 < k \<and> k \<le> rem \<and> fw_cur it' = drop k (fw_cur it) \<and> fw_remaining it' = rem - k"
  using assms by (auto simp: quic_framewalk_next_def measure_frame_def Let_def
      split: if_splits prod.splits option.splits)

lemma framewalk_all_suffix:
  assumes "framewalk_all it = (xs, e)"
  shows "list_all (\<lambda>(t, fs, rem). 0 < rem \<and> rem \<le> fw_remaining it \<and> fs = drop (fw_remaining it - rem) (fw_cur it)) xs
    \<and> sorted_wrt (\<lambda>(t, fs, rem) (t', fs', rem'). rem' < rem) xs"
  using assms
proof (induction it arbitrary: xs rule: framewalk_all.induct)
  case (1 it)
  show ?case
  proof (cases "quic_framewalk_next it")
    case None
    then show ?thesis using "1.prems" by (subst (asm) framewalk_all.simps) simp
  next
    case (Some r)
    obtain t fs rem it' where r: "r = ((t, fs, rem), it')" by (cases r) auto
    obtain ys where ys: "framewalk_all it' = (ys, e)" "xs = (t, fs, rem) # ys"
      using "1.prems" Some r by (subst (asm) framewalk_all.simps) (auto split: prod.splits)
    note n = framewalk_next_suffix[OF Some[unfolded r]]
    obtain k where k: "0 < k" "k \<le> rem" "fw_cur it' = drop k (fw_cur it)" "fw_remaining it' = rem - k"
      using n(4) by auto
    have IH: "list_all (\<lambda>(t, fs, rm). 0 < rm \<and> rm \<le> rem - k \<and> fs = drop (rem - k - rm) (drop k (fw_cur it))) ys"
      "sorted_wrt (\<lambda>(t, fs, rem) (t', fs', rem'). rem' < rem) ys"
      using "1.IH"[OF Some r[symmetric] ys(1)] k by simp_all
    have "list_all (\<lambda>(t, fs, rm). 0 < rm \<and> rm < rem \<and> fs = drop (rem - rm) (fw_cur it)) ys"
      using IH(1) k(1,2) by (auto simp: list_all_iff drop_drop)
    then show ?thesis using IH(2) n by (auto simp: ys(2) list_all_iff)
  qed
qed

section \<open>Properties\<close>

text \<open>C1: a payload of encoded PADDING, PING, HANDSHAKE\_DONE, CRYPTO, STREAM, CONNECTION\_CLOSE and ACK
  frames, optionally followed by a frame of any other type: the walk visits exactly these frames, in order
  and at their positions, and stops at the frame of another type (MAX\_DATA, NEW\_TOKEN, an unknown type,
  ...), or at the end of the payload when none follows.\<close>

theorem framewalk_visits_encoded_frames:
  assumes "list_all wframe_ok fs" "length (concat (map fwire fs) @ tail) < 2 ^ 63" "tail = [] \<or> unwalkable tail"
  shows "framewalk_all (quic_framewalk_init (concat (map fwire fs) @ tail) (length (concat (map fwire fs) @ tail))) =
    (walk_from fs tail, \<lparr>fw_cur = tail, fw_remaining = length tail\<rparr>)"
  unfolding quic_framewalk_init_def by (rule framewalk_all_wire[OF assms])

theorem framewalk_visits_witness:
  "framewalk_all (quic_framewalk_init [0x01, 0x06, 0x00, 0x02, 0xAA, 0xBB, 0x10, 0x05, 0x01] 9) =
     ([(1, [0x01, 0x06, 0x00, 0x02, 0xAA, 0xBB, 0x10, 0x05, 0x01], 9), (6, [0x06, 0x00, 0x02, 0xAA, 0xBB, 0x10, 0x05, 0x01], 8)],
      \<lparr>fw_cur = [0x10, 0x05, 0x01], fw_remaining = 3\<rparr>)"
proof -
  let ?fs = "[W_PING, W_CRYPTO \<lparr>cr_offset = 0, cr_length = 2, cr_data = [0xAA, 0xBB]\<rparr>]" and ?tail = "[0x10, 0x05, 0x01 :: u8]"
  have w: "concat (map fwire ?fs) @ ?tail = [0x01, 0x06, 0x00, 0x02, 0xAA, 0xBB, 0x10, 0x05, 0x01]"
    by (simp add: crypto_wire_def varint_wire_small)
  have n: "length [0x01, 0x06, 0x00, 0x02, 0xAA, 0xBB, 0x10, 0x05, 0x01 :: u8] = 9" by simp
  have "list_all wframe_ok ?fs"
    by (simp add: crypto_wf_def crypto_ok_def QUIC_VARINT_MAX_def)
  moreover have "length (concat (map fwire ?fs) @ ?tail) < 2 ^ 63" unfolding w n by simp
  moreover have "unwalkable ?tail"
    using decode_type_byte[of "length ?tail" "0x10" "[0x05, 0x01]"] by (simp add: unwalkable_def walkable_types_def)
  ultimately have "framewalk_all (quic_framewalk_init (concat (map fwire ?fs) @ ?tail) (length (concat (map fwire ?fs) @ ?tail))) =
      (walk_from ?fs ?tail, \<lparr>fw_cur = ?tail, fw_remaining = length ?tail\<rparr>)"
    by (intro framewalk_visits_encoded_frames) simp_all
  then show ?thesis
    unfolding w n by (simp add: crypto_wire_def varint_wire_small)
qed

text \<open>C9: on any payload whatever, the frame walk terminates and stays inside it: every frame
  it reports starts at a suffix of the payload with exactly the reported bytes left, and
  each report is strictly further on than the one before.\<close>

theorem framewalk_stays_inside:
  assumes "framewalk_all (quic_framewalk_init payload (length payload)) = (xs, e)"
  shows "list_all (\<lambda>(t, fs, rem). 0 < rem \<and> rem = length fs \<and> suffix fs payload) xs
    \<and> sorted_wrt (\<lambda>(t, fs, rem) (t', fs', rem'). rem' < rem) xs"
  using framewalk_all_suffix[OF assms]
  by (auto simp: quic_framewalk_init_def list_all_iff suffix_drop)

theorem framewalk_stays_inside_witness:
  "\<exists>xs e. framewalk_all (quic_framewalk_init [0x01, 0x08, 0x40] 3) = (xs, e) \<and>
     list_all (\<lambda>(t, fs, rem). 0 < rem \<and> rem = length fs \<and> suffix fs [0x01, 0x08, 0x40]) xs"
proof -
  have n: "length [0x01, 0x08, 0x40 :: u8] = 3" by simp
  obtain xs e where w: "framewalk_all (quic_framewalk_init [0x01, 0x08, 0x40] 3) = (xs, e)"
    by (cases "framewalk_all (quic_framewalk_init [0x01, 0x08, 0x40] 3)") auto
  with framewalk_stays_inside[of "[0x01, 0x08, 0x40]" xs e, unfolded n] show ?thesis by blast
qed

end
