(* ===== verification/Packet_Header.thy ===== *)
theory Packet_Header
  imports Wire_Format Packet_Number
begin

text \<open>
  Packet headers, \<^verbatim>\<open>src/transport/packet/header/\<close>: the version-independent header
  (packet/header.c), the complete long header (lhdr/), the short header in its two builders
  (packet/short.c and shorthdr/), the Initial token, Retry and Version Negotiation packets,
  and the first-byte helpers. A fixed CID array is a list of its 20 bytes, of which a copy
  overwrites a prefix.
\<close>

section \<open>header.c\<close>

definition QUIC_MAX_CID_LEN :: u8 where "QUIC_MAX_CID_LEN = 20"

datatype quic_form = QUIC_FORM_LONG | QUIC_FORM_SHORT

record quic_header =
  h_form :: quic_form
  h_long_type :: u8
  h_version :: u32
  h_dcid_len :: u8
  h_dcid :: bytes
  h_scid_len :: u8
  h_scid :: bytes

definition copy_cid :: "bytes \<Rightarrow> bytes \<Rightarrow> u8 \<Rightarrow> bytes" where
  "copy_cid dst src len = overwrite dst 0 (take (unat len) src)"

definition cid_fits :: "u8 \<Rightarrow> usz \<Rightarrow> usz \<Rightarrow> bool" where
  "cid_fits len off n \<longleftrightarrow> len \<le> QUIC_MAX_CID_LEN \<and> usz_add (usz_add off 1) (unat len) \<le> n"

definition read_cid :: "bytes \<Rightarrow> usz \<Rightarrow> usz \<Rightarrow> bytes \<Rightarrow> ((bytes \<times> u8) \<times> usz) option" where
  "read_cid buf n off dst =
     (if off \<ge> n then None
      else let len = rd buf off
           in if \<not> cid_fits len off n then None
              else Some ((copy_cid dst (drop (off + 1) buf) len, len), usz_add off (1 + unat len)))"

definition be32_at :: "bytes \<Rightarrow> usz \<Rightarrow> u32" where
  "be32_at buf i =
     push_bit 24 (ucast (rd buf i)) OR push_bit 16 (ucast (rd buf (i + 1))) OR
     push_bit 8 (ucast (rd buf (i + 2))) OR ucast (rd buf (i + 3))"

definition parse_long :: "bytes \<Rightarrow> usz \<Rightarrow> quic_header \<Rightarrow> (quic_header \<times> usz) option" where
  "parse_long buf n h =
     (let h = h\<lparr>h_form := QUIC_FORM_LONG,
                h_long_type := drop_bit 4 (rd buf 0) AND 0x3,
                h_version := be32_at buf 1\<rparr>
      in do { (d, off) \<leftarrow> read_cid buf n 5 (h_dcid h);
              (s, off) \<leftarrow> read_cid buf n off (h_scid h);
              Some (h\<lparr>h_dcid := fst d, h_dcid_len := snd d, h_scid := fst s, h_scid_len := snd s\<rparr>, off) })"

definition parse_short :: "bytes \<Rightarrow> usz \<Rightarrow> quic_header \<Rightarrow> u8 \<Rightarrow> (quic_header \<times> usz) option" where
  "parse_short buf n h dcid_len =
     (if \<not> cid_fits dcid_len 0 n then None
      else Some (h\<lparr>h_form := QUIC_FORM_SHORT, h_dcid := copy_cid (h_dcid h) (drop 1 buf) dcid_len,
                   h_dcid_len := dcid_len, h_scid_len := 0\<rparr>, 1 + unat dcid_len))"

definition quic_header_parse :: "bytes \<Rightarrow> usz \<Rightarrow> quic_header \<Rightarrow> (quic_header \<times> usz) option" where
  "quic_header_parse buf n h =
     (if n = 0 then None
      else if rd buf 0 AND 0x80 \<noteq> 0 then parse_long buf n h
      else parse_short buf n h (h_dcid_len h))"

definition write_cid :: "bytes \<Rightarrow> usz \<Rightarrow> usz \<Rightarrow> bytes \<Rightarrow> u8 \<Rightarrow> put_res" where
  "write_cid buf cap off cid len =
     (if usz_add (usz_add off 1) (unat len) > cap then (False, buf, off)
      else (True, overwrite (buf[off := len]) (off + 1) (take (unat len) cid), usz_add off (1 + unat len)))"

definition put_long_prefix :: "bytes \<Rightarrow> usz \<Rightarrow> quic_header \<Rightarrow> usz \<times> bytes" where
  "put_long_prefix buf cap h =
     (if cap < 5 then (0, buf)
      else (5, overwrite buf 0
             [0xC0 OR push_bit 4 (h_long_type h), ucast (drop_bit 24 (h_version h)),
              ucast (drop_bit 16 (h_version h)), ucast (drop_bit 8 (h_version h)), ucast (h_version h)]))"

text \<open>One round of the loop in \<^verbatim>\<open>write_cids\<close>: on overflow the offset becomes 0 and the loop goes on.\<close>

definition write_cids_step :: "usz \<Rightarrow> bytes \<times> usz \<Rightarrow> bytes \<times> u8 \<Rightarrow> bytes \<times> usz" where
  "write_cids_step cap st c =
     (case write_cid (fst st) cap (snd st) (fst c) (snd c) of (ok, buf, off) \<Rightarrow> (buf, if ok then off else 0))"

definition write_cids :: "bytes \<Rightarrow> usz \<Rightarrow> usz \<Rightarrow> quic_header \<Rightarrow> bytes \<times> usz" where
  "write_cids buf cap off h =
     foldl (write_cids_step cap) (buf, off) [(h_dcid h, h_dcid_len h), (h_scid h, h_scid_len h)]"

definition quic_header_build_long :: "bytes \<Rightarrow> usz \<Rightarrow> quic_header \<Rightarrow> usz \<times> bytes" where
  "quic_header_build_long buf cap h =
     (case put_long_prefix buf cap h of (off, buf) \<Rightarrow>
        if off \<noteq> 0 then (case write_cids buf cap off h of (buf, off) \<Rightarrow> (off, buf)) else (off, buf))"

section \<open>ptype.c, resbits.c, pad.c, coalorder.c\<close>

definition quic_packet_is_long :: "u8 \<Rightarrow> bool" where
  "quic_packet_is_long byte0 \<longleftrightarrow> byte0 AND 0x80 \<noteq> 0"

definition quic_packet_long_type :: "u8 \<Rightarrow> u8 option" where
  "quic_packet_long_type byte0 =
     (if \<not> quic_packet_is_long byte0 then None else Some (drop_bit 4 byte0 AND 0x3))"

definition quic_resbits_ok :: "u8 \<Rightarrow> bool \<Rightarrow> bool" where
  "quic_resbits_ok byte0 is_long \<longleftrightarrow> byte0 AND (if is_long then 0x0c else 0x18) = 0"

definition QUIC_MIN_INITIAL_DATAGRAM :: usz where "QUIC_MIN_INITIAL_DATAGRAM = 1200"

definition quic_pad_needed :: "usz \<Rightarrow> usz" where
  "quic_pad_needed cur_len =
     (if cur_len \<ge> QUIC_MIN_INITIAL_DATAGRAM then 0 else QUIC_MIN_INITIAL_DATAGRAM - cur_len)"

definition quic_coalesce_short_must_be_last :: "u8 \<Rightarrow> bool \<Rightarrow> bool" where
  "quic_coalesce_short_must_be_last byte0 is_last = (if byte0 AND 0x80 \<noteq> 0 then True else is_last)"

section \<open>inittoken.c\<close>

definition quic_inittoken_put :: "bytes \<Rightarrow> usz \<Rightarrow> bytes \<Rightarrow> usz \<Rightarrow> usz \<times> bytes" where
  "quic_inittoken_put buf cap token len =
     put_done (put_seq (quic_varint_put buf cap 0 (of_nat len)) (\<lambda>buf off.
       quic_put_bytes buf cap off token len))"

definition take_tlen :: "bytes \<Rightarrow> usz \<Rightarrow> usz \<Rightarrow> (u64 \<times> usz) option" where
  "take_tlen buf n off =
     do { (tlen, off) \<leftarrow> quic_varint_take buf n off;
          if unat tlen \<le> usz_sub n off then Some (tlen, off) else None }"

definition quic_inittoken_get :: "bytes \<Rightarrow> usz \<Rightarrow> ((bytes \<times> usz) \<times> usz) option" where
  "quic_inittoken_get buf n =
     do { (tlen, off) \<leftarrow> take_tlen buf n 0;
          Some ((take (unat tlen) (drop off buf), unat tlen), usz_add off (unat tlen)) }"

section \<open>lhdr\<close>

definition quic_lhdr_byte0_pnlen :: "u8 \<Rightarrow> u8 \<Rightarrow> u8" where
  "quic_lhdr_byte0_pnlen byte0 pn_len = (byte0 AND 0xFC) OR ((pn_len - 1) AND 0x3)"

definition set_cid :: "bytes \<Rightarrow> bytes \<Rightarrow> u8 \<Rightarrow> bytes" where
  "set_cid dst src len = overwrite dst 0 (take (unat len) src)"

definition cids_ok :: "u8 \<Rightarrow> u8 \<Rightarrow> bool" where
  "cids_ok dcid_len scid_len \<longleftrightarrow> dcid_len \<le> QUIC_MAX_CID_LEN \<and> scid_len \<le> QUIC_MAX_CID_LEN"

definition lhdr_put_prefix ::
    "bytes \<Rightarrow> usz \<Rightarrow> u8 \<Rightarrow> u32 \<Rightarrow> bytes \<Rightarrow> u8 \<Rightarrow> bytes \<Rightarrow> u8 \<Rightarrow> u8 \<Rightarrow> usz \<times> bytes" where
  "lhdr_put_prefix out cap byte0 version dcid dcid_len scid scid_len pn_len =
     (if \<not> cids_ok dcid_len scid_len then (0, out)
      else let h = \<lparr>h_form = QUIC_FORM_SHORT, h_long_type = 0, h_version = version, h_dcid_len = dcid_len,
                    h_dcid = set_cid (replicate 20 0) dcid dcid_len, h_scid_len = scid_len,
                    h_scid = set_cid (replicate 20 0) scid scid_len\<rparr>
           in case quic_header_build_long out cap h of (w, out) \<Rightarrow>
                if w \<noteq> 5 + 1 + unat dcid_len + 1 + unat scid_len then (0, out)
                else (w, out[0 := quic_lhdr_byte0_pnlen byte0 pn_len]))"

definition put_token :: "bytes \<Rightarrow> usz \<Rightarrow> usz \<Rightarrow> bool \<Rightarrow> bytes \<Rightarrow> usz \<Rightarrow> put_res" where
  "put_token out cap off is_initial token token_len =
     (if \<not> is_initial then (True, out, off)
      else case quic_inittoken_put (drop off out) (usz_sub cap off) token token_len of (w, sub) \<Rightarrow>
        let out = take off out @ sub
        in if w = 0 then (False, out, off) else (True, out, usz_add off w))"

definition put_len_pn :: "bytes \<Rightarrow> usz \<Rightarrow> usz \<Rightarrow> usz \<Rightarrow> u64 \<Rightarrow> u8 \<Rightarrow> put_res" where
  "put_len_pn out cap off payload_len pn pn_len =
     (let remaining = ucast pn_len + of_nat payload_len + 16
      in put_seq (quic_varint_put out cap off remaining) (\<lambda>out off.
           if usz_add off (unat pn_len) > cap then (False, out, off)
           else case quic_pnum_encode (drop off out) pn (unat pn_len) of (w, sub) \<Rightarrow>
             (True, take off out @ sub, usz_add off w)))"

definition put_body :: "bytes \<Rightarrow> usz \<Rightarrow> usz \<Rightarrow> bool \<Rightarrow> bytes \<Rightarrow> usz \<Rightarrow> usz \<Rightarrow> u64 \<Rightarrow> u8 \<Rightarrow> put_res" where
  "put_body out cap off is_initial token token_len payload_len pn pn_len =
     put_seq (put_token out cap off is_initial token token_len) (\<lambda>out off.
       put_len_pn out cap off payload_len pn pn_len)"

definition quic_lhdr_build ::
    "u8 \<Rightarrow> u32 \<Rightarrow> bytes \<Rightarrow> u8 \<Rightarrow> bytes \<Rightarrow> u8 \<Rightarrow> bool \<Rightarrow> bytes \<Rightarrow> usz \<Rightarrow> usz \<Rightarrow> u64 \<Rightarrow> u8 \<Rightarrow> bytes \<Rightarrow> usz \<Rightarrow>
     usz \<times> bytes" where
  "quic_lhdr_build byte0 version dcid dcid_len scid scid_len is_initial token token_len payload_len pn pn_len out cap =
     (case lhdr_put_prefix out cap byte0 version dcid dcid_len scid scid_len pn_len of (off, out) \<Rightarrow>
        if off = 0 then (0, out)
        else put_done (put_body out cap off is_initial token token_len payload_len pn pn_len))"

text \<open>What \<^verbatim>\<open>quic_lhdr_build\<close> stores through \<^verbatim>\<open>length_off_out\<close>, the offset of the Length field, if it gets there.\<close>

definition quic_lhdr_build_length_off ::
    "u8 \<Rightarrow> u32 \<Rightarrow> bytes \<Rightarrow> u8 \<Rightarrow> bytes \<Rightarrow> u8 \<Rightarrow> bool \<Rightarrow> bytes \<Rightarrow> usz \<Rightarrow> u8 \<Rightarrow> bytes \<Rightarrow> usz \<Rightarrow> usz option" where
  "quic_lhdr_build_length_off byte0 version dcid dcid_len scid scid_len is_initial token token_len pn_len out cap =
     (case lhdr_put_prefix out cap byte0 version dcid dcid_len scid scid_len pn_len of (off, out) \<Rightarrow>
        if off = 0 then None
        else case put_token out cap off is_initial token token_len of (ok, out, off) \<Rightarrow> if ok then Some off else None)"

definition is_long_header :: "bytes \<Rightarrow> usz \<Rightarrow> bool" where
  "is_long_header pkt len \<longleftrightarrow> len \<noteq> 0 \<and> rd pkt 0 AND 0x80 \<noteq> 0"

text \<open>The out-parameters of \<^verbatim>\<open>quic_lhdr_parse\<close>; the pointers as the views their lengths span.\<close>

record lhdr_view =
  lv_dcid :: bytes
  lv_dcid_len :: u8
  lv_scid :: bytes
  lv_scid_len :: u8
  lv_token :: bytes
  lv_token_len :: usz
  lv_length :: u64
  lv_pn_off :: usz

definition locate_cids :: "bytes \<Rightarrow> quic_header \<Rightarrow> bytes \<times> bytes" where
  "locate_cids pkt h =
     (take (unat (h_dcid_len h)) (drop 6 pkt),
      take (unat (h_scid_len h)) (drop (7 + unat (h_dcid_len h)) pkt))"

definition read_token :: "bytes \<Rightarrow> usz \<Rightarrow> bool \<Rightarrow> usz \<Rightarrow> ((bytes \<times> usz) \<times> usz) option" where
  "read_token pkt len is_initial off =
     (if \<not> is_initial then Some (([], 0), off)
      else do { (t, u) \<leftarrow> quic_inittoken_get (drop off pkt) (usz_sub len off);
                if u = 0 then None else Some (t, usz_add off u) })"

definition quic_lhdr_parse_prefix :: "bytes \<Rightarrow> usz \<Rightarrow> quic_header \<Rightarrow> ((quic_header \<times> bytes \<times> bytes) \<times> usz) option" where
  "quic_lhdr_parse_prefix pkt len h =
     (if \<not> is_long_header pkt len then None
      else do { (h, off) \<leftarrow> quic_header_parse pkt len h;
                if off = 0 then None else Some ((h, locate_cids pkt h), off) })"

definition read_token_and_length :: "bytes \<Rightarrow> usz \<Rightarrow> bool \<Rightarrow> usz \<Rightarrow> (((bytes \<times> usz) \<times> u64) \<times> usz) option" where
  "read_token_and_length pkt len is_initial off =
     do { (t, off) \<leftarrow> read_token pkt len is_initial off;
          (l, off) \<leftarrow> quic_varint_take pkt len off;
          Some ((t, l), off) }"

definition quic_lhdr_pn_len :: "u8 \<Rightarrow> usz" where
  "quic_lhdr_pn_len byte0_unprotected = unat (byte0_unprotected AND 0x03) + 1"

text \<open>\<open>h\<close> is the uninitialised local header the code parses into.\<close>

definition quic_lhdr_parse :: "bytes \<Rightarrow> usz \<Rightarrow> bool \<Rightarrow> quic_header \<Rightarrow> lhdr_view option" where
  "quic_lhdr_parse pkt len is_initial h =
     do { (p, off) \<leftarrow> quic_lhdr_parse_prefix pkt len h;
          (tl, off) \<leftarrow> read_token_and_length pkt len is_initial off;
          Some \<lparr>lv_dcid = fst (snd p), lv_dcid_len = h_dcid_len (fst p), lv_scid = snd (snd p),
                lv_scid_len = h_scid_len (fst p), lv_token = fst (fst tl), lv_token_len = snd (fst tl),
                lv_length = snd tl, lv_pn_off = off\<rparr> }"

section \<open>short.c and shorthdr.c\<close>

definition short_ok :: "usz \<Rightarrow> u8 \<Rightarrow> usz \<Rightarrow> bool" where
  "short_ok cap dcid_len pn_len =
     (if pn_len < 1 \<or> pn_len > 4 then False else 1 + unat dcid_len + pn_len \<le> cap)"

definition short_byte0 :: "u8 \<Rightarrow> u8 \<Rightarrow> usz \<Rightarrow> u8" where
  "short_byte0 spin key_phase pn_len =
     0x40 OR push_bit 5 (spin AND 1) OR push_bit 2 (key_phase AND 1) OR of_nat (pn_len - 1)"

definition put_pn :: "bytes \<Rightarrow> usz \<Rightarrow> u64 \<Rightarrow> usz \<Rightarrow> bytes \<times> usz" where
  "put_pn buf off pn pn_len =
     (overwrite buf off (map (\<lambda>i. ucast (drop_bit ((pn_len - 1 - i) * 8) pn)) [0..<pn_len]), off + pn_len)"

definition quic_short_build :: "bytes \<Rightarrow> usz \<Rightarrow> bytes \<Rightarrow> u8 \<Rightarrow> u8 \<Rightarrow> u8 \<Rightarrow> u64 \<Rightarrow> usz \<Rightarrow> usz \<times> bytes" where
  "quic_short_build buf cap dcid dcid_len spin key_phase pn pn_len =
     (if \<not> short_ok cap dcid_len pn_len then (0, buf)
      else case quic_put_bytes (buf[0 := short_byte0 spin key_phase pn_len]) cap 1 dcid (unat dcid_len) of
        (_, buf, off) \<Rightarrow> (case put_pn buf off pn pn_len of (buf, off) \<Rightarrow> (off, buf)))"

definition quic_shorthdr_byte0 :: "32 word \<Rightarrow> 32 word \<Rightarrow> u8 \<Rightarrow> u8" where
  "quic_shorthdr_byte0 spin key_phase pn_len =
     ucast (0x40 OR push_bit 5 (spin AND 1) OR push_bit 2 (key_phase AND 1) OR ucast (pn_len - 1))"

definition shorthdr_ok :: "usz \<Rightarrow> u8 \<Rightarrow> u8 \<Rightarrow> bool" where
  "shorthdr_ok cap dcid_len pn_len =
     (if pn_len < 1 \<or> pn_len > 4 then False else 1 + unat dcid_len + unat pn_len \<le> cap)"

definition shdr_put_pn :: "bytes \<Rightarrow> usz \<Rightarrow> u64 \<Rightarrow> u8 \<Rightarrow> bytes \<times> usz" where
  "shdr_put_pn out off pn pn_len =
     (overwrite out off (map (\<lambda>i. ucast (drop_bit ((unat pn_len - 1 - i) * 8) pn)) [0..<unat pn_len]),
      off + unat pn_len)"

definition quic_shorthdr_build ::
    "32 word \<Rightarrow> 32 word \<Rightarrow> bytes \<Rightarrow> u8 \<Rightarrow> u64 \<Rightarrow> u8 \<Rightarrow> bytes \<Rightarrow> usz \<Rightarrow> (usz \<times> bytes) option" where
  "quic_shorthdr_build spin key_phase dcid dcid_len pn pn_len out cap =
     (if \<not> shorthdr_ok cap dcid_len pn_len then None
      else case quic_put_bytes (out[0 := quic_shorthdr_byte0 spin key_phase pn_len]) cap 1 dcid (unat dcid_len) of
        (_, out, off) \<Rightarrow> (case shdr_put_pn out off pn pn_len of (out, off) \<Rightarrow> Some (off, out)))"

section \<open>The long header on the wire\<close>

definition cid_wire :: "bytes \<Rightarrow> u8 \<Rightarrow> bytes" where
  "cid_wire cid len = len # take (unat len) cid"

definition invariant_wire :: "u8 \<Rightarrow> u32 \<Rightarrow> bytes \<Rightarrow> u8 \<Rightarrow> bytes \<Rightarrow> u8 \<Rightarrow> bytes" where
  "invariant_wire b0 version dcid dcid_len scid scid_len =
     b0 # quic_put_be32 version @ cid_wire dcid dcid_len @ cid_wire scid scid_len"

lemma length_put_be32 [simp]: "length (quic_put_be32 v) = 4"
  by (simp add: quic_put_be32_def)

lemma length_cid_wire: "unat len \<le> length cid \<Longrightarrow> length (cid_wire cid len) = Suc (unat len)"
  by (simp add: cid_wire_def)

lemma puts_write_cid:
  assumes "unat len \<le> length cid"
  shows "puts (\<lambda>buf off. write_cid buf cap off cid len) cap True (cid_wire cid len)"
proof (rule putsI)
  fix buf :: bytes and off
  assume o: "out_ok buf cap off" "off + length (cid_wire cid len) \<le> cap"
  then have len: "off + 1 + unat len \<le> cap" using assms by (simp add: cid_wire_def)
  then have "off < length buf" using o by (simp add: out_ok_def)
  then have "overwrite (buf[off := len]) (off + 1) (take (unat len) cid) = overwrite buf off (cid_wire cid len)"
    by (simp add: overwrite_update cid_wire_def)
  then show "write_cid buf cap off cid len = (True, overwrite buf off (cid_wire cid len), off + length (cid_wire cid len))"
    using o(1) len assms by (simp add: write_cid_def out_ok_def cid_wire_def)
next
  fix buf :: bytes and off
  assume o: "out_ok buf cap off" and no: "\<not> (True \<and> off + length (cid_wire cid len) \<le> cap)"
  have "unat len < 256" by (rule unat_u8_less)
  then show "\<not> fst (write_cid buf cap off cid len)"
    using o no assms by (simp add: write_cid_def out_ok_def cid_wire_def)
qed

text \<open>The builder of the invariant part: exact when both CIDs fit, and what it returns when
  the first does not.\<close>

lemma header_build_long_fits:
  assumes "unat (h_dcid_len h) \<le> length (h_dcid h)" "unat (h_scid_len h) \<le> length (h_scid h)"
    and "cap \<le> length buf" "length buf < 2 ^ 63" "7 + unat (h_dcid_len h) + unat (h_scid_len h) \<le> cap"
  shows "quic_header_build_long buf cap h = (7 + unat (h_dcid_len h) + unat (h_scid_len h),
     overwrite buf 0 (invariant_wire (0xC0 OR push_bit 4 (h_long_type h)) (h_version h) (h_dcid h) (h_dcid_len h)
        (h_scid h) (h_scid_len h)))"
proof -
  let ?p = "(0xC0 OR push_bit 4 (h_long_type h)) # quic_put_be32 (h_version h)"
  have lp: "length ?p = 5" by simp
  have pre: "put_long_prefix buf cap h = (5, overwrite buf 0 ?p)"
    using assms(5) by (simp add: put_long_prefix_def quic_put_be32_def)
  have "out_ok buf cap 0" using assms by (simp add: out_ok_def)
  from out_ok_step[OF this, of ?p] have o1: "out_ok (overwrite buf 0 ?p) cap 5" using assms(5) by simp
  note w1 = putsD(1)[OF puts_write_cid[OF assms(1)] o1 TrueI, unfolded length_cid_wire[OF assms(1)]]
  have o2: "out_ok (overwrite (overwrite buf 0 ?p) 5 (cid_wire (h_dcid h) (h_dcid_len h))) cap (6 + unat (h_dcid_len h))"
    using out_ok_step[OF o1, of "cid_wire (h_dcid h) (h_dcid_len h)"] assms(5) by (simp add: length_cid_wire[OF assms(1)])
  note w2 = putsD(1)[OF puts_write_cid[OF assms(2)] o2 TrueI, unfolded length_cid_wire[OF assms(2)]]
  have "overwrite (overwrite buf 0 ?p) 5 xs = overwrite buf 0 (?p @ xs)" for xs
    using overwrite_overwrite[of 0 ?p buf xs] assms(3,5) by simp
  moreover have "overwrite (overwrite buf 0 (?p @ cid_wire (h_dcid h) (h_dcid_len h))) (6 + unat (h_dcid_len h)) ys =
      overwrite buf 0 ((?p @ cid_wire (h_dcid h) (h_dcid_len h)) @ ys)" for ys
    using overwrite_overwrite[of 0 "?p @ cid_wire (h_dcid h) (h_dcid_len h)" buf ys] assms(3,5)
    by (simp add: length_cid_wire[OF assms(1)])
  ultimately show ?thesis
    using w1 w2 assms(5)
    by (simp add: quic_header_build_long_def pre write_cids_def write_cids_step_def invariant_wire_def)
qed

lemma header_build_long_over:
  assumes "unat (h_dcid_len h) \<le> length (h_dcid h)" "unat (h_scid_len h) \<le> length (h_scid h)"
    and "cap \<le> length buf" "length buf < 2 ^ 63" "\<not> 7 + unat (h_dcid_len h) + unat (h_scid_len h) \<le> cap"
  shows "fst (quic_header_build_long buf cap h) =
     (if 5 \<le> cap \<and> cap < 6 + unat (h_dcid_len h) \<and> 1 + unat (h_scid_len h) \<le> cap then 1 + unat (h_scid_len h) else 0)"
proof (cases "cap < 5")
  case True
  then show ?thesis by (simp add: quic_header_build_long_def put_long_prefix_def)
next
  case False
  let ?p = "(0xC0 OR push_bit 4 (h_long_type h)) # quic_put_be32 (h_version h)"
  have lp: "length ?p = 5" by simp
  have pre: "put_long_prefix buf cap h = (5, overwrite buf 0 ?p)"
    using False by (simp add: put_long_prefix_def quic_put_be32_def)
  have "out_ok buf cap 0" using assms by (simp add: out_ok_def)
  from out_ok_step[OF this, of ?p] have o1: "out_ok (overwrite buf 0 ?p) cap 5" using False by simp
  have bytes: "unat (h_dcid_len h) < 256" "unat (h_scid_len h) < 256" by (rule unat_u8_less)+
  show ?thesis
  proof (cases "cap < 6 + unat (h_dcid_len h)")
    case True
    have cap: "cap < 2 ^ 63" using assms(3,4) by simp
    have "write_cid b cap 5 (h_dcid h) (h_dcid_len h) = (False, b, 5)" for b
      using True bytes by (simp add: write_cid_def)
    moreover have "write_cid b cap 0 (h_scid h) (h_scid_len h) =
        (if 1 + unat (h_scid_len h) > cap then (False, b, 0)
         else (True, overwrite (b[0 := h_scid_len h]) 1 (take (unat (h_scid_len h)) (h_scid h)), 1 + unat (h_scid_len h)))" for b
      using bytes by (simp add: write_cid_def)
    ultimately show ?thesis
      using True False by (simp add: quic_header_build_long_def pre write_cids_def write_cids_step_def)
  next
    case dfits: False
    note w1 = putsD(1)[OF puts_write_cid[OF assms(1)] o1 TrueI, unfolded length_cid_wire[OF assms(1)]]
    have o2: "out_ok (overwrite (overwrite buf 0 ?p) 5 (cid_wire (h_dcid h) (h_dcid_len h))) cap (6 + unat (h_dcid_len h))"
      using out_ok_step[OF o1, of "cid_wire (h_dcid h) (h_dcid_len h)"] dfits by (simp add: length_cid_wire[OF assms(1)])
    have "\<not> fst (write_cid (overwrite (overwrite buf 0 ?p) 5 (cid_wire (h_dcid h) (h_dcid_len h))) cap
        (6 + unat (h_dcid_len h)) (h_scid h) (h_scid_len h))"
      using assms(5) by (intro putsD(2)[OF puts_write_cid[OF assms(2)] o2]) (simp add: length_cid_wire[OF assms(2)])
    then show ?thesis
      using w1 dfits
      by (auto simp: quic_header_build_long_def pre write_cids_def write_cids_step_def split: prod.splits)
  qed
qed

text \<open>Reading the invariant part.\<close>

lemma be32_join:
  "push_bit 24 (ucast (ucast (drop_bit 24 v) :: u8)) OR push_bit 16 (ucast (ucast (drop_bit 16 v) :: u8)) OR
   push_bit 8 (ucast (ucast (drop_bit 8 v) :: u8)) OR ucast (ucast v :: u8) = (v :: u32)"
proof (rule bit_word_eqI)
  fix n assume "n < LENGTH(32)"
  then have "n < 8 \<or> 8 \<le> n \<and> n < 16 \<or> 16 \<le> n \<and> n < 24 \<or> 24 \<le> n \<and> n < 32" by auto
  then show "bit (push_bit 24 (ucast (ucast (drop_bit 24 v) :: u8)) OR
      push_bit 16 (ucast (ucast (drop_bit 16 v) :: u8)) OR
      push_bit 8 (ucast (ucast (drop_bit 8 v) :: u8)) OR ucast (ucast v :: u8) :: u32) n = bit v n"
    by (auto simp: bit_simps)
qed

lemma be32_at_put: "be32_at (b # quic_put_be32 v @ rest) 1 = v"
proof -
  have "be32_at xs 1 = push_bit 24 (ucast (rd xs 1)) OR push_bit 16 (ucast (rd xs 2)) OR
     push_bit 8 (ucast (rd xs 3)) OR ucast (rd xs 4)" for xs
    by (simp add: be32_at_def eval_nat_numeral)
  moreover have "rd (b # quic_put_be32 v @ rest) 1 = ucast (drop_bit 24 v)"
    "rd (b # quic_put_be32 v @ rest) 2 = ucast (drop_bit 16 v)"
    "rd (b # quic_put_be32 v @ rest) 3 = ucast (drop_bit 8 v)" "rd (b # quic_put_be32 v @ rest) 4 = ucast v"
    by (simp_all add: quic_put_be32_def rd_def)
  ultimately show ?thesis by (simp only: be32_join)
qed

lemma takes_read_cid:
  assumes "unat len \<le> length cid" "unat len \<le> 20" "unat len \<le> length dst"
  shows "takes (\<lambda>buf n off. read_cid buf n off dst) (cid_wire cid len) (overwrite dst 0 (take (unat len) cid), len)"
proof (rule takesI)
  fix pre rest :: bytes and n
  assume a: "length pre + length (cid_wire cid len) \<le> n"
    "n \<le> length pre + length (cid_wire cid len) + length rest" "n < 2 ^ 63"
  let ?b = "pre @ cid_wire cid len @ rest"
  have rd: "rd ?b (length pre) = len" by (simp add: rd_append cid_wire_def)
  have lt: "length pre + 1 + unat len \<le> n" using a(1) assms(1) by (simp add: cid_wire_def)
  then have "cid_fits len (length pre) n"
    using a(3) assms(2) by (simp add: cid_fits_def QUIC_MAX_CID_LEN_def word_le_nat_alt)
  then show "read_cid ?b n (length pre) dst = Some ((overwrite dst 0 (take (unat len) cid), len), length pre + length (cid_wire cid len))"
    using lt a(3) assms(1) by (simp add: read_cid_def rd Let_def copy_cid_def cid_wire_def)
qed

definition long_view :: "u8 \<Rightarrow> u32 \<Rightarrow> bytes \<Rightarrow> u8 \<Rightarrow> bytes \<Rightarrow> u8 \<Rightarrow> quic_header \<Rightarrow> quic_header" where
  "long_view b0 version dcid dcid_len scid scid_len h =
     h\<lparr>h_form := QUIC_FORM_LONG, h_long_type := drop_bit 4 b0 AND 0x3, h_version := version,
       h_dcid := overwrite (h_dcid h) 0 (take (unat dcid_len) dcid), h_dcid_len := dcid_len,
       h_scid := overwrite (h_scid h) 0 (take (unat scid_len) scid), h_scid_len := scid_len\<rparr>"

lemma header_parse_invariant:
  assumes "b0 AND 0x80 \<noteq> 0" "unat dcid_len \<le> length dcid" "unat scid_len \<le> length scid"
    and "unat dcid_len \<le> 20" "unat scid_len \<le> 20" "length (h_dcid h) = 20" "length (h_scid h) = 20"
    and "length (invariant_wire b0 version dcid dcid_len scid scid_len) \<le> n"
    and "n \<le> length (invariant_wire b0 version dcid dcid_len scid scid_len) + length rest" "n < 2 ^ 63"
  shows "quic_header_parse (invariant_wire b0 version dcid dcid_len scid scid_len @ rest) n h =
    Some (long_view b0 version dcid dcid_len scid scid_len h, 7 + unat dcid_len + unat scid_len)"
proof -
  let ?w = "invariant_wire b0 version dcid dcid_len scid scid_len"
  let ?pre = "b0 # quic_put_be32 version"
  have w: "?w @ rest = ?pre @ (cid_wire dcid dcid_len @ cid_wire scid scid_len) @ rest"
    by (simp add: invariant_wire_def)
  have d: "read_cid (?w @ rest) n 5 (h_dcid h) =
      Some ((overwrite (h_dcid h) 0 (take (unat dcid_len) dcid), dcid_len), 6 + unat dcid_len)"
    using takesD[OF takes_read_cid[OF assms(2,4)], of "h_dcid h" ?pre n "cid_wire scid scid_len @ rest"] assms(4,6,8-10)
    by (simp add: invariant_wire_def length_cid_wire[OF assms(2)] length_cid_wire[OF assms(3)])
  have s: "read_cid (?w @ rest) n (6 + unat dcid_len) (h_scid h) =
      Some ((overwrite (h_scid h) 0 (take (unat scid_len) scid), scid_len), 7 + unat dcid_len + unat scid_len)"
    using takesD[OF takes_read_cid[OF assms(3,5)], of "h_scid h" "?pre @ cid_wire dcid dcid_len" n rest] assms(5,7,8-10)
    by (simp add: invariant_wire_def length_cid_wire[OF assms(2)] length_cid_wire[OF assms(3)])
  have "rd (?w @ rest) 0 = b0" "be32_at (?w @ rest) 1 = version"
    using be32_at_put[of b0 version] by (simp_all add: invariant_wire_def)
  moreover have "n \<noteq> 0" using assms(8) by (simp add: invariant_wire_def)
  ultimately show ?thesis
    using assms(1) d s by (simp add: quic_header_parse_def parse_long_def Let_def long_view_def)
qed

section \<open>The complete long header\<close>

definition token_wire :: "bool \<Rightarrow> bytes \<Rightarrow> bytes" where
  "token_wire is_initial token = (if is_initial then varint_wire (of_nat (length token)) @ token else [])"

definition lhdr_remaining :: "usz \<Rightarrow> u8 \<Rightarrow> u64" where
  "lhdr_remaining payload_len pn_len = ucast pn_len + of_nat payload_len + 16"

definition lhdr_wire ::
    "u8 \<Rightarrow> u32 \<Rightarrow> bytes \<Rightarrow> bytes \<Rightarrow> bool \<Rightarrow> bytes \<Rightarrow> usz \<Rightarrow> u64 \<Rightarrow> u8 \<Rightarrow> bytes" where
  "lhdr_wire byte0 version dcid scid is_initial token payload_len pn pn_len =
     invariant_wire (quic_lhdr_byte0_pnlen byte0 pn_len) version dcid (of_nat (length dcid)) scid (of_nat (length scid)) @
     token_wire is_initial token @ varint_wire (lhdr_remaining payload_len pn_len) @ be_bytes (unat pn_len) (unat pn)"

lemma puts_inittoken:
  assumes "length token < 2 ^ 62"
  shows "puts (\<lambda>buf off. put_seq (quic_varint_put buf cap off (of_nat (length token))) (\<lambda>buf off.
     quic_put_bytes buf cap off token (length token))) cap True (varint_wire (of_nat (length token)) @ token)"
proof -
  have u: "unat (of_nat (length token) :: u64) = length token" using assms by (simp add: unat_of_nat)
  then have "of_nat (length token) \<le> QUIC_VARINT_MAX" using assms by (simp add: varint_max_unat)
  with puts_len_view[of token "of_nat (length token)" cap] show ?thesis by (simp add: u)
qed

lemma overwrite_drop: "off \<le> length buf \<Longrightarrow> take off buf @ overwrite (drop off buf) 0 ws = overwrite buf off ws"
  by (simp add: overwrite_def add.commute)

lemma puts_token:
  assumes "length token < 2 ^ 62"
  shows "puts (\<lambda>out off. put_token out cap off is_initial token (length token)) cap True (token_wire is_initial token)"
proof (cases is_initial)
  case True
  let ?w = "varint_wire (of_nat (length token)) @ token"
  have ne: "quic_varint_len (of_nat (length token)) \<noteq> 0"
    using assms varint_len_0[of "of_nat (length token)"] by (simp add: varint_max_unat unat_of_nat)
  note I = put_done_puts[OF puts_inittoken[OF assms], folded quic_inittoken_put_def]
  show ?thesis
  proof (rule putsI)
    fix buf :: bytes and off
    assume o: "out_ok buf cap off" "off + length (token_wire is_initial token) \<le> cap"
    have "quic_inittoken_put (drop off buf) (cap - off) token (length token) =
        (length ?w, overwrite (drop off buf) 0 ?w)"
      using o True by (intro I(1)) (auto simp: out_ok_def token_wire_def)
    then show "put_token buf cap off is_initial token (length token) =
        (True, overwrite buf off (token_wire is_initial token), off + length (token_wire is_initial token))"
      using o True ne by (simp add: put_token_def out_ok_def token_wire_def overwrite_drop Let_def)
  next
    fix buf :: bytes and off
    assume o: "out_ok buf cap off" and no: "\<not> (True \<and> off + length (token_wire is_initial token) \<le> cap)"
    have "fst (quic_inittoken_put (drop off buf) (cap - off) token (length token)) = 0"
      using o no True by (intro I(2)) (auto simp: out_ok_def token_wire_def)
    then show "\<not> fst (put_token buf cap off is_initial token (length token))"
      using o True by (auto simp: put_token_def out_ok_def Let_def split: prod.splits)
  qed
next
  case False
  then show ?thesis by (simp add: put_token_def token_wire_def puts_skip)
qed

lemma puts_len_pn:
  "puts (\<lambda>out off. put_len_pn out cap off payload_len pn pn_len) cap
     (lhdr_remaining payload_len pn_len \<le> QUIC_VARINT_MAX)
     (varint_wire (lhdr_remaining payload_len pn_len) @ be_bytes (unat pn_len) (unat pn))"
proof -
  have p: "puts (\<lambda>out off. if usz_add off (unat pn_len) > cap then (False, out, off)
        else case quic_pnum_encode (drop off out) pn (unat pn_len) of (w, sub) \<Rightarrow>
          (True, take off out @ sub, usz_add off w)) cap True (be_bytes (unat pn_len) (unat pn))"
    using unat_u8_less[of pn_len]
    by (intro putsI) (auto simp: out_ok_def quic_pnum_encode_def store_be_eq overwrite_drop)
  show ?thesis
    unfolding put_len_pn_def Let_def lhdr_remaining_def[symmetric]
    by (rule puts_eqI[OF puts_seq[OF puts_varint p]]) simp_all
qed

lemma puts_body:
  assumes "length token < 2 ^ 62"
  shows "puts (\<lambda>out off. put_body out cap off is_initial token (length token) payload_len pn pn_len) cap
    (lhdr_remaining payload_len pn_len \<le> QUIC_VARINT_MAX)
    (token_wire is_initial token @ varint_wire (lhdr_remaining payload_len pn_len) @ be_bytes (unat pn_len) (unat pn))"
  unfolding put_body_def
  by (rule puts_eqI[OF puts_seq[OF puts_token[OF assms] puts_len_pn]]) simp_all

lemma lhdr_put_prefix_eq:
  assumes cid: "length dcid \<le> 20" "length scid \<le> 20" and buf: "cap \<le> length out" "length out < 2 ^ 63"
    and le: "7 + length dcid + length scid \<le> cap"
  shows "lhdr_put_prefix out cap byte0 version dcid (of_nat (length dcid)) scid (of_nat (length scid)) pn_len =
      (7 + length dcid + length scid,
       overwrite out 0 (invariant_wire (quic_lhdr_byte0_pnlen byte0 pn_len) version dcid (of_nat (length dcid)) scid (of_nat (length scid))))"
proof -
  let ?d = "of_nat (length dcid) :: u8" and ?s = "of_nat (length scid) :: u8"
  have u: "unat ?d = length dcid" "unat ?s = length scid" using cid by (simp_all add: unat_of_nat)
  define h where "h = \<lparr>h_form = QUIC_FORM_SHORT, h_long_type = 0, h_version = version, h_dcid_len = ?d,
      h_dcid = set_cid (replicate 20 0) dcid ?d, h_scid_len = ?s, h_scid = set_cid (replicate 20 0) scid ?s\<rparr>"
  let ?inv = "\<lambda>b. invariant_wire b version dcid ?d scid ?s"
  have cw: "cid_wire (overwrite (replicate 20 0) 0 xs) (of_nat (length xs)) = cid_wire xs (of_nat (length xs))"
    if "length xs \<le> 20" for xs
    using that by (simp add: cid_wire_def overwrite_0 unat_of_nat)
  have "quic_header_build_long out cap h = (7 + length dcid + length scid, overwrite out 0 (?inv 0xC0))"
    using header_build_long_fits[of h cap out] cid buf le
    by (simp add: h_def u set_cid_def invariant_wire_def cw)
  moreover have "(overwrite out 0 (?inv 0xC0))[0 := b] = overwrite out 0 (?inv b)" for b
    by (simp add: overwrite_0 invariant_wire_def)
  moreover have "cids_ok ?d ?s" using cid by (simp add: cids_ok_def QUIC_MAX_CID_LEN_def word_le_nat_alt u)
  ultimately show ?thesis by (simp add: lhdr_put_prefix_def u h_def[symmetric] Let_def)
qed

lemma length_invariant_wire:
  "length dcid \<le> 20 \<Longrightarrow> length scid \<le> 20 \<Longrightarrow>
   length (invariant_wire b version dcid (of_nat (length dcid)) scid (of_nat (length scid))) = 7 + length dcid + length scid"
  by (simp add: invariant_wire_def cid_wire_def unat_of_nat)

lemma lhdr_build_eq:
  assumes cid: "length dcid \<le> 20" "length scid \<le> 20" and tok: "length token < 2 ^ 62"
    and buf: "cap \<le> length out" "length out < 2 ^ 63"
    and rem: "lhdr_remaining payload_len pn_len \<le> QUIC_VARINT_MAX"
    and fit: "length (lhdr_wire byte0 version dcid scid is_initial token payload_len pn pn_len) \<le> cap"
  shows "quic_lhdr_build byte0 version dcid (of_nat (length dcid)) scid (of_nat (length scid)) is_initial token
      (length token) payload_len pn pn_len out cap =
    (length (lhdr_wire byte0 version dcid scid is_initial token payload_len pn pn_len),
     overwrite out 0 (lhdr_wire byte0 version dcid scid is_initial token payload_len pn pn_len))"
    and "quic_lhdr_build_length_off byte0 version dcid (of_nat (length dcid)) scid (of_nat (length scid)) is_initial token
      (length token) pn_len out cap = Some (7 + length dcid + length scid + length (token_wire is_initial token))"
proof -
  let ?pl = "7 + length dcid + length scid"
  let ?i = "invariant_wire (quic_lhdr_byte0_pnlen byte0 pn_len) version dcid (of_nat (length dcid)) scid (of_nat (length scid))"
  let ?b = "token_wire is_initial token @ varint_wire (lhdr_remaining payload_len pn_len) @ be_bytes (unat pn_len) (unat pn)"
  note li = length_invariant_wire[OF cid]
  have le: "?pl \<le> cap" using fit by (simp add: lhdr_wire_def li)
  note pre = lhdr_put_prefix_eq[OF cid buf le]
  have ok: "out_ok (overwrite out 0 ?i) cap ?pl"
    using out_ok_step[of out cap 0 ?i] buf le li by (simp add: out_ok_def)
  then have "put_body (overwrite out 0 ?i) cap ?pl is_initial token (length token) payload_len pn pn_len =
      (True, overwrite (overwrite out 0 ?i) ?pl ?b, ?pl + length ?b)"
    using rem fit by (intro putsD(1)[OF puts_body[OF tok]]) (simp_all add: lhdr_wire_def li)
  moreover have "overwrite (overwrite out 0 ?i) ?pl ?b = overwrite out 0 (?i @ ?b)"
    using overwrite_overwrite[of 0 ?i out ?b] buf le li by simp
  ultimately show "quic_lhdr_build byte0 version dcid (of_nat (length dcid)) scid (of_nat (length scid)) is_initial token
      (length token) payload_len pn pn_len out cap =
    (length (lhdr_wire byte0 version dcid scid is_initial token payload_len pn pn_len),
     overwrite out 0 (lhdr_wire byte0 version dcid scid is_initial token payload_len pn pn_len))"
    by (simp add: quic_lhdr_build_def pre lhdr_wire_def li)
  show "quic_lhdr_build_length_off byte0 version dcid (of_nat (length dcid)) scid (of_nat (length scid)) is_initial token
      (length token) pn_len out cap = Some (7 + length dcid + length scid + length (token_wire is_initial token))"
    using putsD(1)[OF puts_token[OF tok] ok, of is_initial] fit by (simp add: quic_lhdr_build_length_off_def pre lhdr_wire_def li)
qed

lemma inittoken_get_wire:
  assumes "length token < 2 ^ 62" "length (varint_wire (of_nat (length token)) @ token) \<le> n"
    and "n \<le> length (varint_wire (of_nat (length token)) @ token @ rest)" "n < 2 ^ 63"
  shows "quic_inittoken_get (varint_wire (of_nat (length token)) @ token @ rest) n =
    Some ((token, length token), length (varint_wire (of_nat (length token)) @ token))"
proof -
  let ?v = "of_nat (length token) :: u64"
  have u: "unat ?v = length token" using assms by (simp add: unat_of_nat)
  then have v: "?v \<le> QUIC_VARINT_MAX" using assms by (simp add: varint_max_unat)
  have "quic_varint_take (varint_wire ?v @ token @ rest) n 0 = Some (?v, quic_varint_len ?v)"
    using takesD[OF takes_varint[OF v], of "[]" n "token @ rest"] assms by simp
  then show ?thesis
    using assms by (simp add: quic_inittoken_get_def take_tlen_def u)
qed

lemma lhdr_parse_fields:
  fixes version :: u32 and is_initial :: bool
  assumes cid: "length dcid \<le> 20" "length scid \<le> 20" and tok: "length token < 2 ^ 62"
    and rem: "rem \<le> QUIC_VARINT_MAX" and b0: "b0 AND 0x80 \<noteq> 0"
    and h: "length (h_dcid h) = 20" "length (h_scid h) = 20"
  defines "i \<equiv> invariant_wire b0 version dcid (of_nat (length dcid)) scid (of_nat (length scid))" and "t \<equiv> token_wire is_initial token"
  assumes n: "length (i @ t @ varint_wire rem) \<le> n" "n \<le> length (i @ t @ varint_wire rem @ rest)" "n < 2 ^ 63"
  shows "quic_lhdr_parse (i @ t @ varint_wire rem @ rest) n is_initial h =
    Some \<lparr>lv_dcid = dcid, lv_dcid_len = of_nat (length dcid), lv_scid = scid, lv_scid_len = of_nat (length scid),
          lv_token = (if is_initial then token else []), lv_token_len = (if is_initial then length token else 0),
          lv_length = rem, lv_pn_off = length (i @ t @ varint_wire rem)\<rparr>"
proof -
  let ?d = "of_nat (length dcid) :: u8" and ?s = "of_nat (length scid) :: u8"
  let ?tail = "varint_wire rem @ rest" and ?v = "long_view b0 version dcid (of_nat (length dcid)) scid (of_nat (length scid)) h"
  let ?pkt = "i @ t @ ?tail"
  have u: "unat ?d = length dcid" "unat ?s = length scid" using cid by (simp_all add: unat_of_nat)
  have li: "length i = 7 + length dcid + length scid" by (simp add: i_def invariant_wire_def cid_wire_def u)
  have len: "length i + length t + quic_varint_len rem \<le> n" "n \<le> length i + length t + quic_varint_len rem + length rest"
    using n by simp_all
  have "quic_header_parse ?pkt n h = Some (?v, 7 + length dcid + length scid)"
    using header_parse_invariant[OF b0, of ?d dcid ?s scid h version n "t @ ?tail"] cid h u len li n(3) by (simp add: i_def)
  moreover have "is_long_header ?pkt n"
    using b0 len li by (simp add: is_long_header_def i_def invariant_wire_def)
  moreover have "locate_cids ?pkt ?v = (dcid, scid)"
    by (simp add: locate_cids_def long_view_def u i_def invariant_wire_def cid_wire_def quic_put_be32_def eval_nat_numeral)
  ultimately have p: "quic_lhdr_parse_prefix ?pkt n h = Some ((?v, dcid, scid), 7 + length dcid + length scid)"
    by (simp add: quic_lhdr_parse_prefix_def)
  have r: "read_token ?pkt n is_initial (length i) =
      Some ((if is_initial then token else [], if is_initial then length token else 0), length i + length t)"
  proof (cases is_initial)
    case True
    have ne: "quic_varint_len (of_nat (length token)) \<noteq> 0"
      using tok varint_len_0[of "of_nat (length token)"] by (simp add: varint_max_unat unat_of_nat)
    have "quic_inittoken_get (drop (length i) ?pkt) (n - length i) = Some ((token, length token), length t)"
      using inittoken_get_wire[OF tok, of "n - length i" ?tail] len n(3) True by (simp add: t_def token_wire_def)
    then show ?thesis using True ne len n(3) by (simp add: read_token_def t_def token_wire_def)
  qed (simp add: read_token_def t_def token_wire_def)
  have v: "quic_varint_take ?pkt n (length i + length t) = Some (rem, length i + length t + quic_varint_len rem)"
    using takesD[OF takes_varint[OF rem], of "i @ t" n rest] len n(3) by simp
  show ?thesis
    using p r v by (simp add: quic_lhdr_parse_def read_token_and_length_def li[symmetric] long_view_def)
qed

lemma byte0_pnlen_long: "byte0 AND 0x80 \<noteq> 0 \<Longrightarrow> quic_lhdr_byte0_pnlen byte0 pn_len AND 0x80 \<noteq> 0"
  by (simp add: quic_lhdr_byte0_pnlen_def bit.conj_disj_distrib2 and.assoc)

lemma lhdr_parse_wire:
  assumes cid: "length dcid \<le> 20" "length scid \<le> 20" and tok: "length token < 2 ^ 62"
    and rem: "lhdr_remaining payload_len pn_len \<le> QUIC_VARINT_MAX" and long: "byte0 AND 0x80 \<noteq> 0"
    and h: "length (h_dcid h) = 20" "length (h_scid h) = 20"
    and n: "length (lhdr_wire byte0 version dcid scid is_initial token payload_len pn pn_len) \<le> n"
      "n \<le> length (lhdr_wire byte0 version dcid scid is_initial token payload_len pn pn_len @ rest)" "n < 2 ^ 63"
  shows "quic_lhdr_parse (lhdr_wire byte0 version dcid scid is_initial token payload_len pn pn_len @ rest) n is_initial h =
    Some \<lparr>lv_dcid = dcid, lv_dcid_len = of_nat (length dcid), lv_scid = scid, lv_scid_len = of_nat (length scid),
          lv_token = (if is_initial then token else []), lv_token_len = (if is_initial then length token else 0),
          lv_length = lhdr_remaining payload_len pn_len,
          lv_pn_off = length (lhdr_wire byte0 version dcid scid is_initial token payload_len pn pn_len) - unat pn_len\<rparr>"
  using lhdr_parse_fields[OF cid tok rem byte0_pnlen_long[OF long] h, where version = version and is_initial = is_initial
      and n = n and rest = "be_bytes (unat pn_len) (unat pn) @ rest"] n
  by (simp add: lhdr_wire_def)

section \<open>Short headers\<close>

definition short_wire :: "u8 \<Rightarrow> bytes \<Rightarrow> u8 \<Rightarrow> u64 \<Rightarrow> usz \<Rightarrow> bytes" where
  "short_wire b0 dcid dcid_len pn pn_len = b0 # take (unat dcid_len) dcid @ be_bytes pn_len (unat pn)"

lemma short_build_eq:
  assumes "unat dcid_len \<le> length dcid" "cap \<le> length buf" "cap < 2 ^ 63"
  shows "quic_short_build buf cap dcid dcid_len spin key_phase pn pn_len =
    (if 1 \<le> pn_len \<and> pn_len \<le> 4 \<and> 1 + unat dcid_len + pn_len \<le> cap
     then (1 + unat dcid_len + pn_len, overwrite buf 0 (short_wire (short_byte0 spin key_phase pn_len) dcid dcid_len pn pn_len))
     else (0, buf))"
proof (cases "1 \<le> pn_len \<and> pn_len \<le> 4 \<and> 1 + unat dcid_len + pn_len \<le> cap")
  case True
  let ?b0 = "short_byte0 spin key_phase pn_len" and ?d = "take (unat dcid_len) dcid"
  have "0 < length buf" using True assms(2) by linarith
  then have "overwrite (buf[0 := ?b0]) 1 ?d = overwrite buf 0 (?b0 # ?d)"
    using overwrite_update[of 0 buf ?b0 ?d] by simp
  moreover have "overwrite (overwrite buf 0 (?b0 # ?d)) (1 + unat dcid_len) ys = overwrite buf 0 ((?b0 # ?d) @ ys)" for ys
    using overwrite_overwrite[of 0 "?b0 # ?d" buf ys] True assms(1,2) by simp
  ultimately show ?thesis
    using True assms pn_bytes_eq[of pn_len pn]
    by (simp add: quic_short_build_def short_ok_def quic_put_bytes_def put_pn_def short_wire_def)
qed (auto simp: quic_short_build_def short_ok_def)

lemma byte0_agree:
  assumes "1 \<le> unat pn_len" "unat pn_len \<le> 4"
  shows "quic_shorthdr_byte0 (ucast spin) (ucast key_phase) pn_len = short_byte0 spin key_phase (unat pn_len)"
proof -
  have "of_nat (unat pn_len - 1) = pn_len - 1" using assms(1) by (simp add: of_nat_diff)
  moreover have "ucast (0x40 OR push_bit 5 (ucast spin AND 1) OR push_bit 2 (ucast key_phase AND 1) OR ucast p :: 32 word)
      = (0x40 OR push_bit 5 (spin AND 1) OR push_bit 2 (key_phase AND 1) OR p :: u8)" for p :: u8
    by (rule bit_word_eqI) (auto simp: bit_simps)
  ultimately show ?thesis by (simp add: quic_shorthdr_byte0_def short_byte0_def)
qed

lemma short_builders_agree:
  "quic_shorthdr_build (ucast spin) (ucast key_phase) dcid dcid_len pn pn_len buf cap =
    (case quic_short_build buf cap dcid dcid_len spin key_phase pn (unat pn_len) of
       (n, buf') \<Rightarrow> if n = 0 then None else Some (n, buf'))"
proof -
  have ok: "shorthdr_ok cap dcid_len pn_len = short_ok cap dcid_len (unat pn_len)"
    by (auto simp: shorthdr_ok_def short_ok_def word_less_nat_alt)
  show ?thesis
  proof (cases "short_ok cap dcid_len (unat pn_len)")
    case True
    then have p: "1 \<le> unat pn_len" "unat pn_len \<le> 4" by (auto simp: short_ok_def split: if_splits)
    then show ?thesis
      using True by (auto simp: quic_shorthdr_build_def quic_short_build_def ok byte0_agree shdr_put_pn_def put_pn_def
          split: prod.splits)
  qed (simp add: quic_shorthdr_build_def quic_short_build_def ok)
qed

section \<open>Properties\<close>

text \<open>C11: a long header that \<^verbatim>\<open>quic_lhdr_build\<close> writes is parsed back by \<^verbatim>\<open>quic_lhdr_parse\<close>,
  whatever follows it: the connection IDs, the token of an Initial packet, the Length field
  (packet number, payload and tag), and the offset at which the truncated packet number
  stands; the first byte carries the packet number length.\<close>

theorem long_header_roundtrip:
  assumes cid: "length dcid \<le> 20" "length scid \<le> 20" and tok: "length token < 2 ^ 62"
    and pn: "1 \<le> unat pn_len" "unat pn_len \<le> 4" and pay: "payload_len < 2 ^ 61" and long: "fb AND 0x80 \<noteq> 0"
    and buf: "cap \<le> length out" "length out < 2 ^ 63" and h: "length (h_dcid h) = 20" "length (h_scid h) = 20"
    and fit: "7 + length dcid + length scid + (if is_initial then 8 + length token else 0) + 8 + unat pn_len \<le> cap"
  shows "\<exists>w out'. quic_lhdr_build fb version dcid (of_nat (length dcid)) scid (of_nat (length scid)) is_initial token
      (length token) payload_len pn pn_len out cap = (w, out') \<and> w \<noteq> 0 \<and> w \<le> cap \<and> drop w out' = drop w out
    \<and> quic_lhdr_pn_len (rd out' 0) = unat pn_len
    \<and> quic_lhdr_parse out' (length out) is_initial h =
      Some \<lparr>lv_dcid = dcid, lv_dcid_len = of_nat (length dcid), lv_scid = scid, lv_scid_len = of_nat (length scid),
            lv_token = (if is_initial then token else []), lv_token_len = (if is_initial then length token else 0),
            lv_length = of_nat (unat pn_len + payload_len + 16), lv_pn_off = w - unat pn_len\<rparr>
    \<and> take (unat pn_len) (drop (w - unat pn_len) out') = be_bytes (unat pn_len) (unat pn)"
proof -
  let ?w = "lhdr_wire fb version dcid scid is_initial token payload_len pn pn_len"
  let ?rem = "lhdr_remaining payload_len pn_len"
  have r: "?rem = of_nat (unat pn_len + payload_len + 16)"
    unfolding lhdr_remaining_def by (metis of_nat_add of_nat_numeral of_nat_unat)
  have "unat ?rem = unat pn_len + payload_len + 16"
    unfolding r using pay unat_u8_less[of pn_len] by (simp only: unat_of_nat) simp
  then have rem: "?rem \<le> QUIC_VARINT_MAX" using pay unat_u8_less[of pn_len] by (simp add: varint_max_unat)
  have "length ?w \<le> cap"
    using fit cid varint_len_le_8[of "of_nat (length token)"] varint_len_le_8[of ?rem]
    by (auto simp: lhdr_wire_def invariant_wire_def cid_wire_def token_wire_def unat_of_nat)
  note b = lhdr_build_eq(1)[OF cid tok buf rem this]
  have "quic_lhdr_parse (?w @ drop (length ?w) out) (length out) is_initial h = Some
      \<lparr>lv_dcid = dcid, lv_dcid_len = of_nat (length dcid), lv_scid = scid, lv_scid_len = of_nat (length scid),
       lv_token = (if is_initial then token else []), lv_token_len = (if is_initial then length token else 0),
       lv_length = ?rem, lv_pn_off = length ?w - unat pn_len\<rparr>"
    using \<open>length ?w \<le> cap\<close> buf by (intro lhdr_parse_wire[OF cid tok rem long h]) simp_all
  moreover have "quic_lhdr_pn_len (rd (?w @ drop (length ?w) out) 0) = unat pn_len"
  proof -
    have "quic_lhdr_byte0_pnlen fb pn_len AND 3 = (pn_len - 1) AND 3"
      by (simp add: quic_lhdr_byte0_pnlen_def bit.conj_disj_distrib2 and.assoc)
    also have "\<dots> = take_bit 2 (pn_len - 1)" by (simp add: take_bit_eq_mask mask_eq_exp_minus_1)
    finally have "unat (quic_lhdr_byte0_pnlen fb pn_len AND 3) = unat (pn_len - 1) mod 4"
      by (simp only: unsigned_take_bit_eq) (simp add: take_bit_eq_mod)
    moreover have "unat (pn_len - 1) = unat pn_len - 1" using pn by (simp add: unat_sub_if')
    ultimately show ?thesis using pn by (simp add: quic_lhdr_pn_len_def lhdr_wire_def invariant_wire_def)
  qed
  moreover have "length ?w \<noteq> 0" by (simp add: lhdr_wire_def invariant_wire_def)
  moreover have "take (unat pn_len) (drop (length ?w - unat pn_len) (?w @ drop (length ?w) out)) =
      be_bytes (unat pn_len) (unat pn)"
    by (simp add: lhdr_wire_def)
  ultimately show ?thesis
    using b \<open>length ?w \<le> cap\<close> unfolding overwrite_0 r by simp
qed

theorem long_header_roundtrip_witness:
  "\<exists>w out'. quic_lhdr_build 0xC3 1 [1, 2, 3, 4] 4 [5, 6] 2 True [7, 7, 7] 3 100 0xABCD 2 (replicate 64 0) 64 = (w, out')
    \<and> w \<noteq> 0 \<and> map_option lv_token (quic_lhdr_parse out' 64 True
        \<lparr>h_form = QUIC_FORM_SHORT, h_long_type = 0, h_version = 0, h_dcid_len = 0, h_dcid = replicate 20 0,
         h_scid_len = 0, h_scid = replicate 20 0\<rparr>) = Some [7, 7, 7]"
  using long_header_roundtrip[where fb = "0xC3" and version = 1 and dcid = "[1, 2, 3, 4]" and scid = "[5, 6]"
      and token = "[7, 7, 7]" and pn_len = 2 and payload_len = 100 and pn = "0xABCD" and out = "replicate 64 0"
      and cap = 64 and is_initial = True and h = "\<lparr>h_form = QUIC_FORM_SHORT, h_long_type = 0, h_version = 0,
        h_dcid_len = 0, h_dcid = replicate 20 0, h_scid_len = 0, h_scid = replicate 20 0\<rparr>"]
  by (auto simp: numeral_3_eq_3)

text \<open>C15: the builder of the invariant header does not report every overflow. When the
  destination connection ID does not fit but the source connection ID would fit at the
  very start of the buffer, it returns the length of the latter, not 0, having
  overwritten the first byte of the header.\<close>

theorem header_build_long_result:
  assumes "unat (h_dcid_len h) \<le> length (h_dcid h)" "unat (h_scid_len h) \<le> length (h_scid h)"
    and "cap \<le> length buf" "length buf < 2 ^ 63"
  shows "fst (quic_header_build_long buf cap h) =
     (if 7 + unat (h_dcid_len h) + unat (h_scid_len h) \<le> cap then 7 + unat (h_dcid_len h) + unat (h_scid_len h)
      else if 5 \<le> cap \<and> cap < 6 + unat (h_dcid_len h) \<and> 1 + unat (h_scid_len h) \<le> cap then 1 + unat (h_scid_len h)
      else 0)"
  using header_build_long_fits[OF assms] header_build_long_over[OF assms] by simp

theorem header_build_long_result_witness:
  "fst (quic_header_build_long (replicate 16 0) 16
      \<lparr>h_form = QUIC_FORM_LONG, h_long_type = 0, h_version = 1, h_dcid_len = 20, h_dcid = replicate 20 0,
       h_scid_len = 8, h_scid = replicate 20 0\<rparr>) = 9"
  by (subst header_build_long_result) simp_all

text \<open>the two short header builders of the repository write the same packets: for the same
  arguments they succeed together, and then write the first byte, the connection ID and
  the packet number in big-endian order.\<close>

theorem short_header_builders:
  assumes "unat dcid_len \<le> length dcid" "cap \<le> length buf" "cap < 2 ^ 63"
  shows "quic_shorthdr_build (ucast spin) (ucast key_phase) dcid dcid_len pn pn_len buf cap =
    (if 1 \<le> unat pn_len \<and> unat pn_len \<le> 4 \<and> 1 + unat dcid_len + unat pn_len \<le> cap
     then Some (quic_short_build buf cap dcid dcid_len spin key_phase pn (unat pn_len)) else None)
   \<and> quic_short_build buf cap dcid dcid_len spin key_phase pn (unat pn_len) =
    (if 1 \<le> unat pn_len \<and> unat pn_len \<le> 4 \<and> 1 + unat dcid_len + unat pn_len \<le> cap
     then (1 + unat dcid_len + unat pn_len,
           overwrite buf 0 (short_byte0 spin key_phase (unat pn_len) # take (unat dcid_len) dcid @
             be_bytes (unat pn_len) (unat pn)))
     else (0, buf))"
  using short_build_eq[OF assms, of spin key_phase pn "unat pn_len"]
    short_builders_agree[of spin key_phase dcid dcid_len pn pn_len buf cap]
  by (simp add: short_wire_def)

theorem short_header_builders_witness:
  "quic_shorthdr_build (ucast (1 :: u8)) (ucast (0 :: u8)) [9, 8] 2 0x1234 2 (replicate 8 0) 8 =
     Some (5, [0x61, 9, 8, 0x12, 0x34] @ replicate 3 0)"
  using short_header_builders[of 2 "[9, 8]" 8 "replicate 8 0" 1 0 "0x1234" 2]
  by (simp add: overwrite_0 short_byte0_def be_bytes_2)

end
