(* ===== verification/Coalesce.thy ===== *)
theory Coalesce
  imports Packet_Header
begin

text \<open>
  Coalesced packets: the datagram splitter \<^verbatim>\<open>src/transport/packet/header/packet/coalesce.c\<close>, and
  its two users in \<^verbatim>\<open>src/transport/io/udp/udploop/\<close>, the receive loop that splits a datagram
  and the send loop that packs one. A pointer into the datagram is its offset. The
  lemmas show that splitting any datagram stays inside it and makes progress, and that
  it undoes packing.
\<close>

section \<open>coalesce.c\<close>

text \<open>The offset of \<^verbatim>\<open>data\<close> within the datagram, and the length.\<close>

record quic_coalesced =
  co_data :: usz
  co_len :: usz

record quic_coalesce_iter =
  ci_dgram :: bytes
  ci_total :: usz
  ci_off :: usz

definition quic_coalesce_begin :: "bytes \<Rightarrow> usz \<Rightarrow> quic_coalesce_iter" where
  "quic_coalesce_begin dgram len = \<lparr>ci_dgram = dgram, ci_total = len, ci_off = 0\<rparr>"

definition skip_cid :: "bytes \<Rightarrow> usz \<Rightarrow> usz \<Rightarrow> usz option" where
  "skip_cid buf n p =
     (if p \<ge> n then None
      else let p = usz_add p (1 + unat (rd buf p)) in if p \<le> n then Some p else None)"

definition has_token :: "u8 \<Rightarrow> bool" where
  "has_token byte0 \<longleftrightarrow> drop_bit 4 byte0 AND 0x3 = 0x0"

definition skip_token :: "bytes \<Rightarrow> usz \<Rightarrow> usz \<Rightarrow> usz option" where
  "skip_token buf n p =
     do { (tlen, p) \<leftarrow> quic_varint_take buf n p;
          let p = usz_add p (unat tlen) in if p \<le> n then Some p else None }"

definition skip_long_prefix :: "bytes \<Rightarrow> usz \<Rightarrow> usz \<Rightarrow> usz option" where
  "skip_long_prefix buf n p =
     (let p = usz_add p 5
      in if p > n then None else do { p \<leftarrow> skip_cid buf n p; skip_cid buf n p })"

definition skip_to_length :: "bytes \<Rightarrow> usz \<Rightarrow> usz \<Rightarrow> usz \<Rightarrow> usz option" where
  "skip_to_length buf n off p =
     do { p \<leftarrow> skip_long_prefix buf n p;
          if \<not> has_token (rd buf off) then Some p else skip_token buf n p }"

definition packet_bound :: "usz \<Rightarrow> usz \<Rightarrow> u64 \<Rightarrow> usz \<Rightarrow> usz" where
  "packet_bound p off len n =
     (if usz_add p (unat len) > n then 0 else usz_add (usz_sub p off) (unat len))"

definition long_packet_len :: "bytes \<Rightarrow> usz \<Rightarrow> usz \<Rightarrow> usz" where
  "long_packet_len buf n off =
     (case do { p \<leftarrow> skip_to_length buf n off off; quic_varint_take buf n p } of
        None \<Rightarrow> 0
      | Some (len, p) \<Rightarrow> packet_bound p off len n)"

definition coalesce_emit :: "quic_coalesce_iter \<Rightarrow> usz \<Rightarrow> (quic_coalesced \<times> quic_coalesce_iter) option" where
  "coalesce_emit it len =
     (if len = 0 then None
      else Some (\<lparr>co_data = ci_off it, co_len = len\<rparr>, it\<lparr>ci_off := usz_add (ci_off it) len\<rparr>))"

definition quic_coalesce_next :: "quic_coalesce_iter \<Rightarrow> (quic_coalesced \<times> quic_coalesce_iter) option" where
  "quic_coalesce_next it =
     (let rest = usz_sub (ci_total it) (ci_off it)
      in if ci_off it \<ge> ci_total it then None
         else if rd (ci_dgram it) (ci_off it) AND 0x80 = 0 then coalesce_emit it rest
         else coalesce_emit it (long_packet_len (ci_dgram it) (ci_total it) (ci_off it)))"

section \<open>udploop\<close>

text \<open>The loop \<^verbatim>\<open>while (n < max_pkts && quic_coalesce_next(&it, &pkt))\<close>, by the number of packets
  that may still be recorded.\<close>

primrec split_loop :: "nat \<Rightarrow> quic_coalesce_iter \<Rightarrow> quic_coalesced list" where
  "split_loop 0 it = []"
| "split_loop (Suc k) it =
     (case quic_coalesce_next it of None \<Rightarrow> [] | Some (pkt, it) \<Rightarrow> pkt # split_loop k it)"

definition quic_udploop_split :: "bytes \<Rightarrow> usz \<Rightarrow> usz \<Rightarrow> quic_coalesced list" where
  "quic_udploop_split buf dlen max_pkts = split_loop max_pkts (quic_coalesce_begin buf dlen)"

fun pack_loop :: "bytes \<Rightarrow> usz list \<Rightarrow> bytes \<Rightarrow> usz \<Rightarrow> usz \<Rightarrow> usz \<times> bytes" where
  "pack_loop src [] scratch cap off = (off, scratch)"
| "pack_loop src (l # ls) scratch cap off =
     (case quic_put_bytes scratch cap off src l of (ok, scratch, off) \<Rightarrow>
        if \<not> ok then (0, scratch) else pack_loop (drop l src) ls scratch cap off)"

definition quic_udploop_pack :: "bytes \<Rightarrow> usz list \<Rightarrow> bytes \<Rightarrow> usz \<Rightarrow> usz \<times> bytes" where
  "quic_udploop_pack pkts pkt_lens scratch cap = pack_loop pkts pkt_lens scratch cap 0"

section \<open>Packets on the wire\<close>

record lpkt =
  lp_b0 :: u8
  lp_version :: bytes
  lp_dcid :: bytes
  lp_scid :: bytes
  lp_token :: bytes
  lp_body :: bytes

definition lpkt_head :: "lpkt \<Rightarrow> bytes" where
  "lpkt_head p = lp_b0 p # lp_version p @ of_nat (length (lp_dcid p)) # lp_dcid p @
     of_nat (length (lp_scid p)) # lp_scid p"

definition lpkt_token :: "lpkt \<Rightarrow> bytes" where
  "lpkt_token p = (if has_token (lp_b0 p) then varint_wire (of_nat (length (lp_token p))) @ lp_token p else [])"

definition lpkt_wire :: "lpkt \<Rightarrow> bytes" where
  "lpkt_wire p = lpkt_head p @ lpkt_token p @ varint_wire (of_nat (length (lp_body p))) @ lp_body p"

definition lpkt_ok :: "lpkt \<Rightarrow> bool" where
  "lpkt_ok p \<longleftrightarrow> lp_b0 p AND 0x80 \<noteq> 0 \<and> length (lp_version p) = 4 \<and> length (lp_dcid p) < 256 \<and>
     length (lp_scid p) < 256 \<and> length (lp_token p) < 2 ^ 62 \<and> length (lp_body p) < 2 ^ 62"

text \<open>A short header packet runs to the end of its datagram.\<close>

definition spkt_ok :: "bytes \<Rightarrow> bool" where
  "spkt_ok s \<longleftrightarrow> s = [] \<or> hd s AND 0x80 = 0"

lemma skip_cid_wire:
  assumes "length c < 256" "length pre + 1 + length c \<le> n" "n < 2 ^ 63"
  shows "skip_cid (pre @ of_nat (length c) # c @ rest) n (length pre) = Some (length pre + 1 + length c)"
proof -
  have "unat (of_nat (length c) :: u8) = length c" using assms(1) by (simp add: unat_of_nat)
  then show ?thesis using assms by (simp add: skip_cid_def Let_def rd_append)
qed

lemma unat_of_nat_len: "k < 2 ^ 62 \<Longrightarrow> unat (of_nat k :: u64) = k \<and> of_nat k \<le> QUIC_VARINT_MAX"
  by (simp add: varint_max_unat unat_of_nat)

lemma long_packet_len_wire:
  assumes ok: "lpkt_ok p" and n: "length pre + length (lpkt_wire p) \<le> n"
    "n \<le> length pre + length (lpkt_wire p) + length rest" "n < 2 ^ 63"
  shows "long_packet_len (pre @ lpkt_wire p @ rest) n (length pre) = length (lpkt_wire p)"
proof -
  let ?d = "lp_dcid p" and ?s = "lp_scid p"
  let ?buf = "pre @ lpkt_wire p @ rest"
  let ?pre5 = "pre @ lp_b0 p # lp_version p"
  have ok': "length (lp_version p) = 4" "length ?d < 256" "length ?s < 256" "length (lp_token p) < 2 ^ 62"
    "length (lp_body p) < 2 ^ 62" using ok by (auto simp: lpkt_ok_def)
  let ?lw = "varint_wire (of_nat (length (lp_body p)))"
  have lw: "length (lpkt_wire p) = length (lpkt_head p) + length (lpkt_token p) + length ?lw + length (lp_body p)"
    by (simp add: lpkt_wire_def)
  have lh: "length (lpkt_head p) = 7 + length ?d + length ?s" using ok'(1) by (simp add: lpkt_head_def)
  have buf: "?buf = ?pre5 @ of_nat (length ?d) # ?d @ (of_nat (length ?s) # ?s @ lpkt_token p @ ?lw @ lp_body p @ rest)"
    by (simp add: lpkt_wire_def lpkt_head_def)
  have "skip_cid ?buf n (length ?pre5) = Some (length ?pre5 + 1 + length ?d)"
    unfolding buf using ok' n lw lh by (intro skip_cid_wire) simp_all
  moreover have "skip_cid ?buf n (length (?pre5 @ of_nat (length ?d) # ?d)) =
      Some (length (?pre5 @ of_nat (length ?d) # ?d) + 1 + length ?s)"
    using skip_cid_wire[of ?s "?pre5 @ of_nat (length ?d) # ?d" n "lpkt_token p @ ?lw @ lp_body p @ rest"] ok' n lw lh
    unfolding buf by simp
  moreover have "length ?pre5 = length pre + 5"
    "length (?pre5 @ of_nat (length ?d) # ?d) = length pre + 5 + 1 + length ?d"
    "length (pre @ lpkt_head p) = length pre + 5 + 1 + length ?d + 1 + length ?s"
    using ok'(1) lh by simp_all
  ultimately have cids: "skip_cid ?buf n (length pre + 5) = Some (length pre + 5 + 1 + length ?d)"
    "skip_cid ?buf n (length pre + 5 + 1 + length ?d) = Some (length (pre @ lpkt_head p))"
    by (simp_all only:)
  have "usz_add (length pre) 5 = length pre + 5" "\<not> length pre + 5 > n" using n lw lh by simp_all
  then have prefix: "skip_long_prefix ?buf n (length pre) = Some (length (pre @ lpkt_head p))"
    unfolding skip_long_prefix_def Let_def by (simp only: cids if_False Option.bind.bind_lunit simp_thms)
  have b0: "rd ?buf (length pre) = lp_b0 p" by (simp add: rd_append lpkt_wire_def lpkt_head_def)
  have to_len: "skip_to_length ?buf n (length pre) (length pre) = Some (length (pre @ lpkt_head p @ lpkt_token p))"
  proof (cases "has_token (lp_b0 p)")
    case True
    let ?v = "of_nat (length (lp_token p)) :: u64"
    note v = unat_of_nat_len[OF ok'(4)]
    have "quic_varint_take ((pre @ lpkt_head p) @ varint_wire ?v @ (lp_token p @ ?lw @ lp_body p @ rest)) n (length (pre @ lpkt_head p)) =
        Some (?v, length (pre @ lpkt_head p) + length (varint_wire ?v))"
      using n lw v True by (intro takesD[OF takes_varint]) (simp_all add: lpkt_token_def)
    moreover have "?buf = (pre @ lpkt_head p) @ varint_wire ?v @ (lp_token p @ ?lw @ lp_body p @ rest)"
      using True by (simp add: lpkt_wire_def lpkt_token_def)
    ultimately show ?thesis
      using prefix b0 True v n lw by (simp add: skip_to_length_def skip_token_def lpkt_token_def)
  next
    case False
    then show ?thesis using prefix b0 by (simp add: skip_to_length_def lpkt_token_def)
  qed
  note v = unat_of_nat_len[OF ok'(5)]
  have "quic_varint_take ((pre @ lpkt_head p @ lpkt_token p) @ ?lw @ (lp_body p @ rest)) n (length (pre @ lpkt_head p @ lpkt_token p)) =
      Some (of_nat (length (lp_body p)), length (pre @ lpkt_head p @ lpkt_token p) + length ?lw)"
    using n lw v by (intro takesD[OF takes_varint]) simp_all
  then have "quic_varint_take ?buf n (length (pre @ lpkt_head p @ lpkt_token p)) =
      Some (of_nat (length (lp_body p)), length (pre @ lpkt_head p @ lpkt_token p) + length ?lw)"
    by (simp add: lpkt_wire_def)
  with to_len show ?thesis
    using n lw v by (simp add: long_packet_len_def packet_bound_def)
qed


primrec spans :: "usz \<Rightarrow> bytes list \<Rightarrow> quic_coalesced list" where
  "spans off [] = []"
| "spans off (w # ws) = \<lparr>co_data = off, co_len = length w\<rparr> # spans (off + length w) ws"

lemma length_spans [simp]: "length (spans off ws) = length ws"
  by (induction ws arbitrary: off) auto

lemma lpkt_wire_long [simp]:
  assumes "lpkt_ok p"
  shows "rd (lpkt_wire p @ rest) 0 AND 0x80 \<noteq> 0" "lpkt_wire p \<noteq> []"
  using assms by (simp_all add: lpkt_wire_def lpkt_head_def lpkt_ok_def)

lemma coalesce_next_long:
  assumes "lpkt_ok p" "length pre + length (lpkt_wire p) \<le> t" "t \<le> length pre + length (lpkt_wire p) + length rest" "t < 2 ^ 63"
  shows "quic_coalesce_next \<lparr>ci_dgram = pre @ lpkt_wire p @ rest, ci_total = t, ci_off = length pre\<rparr> =
         Some (\<lparr>co_data = length pre, co_len = length (lpkt_wire p)\<rparr>,
               \<lparr>ci_dgram = pre @ lpkt_wire p @ rest, ci_total = t, ci_off = length pre + length (lpkt_wire p)\<rparr>)"
proof -
  have "rd (pre @ lpkt_wire p @ rest) (length pre) AND 0x80 \<noteq> 0"
    using lpkt_wire_long(1)[OF assms(1), of rest] by (simp add: rd_append)
  moreover have "0 < length (lpkt_wire p)" using lpkt_wire_long(2)[OF assms(1)] by simp
  moreover from this have "\<not> t \<le> length pre" using assms(2) by linarith
  ultimately show ?thesis
    using assms long_packet_len_wire[OF assms] by (simp add: quic_coalesce_next_def coalesce_emit_def)
qed

lemma coalesce_next_end [simp]: "ci_off it \<ge> ci_total it \<Longrightarrow> quic_coalesce_next it = None"
  by (simp add: quic_coalesce_next_def)

lemma split_loop_end [simp]: "ci_off it \<ge> ci_total it \<Longrightarrow> split_loop k it = []"
  by (cases k) simp_all

definition tail_pkt :: "bytes \<Rightarrow> bytes list" where
  "tail_pkt s = (if s = [] then [] else [s])"

lemma split_loop_short:
  assumes "spkt_ok s" "length pre + length s < 2 ^ 63"
  shows "split_loop (Suc k) \<lparr>ci_dgram = pre @ s @ junk, ci_total = length pre + length s, ci_off = length pre\<rparr> =
         spans (length pre) (tail_pkt s)"
proof (cases s)
  case (Cons b s')
  then have "rd (pre @ s @ junk) (length pre) AND 0x80 = 0" using assms(1) by (simp add: spkt_ok_def rd_append)
  then show ?thesis
    using Cons assms(2) by (simp add: quic_coalesce_next_def coalesce_emit_def tail_pkt_def)
qed (simp add: tail_pkt_def)

lemma split_loop_packets:
  assumes "list_all lpkt_ok ps" "spkt_ok s" "length ps < k"
    "length pre + length (concat (map lpkt_wire ps)) + length s < 2 ^ 63"
  shows "split_loop k \<lparr>ci_dgram = pre @ concat (map lpkt_wire ps) @ s @ junk,
            ci_total = length pre + length (concat (map lpkt_wire ps)) + length s, ci_off = length pre\<rparr> =
         spans (length pre) (map lpkt_wire ps @ tail_pkt s)"
  using assms
proof (induction ps arbitrary: pre k)
  case Nil
  then obtain k' where "k = Suc k'" by (cases k) auto
  then show ?case using Nil split_loop_short[of s pre k'] by simp
next
  case (Cons p ps)
  then obtain k' where k: "k = Suc k'" "length ps < k'" by (cases k) auto
  let ?rest = "concat (map lpkt_wire ps) @ s @ junk"
  let ?t = "length pre + length (lpkt_wire p) + length (concat (map lpkt_wire ps)) + length s"
  have "quic_coalesce_next \<lparr>ci_dgram = pre @ lpkt_wire p @ ?rest, ci_total = ?t, ci_off = length pre\<rparr> =
         Some (\<lparr>co_data = length pre, co_len = length (lpkt_wire p)\<rparr>,
               \<lparr>ci_dgram = pre @ lpkt_wire p @ ?rest, ci_total = ?t, ci_off = length pre + length (lpkt_wire p)\<rparr>)"
    using Cons.prems by (intro coalesce_next_long) simp_all
  moreover have "split_loop k' \<lparr>ci_dgram = (pre @ lpkt_wire p) @ ?rest,
      ci_total = length (pre @ lpkt_wire p) + length (concat (map lpkt_wire ps)) + length s,
      ci_off = length (pre @ lpkt_wire p)\<rparr> = spans (length (pre @ lpkt_wire p)) (map lpkt_wire ps @ tail_pkt s)"
    using Cons.prems k by (intro Cons.IH) simp_all
  ultimately show ?case using k by (simp add: add.assoc)
qed

lemma spans_bytes:
  "length pre = off \<Longrightarrow>
   map (\<lambda>c. take (co_len c) (drop (co_data c) (pre @ concat ws @ rest))) (spans off ws) = ws"
proof (induction ws arbitrary: off pre)
  case (Cons w ws)
  then show ?case using Cons.IH[of "pre @ w" "off + length w"] by simp
qed simp

lemma pack_loop_fits:
  assumes "off + length (concat ws) \<le> cap" "cap \<le> length scratch" "cap < 2 ^ 63"
  shows "pack_loop (concat ws @ rest) (map length ws) scratch cap off =
         (off + length (concat ws), overwrite scratch off (concat ws))"
  using assms
proof (induction ws arbitrary: scratch off)
  case Nil
  then show ?case by (simp add: overwrite_def)
next
  case (Cons w ws)
  then show ?case by (simp add: quic_put_bytes_def overwrite_overwrite)
qed

lemma pack_loop_over:
  assumes "off \<le> cap" "cap < off + length (concat ws)" "cap < 2 ^ 63" "list_all (\<lambda>w. length w < 2 ^ 63) ws"
  shows "fst (pack_loop (concat ws @ rest) (map length ws) scratch cap off) = 0"
  using assms
proof (induction ws arbitrary: scratch off)
  case (Cons w ws)
  then show ?case
    by (cases "cap < off + length w") (simp_all add: quic_put_bytes_def)
qed simp

text \<open>Splitting any bytes.\<close>

lemma skip_cid_sound: "skip_cid buf n p = Some p' \<Longrightarrow> p' \<le> n \<and> p < p'" if "n < 2 ^ 63"
proof -
  assume a: "skip_cid buf n p = Some p'"
  then have "p < n" by (auto simp: skip_cid_def split: if_splits)
  then have "usz_add p (1 + unat (rd buf p)) = p + (1 + unat (rd buf p))"
    using that unat_u8_less[of "rd buf p"] by (intro usz_add_nowrap) simp
  then show ?thesis using a by (auto simp: skip_cid_def Let_def split: if_splits)
qed

lemma long_packet_len_sound:
  assumes "off < n" "n < 2 ^ 63"
  shows "off + long_packet_len buf n off \<le> n"
proof (cases "do { p \<leftarrow> skip_to_length buf n off off; quic_varint_take buf n p }")
  case None
  then show ?thesis using assms by (simp add: long_packet_len_def)
next
  case (Some r)
  then obtain len p q where q: "skip_to_length buf n off off = Some q"
    and take: "quic_varint_take buf n q = Some (len, p)" and r: "r = (len, p)"
    by (cases r) (auto split: Option.bind_splits)
  then obtain q0 where q0: "skip_long_prefix buf n off = Some q0"
    and q1: "q = q0 \<or> skip_token buf n q0 = Some q"
    by (auto simp: skip_to_length_def split: Option.bind_splits if_splits)
  have "off < q0 \<and> q0 \<le> n"
    using q0 assms by (auto simp: skip_long_prefix_def Let_def split: Option.bind_splits if_splits dest!: skip_cid_sound[OF assms(2)])
  moreover have "q0 < q \<and> q \<le> n" if "skip_token buf n q0 = Some q"
  proof -
    from that obtain tlen p1 where 1: "quic_varint_take buf n q0 = Some (tlen, p1)"
      and 2: "usz_add p1 (unat tlen) = q" "q \<le> n"
      by (auto simp: skip_token_def Let_def split: Option.bind_splits if_splits)
    from varint_take_sound[OF 1] have p1: "q0 < p1" "p1 \<le> n" "tlen \<le> QUIC_VARINT_MAX"
      using \<open>off < q0 \<and> q0 \<le> n\<close> assms by simp_all
    then have "usz_add p1 (unat tlen) = p1 + unat tlen" using assms by (simp add: varint_max_unat)
    with 2 p1 show ?thesis by simp
  qed
  ultimately have qb: "off < q" "q \<le> n" using q1 by auto
  from varint_take_sound[OF take qb(2) assms(2)] have p: "q < p" "p \<le> n" "len \<le> QUIC_VARINT_MAX" by simp_all
  then have "usz_add p (unat len) = p + unat len" using assms by (simp add: varint_max_unat)
  moreover have "usz_sub p off = p - off" using p qb assms by simp
  moreover have "long_packet_len buf n off = packet_bound p off len n" using Some r by (simp add: long_packet_len_def)
  ultimately show ?thesis using p qb assms by (auto simp: packet_bound_def)
qed

text \<open>The packets follow one another from an offset on and end by the limit.\<close>

fun contiguous :: "usz \<Rightarrow> usz \<Rightarrow> quic_coalesced list \<Rightarrow> bool" where
  "contiguous off n [] \<longleftrightarrow> off \<le> n"
| "contiguous off n (c # cs) \<longleftrightarrow> co_data c = off \<and> 0 < co_len c \<and> contiguous (off + co_len c) n cs"

lemma coalesce_next_sound:
  assumes "quic_coalesce_next it = Some (c, it')" "ci_total it < 2 ^ 63"
  shows "co_data c = ci_off it \<and> 0 < co_len c \<and> ci_off it + co_len c \<le> ci_total it \<and>
         it' = it\<lparr>ci_off := ci_off it + co_len c\<rparr>"
proof -
  have lt: "ci_off it < ci_total it" using assms(1) by (auto simp: quic_coalesce_next_def Let_def split: if_splits)
  then have "usz_sub (ci_total it) (ci_off it) = ci_total it - ci_off it" using assms(2) by simp
  moreover note long_packet_len_sound[OF lt assms(2), of "ci_dgram it"]
  ultimately show ?thesis
    using assms lt by (auto simp: quic_coalesce_next_def coalesce_emit_def Let_def split: if_splits)
qed

lemma split_loop_contiguous:
  "ci_off it \<le> ci_total it \<Longrightarrow> ci_total it < 2 ^ 63 \<Longrightarrow> contiguous (ci_off it) (ci_total it) (split_loop k it)"
proof (induction k arbitrary: it)
  case (Suc k)
  show ?case
  proof (cases "quic_coalesce_next it")
    case (Some r)
    then obtain c it' where r: "quic_coalesce_next it = Some (c, it')" by (cases r) auto
    from coalesce_next_sound[OF this Suc.prems(2)] Suc.IH[of it'] show ?thesis
      using r Suc.prems by auto
  qed (use Suc in simp)
qed simp

lemma split_loop_length: "length (split_loop k it) \<le> k"
  by (induction k arbitrary: it) (auto split: option.splits)

text \<open>A Retry and a Version Negotiation packet have no Length field. The splitter reads one all the same: the first
  bytes of the Retry token, or of the version list, decide where it cuts, and the rest of the packet is reported as
  another packet.\<close>

lemma coalesce_without_length:
  fixes retry vneg :: bytes
  defines "retry \<equiv> [0xF0, 0, 0, 0, 1, 0, 0, 2, 8, 9] @ replicate 16 7" and "vneg \<equiv> [0x80, 0, 0, 0, 0, 0, 0, 0, 0, 0, 1]"
  shows "quic_udploop_split retry 26 4 = [\<lparr>co_data = 0, co_len = 10\<rparr>, \<lparr>co_data = 10, co_len = 16\<rparr>]"
    and "quic_udploop_split vneg 11 4 = [\<lparr>co_data = 0, co_len = 9\<rparr>, \<lparr>co_data = 9, co_len = 2\<rparr>]"
  unfolding assms by code_simp+


definition sample_initial :: lpkt where
  "sample_initial = \<lparr>lp_b0 = 0xC3, lp_version = [0, 0, 0, 1], lp_dcid = [1, 2], lp_scid = [3],
     lp_token = [9, 9], lp_body = [5, 6, 7]\<rparr>"

definition sample_pkts :: "bytes list" where
  "sample_pkts = [lpkt_wire sample_initial, [0x43, 8]]"


text \<open>C13: Splitting is safe on every datagram, malformed ones included: it records at most the
  number of packets asked for, and they are non-empty, follow one another without gap from
  offset 0, and never run past the received length.\<close>

theorem udploop_split_within:
  assumes "dlen < 2 ^ 63"
  shows "contiguous 0 dlen (quic_udploop_split buf dlen max_pkts) \<and>
         length (quic_udploop_split buf dlen max_pkts) \<le> max_pkts"
  using split_loop_contiguous[of "quic_coalesce_begin buf dlen" max_pkts] assms split_loop_length
  by (simp add: quic_udploop_split_def quic_coalesce_begin_def)

theorem udploop_split_within_witness:
  "contiguous 0 3 (quic_udploop_split [0x40, 0, 7] 3 1) \<and> length (quic_udploop_split [0x40, 0, 7] 3 1) = 1"
  using udploop_split_within[of 3 "[0x40, 0, 7]" 1]
  by (simp add: quic_udploop_split_def quic_coalesce_begin_def quic_coalesce_next_def coalesce_emit_def)

end
