(* ===== verification/Retry_Vneg.thy ===== *)
theory Retry_Vneg
  imports Packet_Header
begin

text \<open>
  Retry packets (\<^verbatim>\<open>src/transport/packet/header/packet/retry.c\<close>) and Version Negotiation packets
  (\<^verbatim>\<open>packet/vneg.c\<close>). The token and the version list are views into the parsed bytes. The
  lemmas are the round trips of both codecs and of the swapped-CID response.
\<close>

section \<open>retry.c\<close>

definition QUIC_RETRY_TAG_LEN :: usz where "QUIC_RETRY_TAG_LEN = 16"

record quic_retry_packet =
  r_version :: u32
  r_dcid_len :: u8
  r_dcid :: bytes
  r_scid_len :: u8
  r_scid :: bytes
  r_token :: bytes
  r_token_len :: usz
  r_tag :: bytes

definition retry_put_cid :: "bytes \<Rightarrow> usz \<Rightarrow> usz \<Rightarrow> bytes \<Rightarrow> u8 \<Rightarrow> put_res" where
  "retry_put_cid buf cap off cid len =
     (if usz_add (usz_add off 1) (unat len) > cap then (False, buf, off)
      else quic_put_bytes (buf[off := len]) cap (usz_add off 1) cid (unat len))"

definition retry_fits :: "usz \<Rightarrow> u8 \<Rightarrow> u8 \<Rightarrow> usz \<Rightarrow> bool" where
  "retry_fits cap dcid_len scid_len token_len \<longleftrightarrow>
     usz_add (usz_add (5 + 1 + unat dcid_len + 1 + unat scid_len) token_len) QUIC_RETRY_TAG_LEN \<le> cap"

definition quic_retry_build ::
  "bytes \<Rightarrow> usz \<Rightarrow> u32 \<Rightarrow> bytes \<Rightarrow> u8 \<Rightarrow> bytes \<Rightarrow> u8 \<Rightarrow> bytes \<Rightarrow> usz \<Rightarrow> bytes \<Rightarrow> usz \<times> bytes" where
  "quic_retry_build buf cap version dcid dcid_len scid scid_len token token_len tag =
     (if \<not> retry_fits cap dcid_len scid_len token_len then (0, buf)
      else
        let buf = overwrite (buf[0 := 0xF0]) 1 (quic_put_be32 version);
            (_, buf, off) = retry_put_cid buf cap 5 dcid dcid_len;
            (_, buf, off) = retry_put_cid buf cap off scid scid_len;
            (_, buf, off) = quic_put_bytes buf cap off token token_len;
            (_, buf, off) = quic_put_bytes buf cap off tag QUIC_RETRY_TAG_LEN
        in (off, buf))"

definition retry_take_cid :: "bytes \<Rightarrow> usz \<Rightarrow> usz \<Rightarrow> bytes \<Rightarrow> ((bytes \<times> u8) \<times> usz) option" where
  "retry_take_cid buf n off dst =
     (if off \<ge> n then None
      else let len = rd buf off
           in if len > QUIC_MAX_CID_LEN then None
              else do { (b, off) \<leftarrow> quic_take_bytes buf n (usz_add off 1) (unat len);
                        Some ((overwrite dst 0 b, len), off) })"

definition retry_head_ok :: "bytes \<Rightarrow> usz \<Rightarrow> bool" where
  "retry_head_ok buf n \<longleftrightarrow> (if n < 5 + 1 + 1 + QUIC_RETRY_TAG_LEN then False else rd buf 0 AND 0xF0 = 0xF0)"

definition retry_take_cids :: "bytes \<Rightarrow> usz \<Rightarrow> usz \<Rightarrow> quic_retry_packet \<Rightarrow> (quic_retry_packet \<times> usz) option" where
  "retry_take_cids buf n off r =
     do { (d, off) \<leftarrow> retry_take_cid buf n off (r_dcid r);
          (s, off) \<leftarrow> retry_take_cid buf n off (r_scid r);
          Some (r\<lparr>r_dcid := fst d, r_dcid_len := snd d, r_scid := fst s, r_scid_len := snd s\<rparr>, off) }"

definition take_token_tag :: "bytes \<Rightarrow> usz \<Rightarrow> usz \<Rightarrow> quic_retry_packet \<Rightarrow> quic_retry_packet option" where
  "take_token_tag buf n off r =
     (let tag_off = usz_sub n QUIC_RETRY_TAG_LEN
      in if off > tag_off then None
         else do { (t, _) \<leftarrow> quic_take_bytes buf n tag_off QUIC_RETRY_TAG_LEN;
                   Some (r\<lparr>r_token := take (tag_off - off) (drop off buf), r_token_len := tag_off - off,
                           r_tag := overwrite (r_tag r) 0 t\<rparr>) })"

definition retry_parse_after_head :: "bytes \<Rightarrow> usz \<Rightarrow> quic_retry_packet \<Rightarrow> quic_retry_packet option" where
  "retry_parse_after_head buf n r =
     do { (r, off) \<leftarrow> retry_take_cids buf n 5 (r\<lparr>r_version := be32_at buf 1\<rparr>);
          take_token_tag buf n off r }"

text \<open>The return value is the packet length \<^verbatim>\<open>n\<close> together with the filled structure, or 0.\<close>

definition quic_retry_parse :: "bytes \<Rightarrow> usz \<Rightarrow> quic_retry_packet \<Rightarrow> (quic_retry_packet \<times> usz) option" where
  "quic_retry_parse buf n r =
     (if \<not> retry_head_ok buf n then None
      else do { r \<leftarrow> retry_parse_after_head buf n r; Some (r, n) })"

section \<open>vneg.c\<close>

record quic_vneg_packet =
  v_dcid_len :: u8
  v_dcid :: bytes
  v_scid_len :: u8
  v_scid :: bytes
  v_versions :: bytes
  v_count :: usz

definition vneg_put_cid :: "bytes \<Rightarrow> usz \<Rightarrow> usz \<Rightarrow> bytes \<Rightarrow> u8 \<Rightarrow> put_res" where
  "vneg_put_cid buf cap off cid len =
     (if usz_add (usz_add off 1) (unat len) > cap then (False, buf, off)
      else quic_put_bytes (buf[off := len]) cap (usz_add off 1) cid (unat len))"

definition vneg_fits :: "usz \<Rightarrow> u8 \<Rightarrow> u8 \<Rightarrow> usz \<Rightarrow> bool" where
  "vneg_fits cap dcid_len scid_len count \<longleftrightarrow>
     count \<noteq> 0 \<and> usz_add (5 + 1 + unat dcid_len + 1 + unat scid_len) (count * 4 mod 2 ^ 64) \<le> cap"

fun put_versions :: "bytes \<Rightarrow> usz \<Rightarrow> u32 list \<Rightarrow> bytes \<times> usz" where
  "put_versions buf off [] = (buf, off)"
| "put_versions buf off (v # vs) = put_versions (overwrite buf off (quic_put_be32 v)) (usz_add off 4) vs"

definition quic_vneg_build ::
  "bytes \<Rightarrow> usz \<Rightarrow> bytes \<Rightarrow> u8 \<Rightarrow> bytes \<Rightarrow> u8 \<Rightarrow> u32 list \<Rightarrow> usz \<times> bytes" where
  "quic_vneg_build buf cap dcid dcid_len scid scid_len versions =
     (if \<not> vneg_fits cap dcid_len scid_len (length versions) then (0, buf)
      else
        let buf = overwrite (buf[0 := 0x80]) 1 (quic_put_be32 0);
            (_, buf, off) = vneg_put_cid buf cap 5 dcid dcid_len;
            (_, buf, off) = vneg_put_cid buf cap off scid scid_len;
            (buf, off) = put_versions buf off versions
        in (off, buf))"

definition vneg_take_cid :: "bytes \<Rightarrow> usz \<Rightarrow> usz \<Rightarrow> bytes \<Rightarrow> ((bytes \<times> u8) \<times> usz) option" where
  "vneg_take_cid buf n off dst =
     (if off \<ge> n then None
      else let len = rd buf off
           in if len > QUIC_MAX_CID_LEN then None
              else do { (b, off) \<leftarrow> quic_take_bytes buf n (usz_add off 1) (unat len);
                        Some ((overwrite dst 0 b, len), off) })"

definition version_zero :: "bytes \<Rightarrow> bool" where
  "version_zero buf \<longleftrightarrow> be32_at buf 1 = 0"

definition vneg_head_ok :: "bytes \<Rightarrow> usz \<Rightarrow> bool" where
  "vneg_head_ok buf n \<longleftrightarrow>
     (if n < 7 then False else if rd buf 0 AND 0x80 = 0 then False else version_zero buf)"

definition vneg_take_cids :: "bytes \<Rightarrow> usz \<Rightarrow> usz \<Rightarrow> quic_vneg_packet \<Rightarrow> (quic_vneg_packet \<times> usz) option" where
  "vneg_take_cids buf n off v =
     do { (d, off) \<leftarrow> vneg_take_cid buf n off (v_dcid v);
          (s, off) \<leftarrow> vneg_take_cid buf n off (v_scid v);
          Some (v\<lparr>v_dcid := fst d, v_dcid_len := snd d, v_scid := fst s, v_scid_len := snd s\<rparr>, off) }"

definition versions_whole :: "usz \<Rightarrow> bool" where
  "versions_whole rest \<longleftrightarrow> (if rest = 0 then False else rest mod 4 = 0)"

definition vneg_parse_after_head :: "bytes \<Rightarrow> usz \<Rightarrow> quic_vneg_packet \<Rightarrow> quic_vneg_packet option" where
  "vneg_parse_after_head buf n v =
     do { (v, off) \<leftarrow> vneg_take_cids buf n 5 v;
          let rest = usz_sub n off
          in if \<not> versions_whole rest then None
             else Some (v\<lparr>v_versions := take rest (drop off buf), v_count := rest div 4\<rparr>) }"

definition quic_vneg_parse :: "bytes \<Rightarrow> usz \<Rightarrow> quic_vneg_packet \<Rightarrow> (quic_vneg_packet \<times> usz) option" where
  "quic_vneg_parse buf n v =
     (if \<not> vneg_head_ok buf n then None
      else do { v \<leftarrow> vneg_parse_after_head buf n v; Some (v, n) })"

definition quic_vneg_respond ::
  "bytes \<Rightarrow> usz \<Rightarrow> bytes \<Rightarrow> u8 \<Rightarrow> bytes \<Rightarrow> u8 \<Rightarrow> u32 list \<Rightarrow> usz \<times> bytes" where
  "quic_vneg_respond buf cap recv_dcid recv_dcid_len recv_scid recv_scid_len versions =
     quic_vneg_build buf cap recv_scid recv_scid_len recv_dcid recv_dcid_len versions"

section \<open>Lemmas\<close>

lemma puts_retry_cid:
  assumes "unat len \<le> length cid"
  shows "puts (\<lambda>buf off. retry_put_cid buf cap off cid len) cap True (cid_wire cid len)"
proof (rule putsI)
  fix buf :: bytes and off
  assume o: "out_ok buf cap off" "off + length (cid_wire cid len) \<le> cap"
  then have len: "off + 1 + unat len \<le> cap" using assms by (simp add: cid_wire_def)
  then have "off < length buf" using o by (simp add: out_ok_def)
  then have "overwrite (buf[off := len]) (off + 1) (take (unat len) cid) = overwrite buf off (cid_wire cid len)"
    by (simp add: overwrite_update cid_wire_def)
  then show "retry_put_cid buf cap off cid len = (True, overwrite buf off (cid_wire cid len), off + length (cid_wire cid len))"
    using o(1) len assms by (simp add: retry_put_cid_def quic_put_bytes_def out_ok_def cid_wire_def)
next
  fix buf :: bytes and off
  assume "out_ok buf cap off" and "\<not> (True \<and> off + length (cid_wire cid len) \<le> cap)"
  then show "\<not> fst (retry_put_cid buf cap off cid len)"
    using assms unat_u8_less[of len] by (simp add: retry_put_cid_def out_ok_def cid_wire_def)
qed

lemma vneg_put_cid_eq: "vneg_put_cid = retry_put_cid"
  by (intro ext) (simp add: vneg_put_cid_def retry_put_cid_def)

lemma vneg_take_cid_eq: "vneg_take_cid = retry_take_cid"
  by (intro ext) (simp add: vneg_take_cid_def retry_take_cid_def)

text \<open>A writer that runs just behind what has been written so far.\<close>

lemma puts_behind:
  assumes "puts k cap True ws" "length p + length ws \<le> cap" "cap \<le> length buf" "length buf < 2 ^ 63"
  shows "k (overwrite buf 0 p) (length p) = (True, overwrite buf 0 (p @ ws), length p + length ws)"
proof -
  have "out_ok (overwrite buf 0 p) cap (length p)" using assms(2-) by (simp add: out_ok_def)
  from putsD(1)[OF assms(1) this TrueI assms(2)]
  show ?thesis using overwrite_overwrite[of 0 p buf ws] assms(2,3) by simp
qed

lemma takes_retry_cid:
  assumes "unat len \<le> length cid" "unat len \<le> 20" "unat len \<le> length dst"
  shows "takes (\<lambda>buf n off. retry_take_cid buf n off dst) (cid_wire cid len) (overwrite dst 0 (take (unat len) cid), len)"
proof (rule takesI)
  fix pre rest :: bytes and n
  assume a: "length pre + length (cid_wire cid len) \<le> n"
    "n \<le> length pre + length (cid_wire cid len) + length rest" "n < 2 ^ 63"
  let ?b = "pre @ cid_wire cid len @ rest"
  have rd: "rd ?b (length pre) = len" by (simp add: rd_append cid_wire_def)
  have lt: "length pre + 1 + unat len \<le> n" using a(1) assms(1) by (simp add: cid_wire_def)
  have "\<not> len > QUIC_MAX_CID_LEN" using assms(2) by (simp add: QUIC_MAX_CID_LEN_def word_less_nat_alt)
  moreover have "quic_take_bytes ?b n (length pre + 1) (unat len) = Some (take (unat len) cid, length pre + 1 + unat len)"
    using lt a(3) assms(1) by (simp add: quic_take_bytes_def cid_wire_def)
  ultimately show "retry_take_cid ?b n (length pre) dst = Some ((overwrite dst 0 (take (unat len) cid), len), length pre + length (cid_wire cid len))"
    using lt a(3) assms(1) by (simp add: retry_take_cid_def rd Let_def cid_wire_def)
qed

lemma takes_pair_cids:
  assumes "unat dl \<le> length d" "unat dl \<le> 20" "unat dl \<le> length dst" "unat sl \<le> length s" "unat sl \<le> 20" "unat sl \<le> length dst'"
    and "length pre + length (cid_wire d dl) + length (cid_wire s sl) \<le> n"
    and "n \<le> length pre + length (cid_wire d dl) + length (cid_wire s sl) + length rest" "n < 2 ^ 63"
    and "buf = pre @ cid_wire d dl @ cid_wire s sl @ rest"
  shows "retry_take_cid buf n (length pre) dst = Some ((overwrite dst 0 (take (unat dl) d), dl), length pre + length (cid_wire d dl))"
    and "retry_take_cid buf n (length pre + length (cid_wire d dl)) dst' =
       Some ((overwrite dst' 0 (take (unat sl) s), sl), length pre + length (cid_wire d dl) + length (cid_wire s sl))"
  using takesD[OF takes_retry_cid[OF assms(1-3)], of pre n "cid_wire s sl @ rest"]
    takesD[OF takes_retry_cid[OF assms(4-6)], of "pre @ cid_wire d dl" n rest] assms(7-9)
  unfolding assms(10) by (simp_all add: add.assoc)


lemma first_five:
  "5 \<le> length buf \<Longrightarrow> overwrite (buf[0 := b]) 1 (quic_put_be32 v) = overwrite buf 0 (b # quic_put_be32 v)"
  using overwrite_update[of 0 buf b "quic_put_be32 v"] by (cases buf) simp_all

lemma retry_build_eq:
  fixes version :: u32
  assumes len: "unat dcid_len \<le> length dcid" "unat scid_len \<le> length scid" "token_len \<le> length token" "length tag = 16"
    and buf: "cap \<le> length buf" "length buf < 2 ^ 63" and tok: "token_len < 2 ^ 63"
  defines "w \<equiv> invariant_wire 0xF0 version dcid dcid_len scid scid_len @ take token_len token @ tag"
  shows "quic_retry_build buf cap version dcid dcid_len scid scid_len token token_len tag =
    (if length w \<le> cap then (length w, overwrite buf 0 w) else (0, buf))"
proof -
  let ?d = "cid_wire dcid dcid_len" and ?s = "cid_wire scid scid_len" and ?t = "take token_len token"
  let ?p = "0xF0 # quic_put_be32 version"
  have lw: "length w = 5 + 1 + unat dcid_len + 1 + unat scid_len + token_len + 16"
    using len by (simp add: w_def invariant_wire_def length_cid_wire)
  have fits: "retry_fits cap dcid_len scid_len token_len \<longleftrightarrow> length w \<le> cap"
    unfolding retry_fits_def QUIC_RETRY_TAG_LEN_def lw
    using unat_u8_less[of dcid_len] unat_u8_less[of scid_len] tok by simp
  show ?thesis
  proof (cases "length w \<le> cap")
    case True
    note sp = puts_behind[OF _ _ buf]
    have 1: "retry_put_cid (overwrite buf 0 ?p) cap 5 dcid dcid_len = (True, overwrite buf 0 (?p @ ?d), 5 + length ?d)"
      using sp[OF puts_retry_cid[OF len(1)], of ?p] True lw len by (simp add: length_cid_wire)
    have 2: "retry_put_cid (overwrite buf 0 (?p @ ?d)) cap (5 + length ?d) scid scid_len =
        (True, overwrite buf 0 (?p @ ?d @ ?s), 5 + length ?d + length ?s)"
      using sp[OF puts_retry_cid[OF len(2)], of "?p @ ?d"] True lw len by (simp add: length_cid_wire)
    have 3: "quic_put_bytes (overwrite buf 0 (?p @ ?d @ ?s)) cap (5 + length ?d + length ?s) token token_len =
        (True, overwrite buf 0 (?p @ ?d @ ?s @ ?t), 5 + length ?d + length ?s + length ?t)"
      using sp[OF puts_bytes[of token_len token cap], of "?p @ ?d @ ?s"] True lw len tok by (simp add: length_cid_wire add.assoc)
    have 4: "quic_put_bytes (overwrite buf 0 (?p @ ?d @ ?s @ ?t)) cap (5 + length ?d + length ?s + length ?t) tag 16 =
        (True, overwrite buf 0 w, length w)"
      using sp[OF puts_bytes[of 16 tag cap], of "?p @ ?d @ ?s @ ?t"] True lw len
      by (simp add: length_cid_wire w_def invariant_wire_def add.assoc)
    have "5 \<le> length buf" using True lw buf by simp
    then show ?thesis
      unfolding quic_retry_build_def QUIC_RETRY_TAG_LEN_def Let_def fits
      using True by (simp only: first_five 1 2 3 4 prod.case not_True_eq_False if_False if_True)
  qed (simp add: quic_retry_build_def fits)
qed

lemma drop_head_cids: "drop (5 + length d + length s) ((b # quic_put_be32 v) @ d @ s @ rest) = rest"
  by (simp add: quic_put_be32_def eval_nat_numeral)

lemma retry_parse_wire:
  fixes version :: u32 and token :: bytes
  assumes len: "length dcid \<le> 20" "length scid \<le> 20" "length tag = 16" and r: "length (r_dcid r) = 20" "length (r_scid r) = 20" "length (r_tag r) = 16"
  defines "w \<equiv> invariant_wire 0xF0 version dcid (of_nat (length dcid)) scid (of_nat (length scid)) @ token @ tag"
  assumes n: "length w < 2 ^ 63"
  shows "quic_retry_parse (w @ rest) (length w) r = Some (r\<lparr>r_version := version,
     r_dcid := overwrite (r_dcid r) 0 dcid, r_dcid_len := of_nat (length dcid),
     r_scid := overwrite (r_scid r) 0 scid, r_scid_len := of_nat (length scid),
     r_token := token, r_token_len := length token, r_tag := tag\<rparr>, length w)"
proof -
  let ?dl = "of_nat (length dcid) :: u8" and ?sl = "of_nat (length scid) :: u8"
  have u: "unat ?dl = length dcid" "unat ?sl = length scid" using len by (simp_all add: unat_of_nat)
  let ?d = "cid_wire dcid ?dl" and ?s = "cid_wire scid ?sl" and ?p = "0xF0 # quic_put_be32 version"
  have l: "length ?d = Suc (length dcid)" "length ?s = Suc (length scid)" using u by (simp_all add: cid_wire_def)
  have lw: "length w = 5 + length ?d + length ?s + length token + 16" using len(3) by (simp add: w_def invariant_wire_def)
  have lp: "length ?p = 5" by simp
  have w: "w @ rest = ?p @ ?d @ ?s @ (token @ tag @ rest)" by (simp add: w_def invariant_wire_def)
  have cids: "retry_take_cid (w @ rest) (length w) 5 (r_dcid r) = Some ((overwrite (r_dcid r) 0 dcid, ?dl), 5 + length ?d)"
    "retry_take_cid (w @ rest) (length w) (5 + length ?d) (r_scid r) =
       Some ((overwrite (r_scid r) 0 scid, ?sl), 5 + length ?d + length ?s)"
    using takes_pair_cids[of ?dl dcid "r_dcid r" ?sl scid "r_scid r" ?p "length w", OF _ _ _ _ _ _ _ _ _ w] u len r n lw lp by simp_all
  have head: "retry_head_ok (w @ rest) (length w)"
    using lw l by (simp add: retry_head_ok_def QUIC_RETRY_TAG_LEN_def w)
  have ver: "be32_at (w @ rest) 1 = version"
    unfolding w using be32_at_put[of "0xF0" version] by simp
  have "usz_sub (length w) 16 = 5 + length ?d + length ?s + length token" using n lw by simp
  moreover have "quic_take_bytes (w @ rest) (length w) (5 + length ?d + length ?s + length token) 16 = Some (tag, length w)"
  proof -
    have "drop (5 + length ?d + length ?s + length token) (w @ rest) = tag @ rest"
      using drop_append[of "5 + length ?d + length ?s + length token" "?p @ ?d @ ?s @ token" "tag @ rest"]
      unfolding w by simp
    then show ?thesis using n lw len(3) by (simp add: quic_take_bytes_def)
  qed
  moreover have "take (length token) (drop (5 + length ?d + length ?s) (w @ rest)) = token"
    unfolding w drop_head_cids by simp
  ultimately have "take_token_tag (w @ rest) (length w) (5 + length ?d + length ?s) r' =
      Some (r'\<lparr>r_token := token, r_token_len := length token, r_tag := overwrite (r_tag r') 0 tag\<rparr>)" for r'
    by (simp add: take_token_tag_def QUIC_RETRY_TAG_LEN_def Let_def)
  then show ?thesis
    using head ver cids len(3) r(3)
    by (simp add: quic_retry_parse_def retry_parse_after_head_def retry_take_cids_def overwrite_0)
qed

lemma put_versions_eq:
  assumes "off + 4 * length vs \<le> length buf" "length buf < 2 ^ 63"
  shows "put_versions buf off vs = (overwrite buf off (concat (map quic_put_be32 vs)), off + 4 * length vs)"
  using assms
proof (induction vs arbitrary: buf off)
  case Nil
  then show ?case by (simp add: overwrite_def)
next
  case (Cons v vs)
  then show ?case using overwrite_overwrite[of off "quic_put_be32 v" buf] by simp
qed

lemma length_versions [simp]: "length (concat (map quic_put_be32 vs)) = 4 * length vs"
  by (induction vs) simp_all

lemma vneg_build_eq:
  assumes len: "unat dcid_len \<le> length dcid" "unat scid_len \<le> length scid" "length vs < 2 ^ 60"
    and buf: "cap \<le> length buf" "length buf < 2 ^ 63"
  defines "w \<equiv> invariant_wire 0x80 0 dcid dcid_len scid scid_len @ concat (map quic_put_be32 vs)"
  shows "quic_vneg_build buf cap dcid dcid_len scid scid_len vs =
    (if vs \<noteq> [] \<and> length w \<le> cap then (length w, overwrite buf 0 w) else (0, buf))"
proof -
  let ?d = "cid_wire dcid dcid_len" and ?s = "cid_wire scid scid_len"
  let ?p = "0x80 # quic_put_be32 0"
  have lw: "length w = 5 + 1 + unat dcid_len + 1 + unat scid_len + 4 * length vs"
    using len by (simp add: w_def invariant_wire_def length_cid_wire)
  have fits: "vneg_fits cap dcid_len scid_len (length vs) \<longleftrightarrow> vs \<noteq> [] \<and> length w \<le> cap"
    unfolding vneg_fits_def lw using unat_u8_less[of dcid_len] unat_u8_less[of scid_len] len(3) by (simp add: mult.commute)
  show ?thesis
  proof (cases "vs \<noteq> [] \<and> length w \<le> cap")
    case True
    note sp = puts_behind[OF _ _ buf]
    have 1: "retry_put_cid (overwrite buf 0 ?p) cap 5 dcid dcid_len = (True, overwrite buf 0 (?p @ ?d), 5 + length ?d)"
      using sp[OF puts_retry_cid[OF len(1)], of ?p] True lw len by (simp add: length_cid_wire)
    have 2: "retry_put_cid (overwrite buf 0 (?p @ ?d)) cap (5 + length ?d) scid scid_len =
        (True, overwrite buf 0 (?p @ ?d @ ?s), 5 + length ?d + length ?s)"
      using sp[OF puts_retry_cid[OF len(2)], of "?p @ ?d"] True lw len by (simp add: length_cid_wire)
    have 3: "put_versions (overwrite buf 0 (?p @ ?d @ ?s)) (5 + length ?d + length ?s) vs = (overwrite buf 0 w, length w)"
      using overwrite_overwrite[of 0 "?p @ ?d @ ?s" buf "concat (map quic_put_be32 vs)"] True lw len buf
      by (subst put_versions_eq) (simp_all add: length_cid_wire w_def invariant_wire_def add.assoc)
    have "5 \<le> length buf" using True lw buf by simp
    then show ?thesis
      unfolding quic_vneg_build_def vneg_put_cid_eq Let_def fits
      using True by (simp only: first_five 1 2 3 prod.case) simp
  qed (auto simp: quic_vneg_build_def fits)
qed

lemma vneg_parse_wire:
  assumes len: "length dcid \<le> 20" "length scid \<le> 20" "vs \<noteq> []" and v: "length (v_dcid v) = 20" "length (v_scid v) = 20"
  defines "w \<equiv> invariant_wire 0x80 0 dcid (of_nat (length dcid)) scid (of_nat (length scid)) @ concat (map quic_put_be32 vs)"
  assumes n: "length w < 2 ^ 63"
  shows "quic_vneg_parse (w @ rest) (length w) v = Some (v\<lparr>
     v_dcid := overwrite (v_dcid v) 0 dcid, v_dcid_len := of_nat (length dcid),
     v_scid := overwrite (v_scid v) 0 scid, v_scid_len := of_nat (length scid),
     v_versions := concat (map quic_put_be32 vs), v_count := length vs\<rparr>, length w)"
proof -
  let ?dl = "of_nat (length dcid) :: u8" and ?sl = "of_nat (length scid) :: u8"
  have u: "unat ?dl = length dcid" "unat ?sl = length scid" using len by (simp_all add: unat_of_nat)
  let ?d = "cid_wire dcid ?dl" and ?s = "cid_wire scid ?sl" and ?p = "0x80 # quic_put_be32 0"
  let ?vs = "concat (map quic_put_be32 vs)"
  have l: "length ?d = Suc (length dcid)" "length ?s = Suc (length scid)" using u by (simp_all add: cid_wire_def)
  have lw: "length w = 5 + length ?d + length ?s + 4 * length vs" by (simp add: w_def invariant_wire_def)
  have lp: "length ?p = 5" by simp
  have w: "w @ rest = ?p @ ?d @ ?s @ (?vs @ rest)" by (simp add: w_def invariant_wire_def)
  have cids: "retry_take_cid (w @ rest) (length w) 5 (v_dcid v) = Some ((overwrite (v_dcid v) 0 dcid, ?dl), 5 + length ?d)"
    "retry_take_cid (w @ rest) (length w) (5 + length ?d) (v_scid v) =
       Some ((overwrite (v_scid v) 0 scid, ?sl), 5 + length ?d + length ?s)"
    using takes_pair_cids[of ?dl dcid "v_dcid v" ?sl scid "v_scid v" ?p "length w", OF _ _ _ _ _ _ _ _ _ w] u len v n lw lp by simp_all
  have "be32_at (w @ rest) 1 = 0"
    unfolding w using be32_at_put[of "0x80" 0] by simp
  then have head: "vneg_head_ok (w @ rest) (length w)"
    using lw l by (simp add: vneg_head_ok_def version_zero_def w)
  have "usz_sub (length w) (5 + length ?d + length ?s) = 4 * length vs" using n lw by simp
  moreover have "versions_whole (4 * length vs)" using len(3) by (simp add: versions_whole_def)
  moreover have "take (4 * length vs) (drop (5 + length ?d + length ?s) (w @ rest)) = ?vs"
    unfolding w drop_head_cids by simp
  ultimately show ?thesis
    using head cids
    by (simp add: quic_vneg_parse_def vneg_parse_after_head_def vneg_take_cids_def vneg_take_cid_eq Let_def)
qed


text \<open>C14: A Retry packet is rebuilt from its bytes: the builder succeeds exactly when the packet
  fits, writes nothing otherwise, and the parser applied to the packet it wrote returns the
  version, both connection IDs, the token and the integrity tag.\<close>

theorem retry_packet_roundtrip:
  assumes "length dcid \<le> 20" "length scid \<le> 20" "length tag = 16" "length token < 2 ^ 62"
    and "cap \<le> length buf" "length buf < 2 ^ 63"
    and "length (r_dcid r) = 20" "length (r_scid r) = 20" "length (r_tag r) = 16"
    and "k = 7 + length dcid + length scid + length token + 16"
  shows "case quic_retry_build buf cap version dcid (of_nat (length dcid)) scid (of_nat (length scid)) token (length token) tag of
     (n, buf') \<Rightarrow>
       if k \<le> cap
       then n = k \<and> drop k buf' = drop k buf \<and>
         quic_retry_parse buf' n r = Some (\<lparr>r_version = version,
           r_dcid_len = of_nat (length dcid), r_dcid = overwrite (r_dcid r) 0 dcid,
           r_scid_len = of_nat (length scid), r_scid = overwrite (r_scid r) 0 scid,
           r_token = token, r_token_len = length token, r_tag = tag\<rparr>, n)
       else n = 0 \<and> buf' = buf"
proof -
  let ?dl = "of_nat (length dcid) :: u8" and ?sl = "of_nat (length scid) :: u8"
  have u: "unat ?dl = length dcid" "unat ?sl = length scid" using assms(1,2) by (simp_all add: unat_of_nat)
  let ?w = "invariant_wire 0xF0 version dcid ?dl scid ?sl @ token @ tag"
  have lw: "length ?w = k" using u assms(3,10) by (simp add: invariant_wire_def cid_wire_def)
  have b: "quic_retry_build buf cap version dcid ?dl scid ?sl token (length token) tag =
      (if k \<le> cap then (k, overwrite buf 0 ?w) else (0, buf))"
    using retry_build_eq[of ?dl dcid ?sl scid "length token" token tag cap buf version] u assms(3-6) lw by simp
  show ?thesis
  proof (cases "k \<le> cap")
    case True
    then have "quic_retry_parse (?w @ drop k buf) k r = Some (r\<lparr>r_version := version,
       r_dcid := overwrite (r_dcid r) 0 dcid, r_dcid_len := ?dl, r_scid := overwrite (r_scid r) 0 scid, r_scid_len := ?sl,
       r_token := token, r_token_len := length token, r_tag := tag\<rparr>, k)"
      using retry_parse_wire[OF assms(1-3,7-9), of version token "drop k buf"] assms(5,6) unfolding lw by simp
    then show ?thesis using True lw assms(5) unfolding b by (simp add: overwrite_0)
  qed (simp add: b)
qed

theorem retry_packet_roundtrip_witness:
  "case quic_retry_build (replicate 40 0) 40 1 [1, 2] (of_nat (length [1, 2 :: u8])) [3] (of_nat (length [3 :: u8]))
       [7, 7, 7] (length [7, 7, 7 :: u8]) (replicate 16 9) of
     (n, buf') \<Rightarrow> n = 29 \<and> map_option (\<lambda>(r, n). (r_token r, n)) (quic_retry_parse buf' n
        \<lparr>r_version = 0, r_dcid_len = 0, r_dcid = replicate 20 0, r_scid_len = 0, r_scid = replicate 20 0,
         r_token = [], r_token_len = 0, r_tag = replicate 16 0\<rparr>) = Some ([7, 7, 7], 29)"
  using retry_packet_roundtrip[of "[1, 2]" "[3]" "replicate 16 9" "[7, 7, 7]" 40 "replicate 40 0"
      "\<lparr>r_version = 0, r_dcid_len = 0, r_dcid = replicate 20 0, r_scid_len = 0, r_scid = replicate 20 0,
         r_token = [], r_token_len = 0, r_tag = replicate 16 0\<rparr>" 29 1]
  by auto

text \<open>A Version Negotiation response reaches the peer that asked. For a received long header
  with connection IDs \<open>dcid\<close> and \<open>scid\<close>, the response packet parses, both as Version
  Negotiation and as an invariant long header with version 0, with the two connection IDs
  exchanged and with the offered versions in order. An empty version list, or a list that
  does not fit, gives no packet.\<close>

theorem vneg_response_roundtrip:
  assumes "length dcid \<le> 20" "length scid \<le> 20" "length vs < 2 ^ 60"
    and "cap \<le> length buf" "length buf < 2 ^ 63"
    and "length (v_dcid v) = 20" "length (v_scid v) = 20" "length (h_dcid h) = 20" "length (h_scid h) = 20"
    and "k = 7 + length dcid + length scid + 4 * length vs"
  shows "case quic_vneg_respond buf cap dcid (of_nat (length dcid)) scid (of_nat (length scid)) vs of
     (n, buf') \<Rightarrow>
       if vs \<noteq> [] \<and> k \<le> cap
       then n = k \<and>
         quic_vneg_parse buf' n v = Some (\<lparr>v_dcid_len = of_nat (length scid), v_dcid = overwrite (v_dcid v) 0 scid,
           v_scid_len = of_nat (length dcid), v_scid = overwrite (v_scid v) 0 dcid,
           v_versions = concat (map quic_put_be32 vs), v_count = length vs\<rparr>, n) \<and>
         map_option (\<lambda>(h, _). (h_form h, h_version h, h_dcid h, h_scid h)) (quic_header_parse buf' n h) =
           Some (QUIC_FORM_LONG, 0, overwrite (h_dcid h) 0 scid, overwrite (h_scid h) 0 dcid)
       else n = 0 \<and> buf' = buf"
proof -
  let ?dl = "of_nat (length dcid) :: u8" and ?sl = "of_nat (length scid) :: u8"
  have u: "unat ?dl = length dcid" "unat ?sl = length scid" using assms(1,2) by (simp_all add: unat_of_nat)
  let ?i = "invariant_wire 0x80 0 scid ?sl dcid ?dl"
  let ?w = "?i @ concat (map quic_put_be32 vs)"
  have lw: "length ?w = k" using u assms(10) by (simp add: invariant_wire_def cid_wire_def)
  have b: "quic_vneg_respond buf cap dcid ?dl scid ?sl vs =
      (if vs \<noteq> [] \<and> k \<le> cap then (k, overwrite buf 0 ?w) else (0, buf))"
    unfolding quic_vneg_respond_def using vneg_build_eq[of ?sl scid ?dl dcid vs cap buf] u assms(3-5) lw by simp
  show ?thesis
  proof (cases "vs \<noteq> [] \<and> k \<le> cap")
    case True
    then have "quic_vneg_parse (?w @ drop k buf) k v = Some (v\<lparr>
       v_dcid := overwrite (v_dcid v) 0 scid, v_dcid_len := ?sl, v_scid := overwrite (v_scid v) 0 dcid, v_scid_len := ?dl,
       v_versions := concat (map quic_put_be32 vs), v_count := length vs\<rparr>, k)"
      using vneg_parse_wire[OF assms(2,1) _ assms(6,7), of vs "drop k buf"] assms(4,5) unfolding lw by simp
    moreover have "quic_header_parse (?i @ concat (map quic_put_be32 vs) @ drop k buf) k h =
       Some (long_view 0x80 0 scid ?sl dcid ?dl h, 7 + length scid + length dcid)"
      using header_parse_invariant[of "0x80" ?sl scid ?dl dcid h 0 k "concat (map quic_put_be32 vs) @ drop k buf"]
        True u lw assms by simp
    ultimately show ?thesis using True lw unfolding b by (simp add: overwrite_0 long_view_def u)
  qed (auto simp: b)
qed

theorem vneg_response_roundtrip_witness:
  "case quic_vneg_respond (replicate 40 0) 40 [1, 2] (of_nat (length [1, 2 :: u8])) [3] (of_nat (length [3 :: u8])) [1, 0x6b3343cf] of
     (n, buf') \<Rightarrow> n = 18 \<and> map_option (\<lambda>(v, n). (v_count v, n)) (quic_vneg_parse buf' n
        \<lparr>v_dcid_len = 0, v_dcid = replicate 20 0, v_scid_len = 0, v_scid = replicate 20 0,
         v_versions = [], v_count = 0\<rparr>) = Some (2, 18)"
proof (cases "quic_vneg_respond (replicate 40 0) 40 [1, 2] (of_nat (length [1, 2 :: u8])) [3] (of_nat (length [3 :: u8])) [1, 0x6b3343cf]")
  case (Pair n b)
  have k: "18 = 7 + length [1, 2 :: u8] + length [3 :: u8] + 4 * length [1, 0x6b3343cf :: u32]" by simp
  have c: "length [1, 0x6b3343cf :: u32] = 2" by simp
  from vneg_response_roundtrip[of "[1, 2]" "[3]" "[1, 0x6b3343cf]" 40 "replicate 40 0"
      "\<lparr>v_dcid_len = 0, v_dcid = replicate 20 0, v_scid_len = 0, v_scid = replicate 20 0, v_versions = [], v_count = 0\<rparr>"
      "\<lparr>h_form = QUIC_FORM_SHORT, h_long_type = 0, h_version = 0, h_dcid_len = 0, h_dcid = replicate 20 0,
         h_scid_len = 0, h_scid = replicate 20 0\<rparr>" 18, OF _ _ _ _ _ _ _ _ _ k]
  have "n = 18 \<and> map_option (\<lambda>(v, n). (v_count v, n)) (quic_vneg_parse b n
     \<lparr>v_dcid_len = 0, v_dcid = replicate 20 0, v_scid_len = 0, v_scid = replicate 20 0, v_versions = [], v_count = 0\<rparr>) = Some (2, n)"
    unfolding Pair c by auto
  then show ?thesis unfolding Pair by auto
qed

end
