(* ===== verification/Fsm.thy ===== *)
theory Fsm
  imports Wired_Prelude
begin

text \<open>
  The table-driven state machine \<^verbatim>\<open>src/transport/conn/lifecycle/fsm/fsm.c\<close>, shared by streams and
  connections. The enum values are kept as datatypes instead of their \<^verbatim>\<open>u8\<close> codes, so the sentinel
  \<^verbatim>\<open>QUIC_FSM_NONE\<close> is \<open>None\<close>. The locales state what a table promises: with no two rows for the
  same state and event, a step is exactly a row; when every row raises a rank, only
  boundedly many events are ever accepted.
\<close>

type_synonym ('s, 'e) quic_fsm_row = "'s \<times> 'e \<times> 's"

definition row_matches :: "('s, 'e) quic_fsm_row \<Rightarrow> 's \<Rightarrow> 'e \<Rightarrow> bool" where
  "row_matches r from ev \<longleftrightarrow> fst r = from \<and> fst (snd r) = ev"

fun lookup :: "('s, 'e) quic_fsm_row list \<Rightarrow> 's \<Rightarrow> 'e \<Rightarrow> 's option" where
  "lookup [] from ev = None"
| "lookup (r # rows) from ev = (if row_matches r from ev then Some (snd (snd r)) else lookup rows from ev)"

definition quic_fsm_step :: "'s \<Rightarrow> ('s, 'e) quic_fsm_row list \<Rightarrow> 'e \<Rightarrow> bool \<times> 's" where
  "quic_fsm_step state rows ev =
     (case lookup rows state ev of None \<Rightarrow> (False, state) | Some to \<Rightarrow> (True, to))"

text \<open>A sequence of events: how many were accepted, and the state reached.\<close>

fun fsm_run :: "('s, 'e) quic_fsm_row list \<Rightarrow> 's \<Rightarrow> 'e list \<Rightarrow> nat \<times> 's" where
  "fsm_run rows s [] = (0, s)"
| "fsm_run rows s (e # es) =
     (case quic_fsm_step s rows e of (ok, s) \<Rightarrow>
        case fsm_run rows s es of (n, t) \<Rightarrow> (if ok then Suc n else n, t))"

lemma lookup_Some: "lookup rows s e = Some t \<Longrightarrow> (s, e, t) \<in> set rows"
  by (induction rows) (auto simp: row_matches_def split: if_splits)

lemma lookup_None: "lookup rows s e = None \<longleftrightarrow> (\<forall>t. (s, e, t) \<notin> set rows)"
  by (induction rows) (auto simp: row_matches_def)

lemma fsm_step_refused: "\<not> fst (quic_fsm_step s rows e) \<Longrightarrow> quic_fsm_step s rows e = (False, s)"
  by (auto simp: quic_fsm_step_def split: option.splits)

lemma fsm_step_accepts: "fst (quic_fsm_step s rows e) \<longleftrightarrow> (\<exists>t. (s, e, t) \<in> set rows)"
  using lookup_None[of rows s e] by (auto simp: quic_fsm_step_def split: option.splits dest: lookup_Some)

lemma fsm_step_row: "quic_fsm_step s rows e = (True, t) \<Longrightarrow> (s, e, t) \<in> set rows"
  by (auto simp: quic_fsm_step_def split: option.splits dest: lookup_Some)

locale fsm_table =
  fixes rows :: "('s, 'e) quic_fsm_row list"
  assumes deterministic: "distinct (map (\<lambda>(s, e, _). (s, e)) rows)"
begin

lemma row_unique: "(s, e, t) \<in> set rows \<Longrightarrow> (s, e, t') \<in> set rows \<Longrightarrow> t = t'"
proof -
  assume r: "(s, e, t) \<in> set rows" "(s, e, t') \<in> set rows"
  have "inj_on (\<lambda>(s, e, _). (s, e)) (set rows)" using deterministic by (simp add: distinct_map)
  from inj_onD[OF this _ r] show "t = t'" by simp
qed

lemma step_iff_row: "quic_fsm_step s rows e = (True, t) \<longleftrightarrow> (s, e, t) \<in> set rows"
proof
  assume r: "(s, e, t) \<in> set rows"
  then obtain t' where "quic_fsm_step s rows e = (True, t')"
    using fsm_step_accepts[of s rows e] by (cases "quic_fsm_step s rows e") auto
  with row_unique[OF r fsm_step_row[OF this]] show "quic_fsm_step s rows e = (True, t)" by simp
qed (rule fsm_step_row)

end

locale ranked_fsm = fsm_table rows for rows :: "('s, 'e) quic_fsm_row list" +
  fixes rank :: "'s \<Rightarrow> nat" and top :: nat
  assumes rank_rises: "(s, e, t) \<in> set rows \<Longrightarrow> rank s < rank t"
    and rank_top: "rank s \<le> top"
begin

lemma run_rank: "fsm_run rows s es = (n, t) \<Longrightarrow> rank s + n \<le> rank t"
proof (induction es arbitrary: s n)
  case (Cons e es)
  obtain ok s' where st: "quic_fsm_step s rows e = (ok, s')" by (cases "quic_fsm_step s rows e")
  obtain k where k: "fsm_run rows s' es = (k, t)" "n = (if ok then Suc k else k)"
    using Cons.prems st by (auto split: prod.splits)
  show ?case
  proof (cases ok)
    case True
    then have "rank s < rank s'" using st fsm_step_row[of s rows e s'] rank_rises[of s e s'] by simp
    then show ?thesis using Cons.IH[OF k(1)] k(2) True by simp
  next
    case False
    then have "s' = s" using st fsm_step_refused[of s rows e] by simp
    then show ?thesis using Cons.IH[OF k(1)] k(2) False by simp
  qed
qed simp

lemma run_bounded: "fst (fsm_run rows s es) \<le> top"
proof (cases "fsm_run rows s es")
  case (Pair n t)
  then show ?thesis using run_rank[OF Pair] rank_top[of t] by simp
qed

end

end
