(* ===== verification/Streams.thy ===== *)
theory Streams
  imports Fsm Frames
begin

text \<open>
  Streams, \<^verbatim>\<open>src/transport/stream/\<close>: the send and receive state machines, stream IDs and limits,
  flow control at both levels, final sizes, reassembly and ordered reading, and the thin
  frame builders over the codecs of \<^verbatim>\<open>Frames\<close>. A function that updates a structure returns it; an
  \<^verbatim>\<open>int\<close> result that is only tested is a \<open>bool\<close>.
\<close>

section \<open>stream.c, bidi.c\<close>

datatype quic_send_state =
  QUIC_SEND_READY | QUIC_SEND_SEND | QUIC_SEND_DATA_SENT | QUIC_SEND_DATA_RECVD | QUIC_SEND_RESET_SENT | QUIC_SEND_RESET_RECVD

datatype quic_recv_state =
  QUIC_RECV_RECV | QUIC_RECV_SIZE_KNOWN | QUIC_RECV_DATA_RECVD | QUIC_RECV_DATA_READ | QUIC_RECV_RESET_RECVD | QUIC_RECV_RESET_READ

datatype quic_send_event =
  QUIC_SEND_EV_STREAM | QUIC_SEND_EV_FIN_SENT | QUIC_SEND_EV_ACKED | QUIC_SEND_EV_RESET | QUIC_SEND_EV_RESET_ACKED

datatype quic_recv_event =
  QUIC_RECV_EV_FIN | QUIC_RECV_EV_ALL_DATA | QUIC_RECV_EV_READ | QUIC_RECV_EV_RESET

definition send_rows :: "(quic_send_state, quic_send_event) quic_fsm_row list" where
  "send_rows =
     [(QUIC_SEND_READY, QUIC_SEND_EV_STREAM, QUIC_SEND_SEND),
      (QUIC_SEND_SEND, QUIC_SEND_EV_FIN_SENT, QUIC_SEND_DATA_SENT),
      (QUIC_SEND_DATA_SENT, QUIC_SEND_EV_ACKED, QUIC_SEND_DATA_RECVD),
      (QUIC_SEND_READY, QUIC_SEND_EV_RESET, QUIC_SEND_RESET_SENT),
      (QUIC_SEND_SEND, QUIC_SEND_EV_RESET, QUIC_SEND_RESET_SENT),
      (QUIC_SEND_DATA_SENT, QUIC_SEND_EV_RESET, QUIC_SEND_RESET_SENT),
      (QUIC_SEND_RESET_SENT, QUIC_SEND_EV_RESET_ACKED, QUIC_SEND_RESET_RECVD)]"

definition recv_rows :: "(quic_recv_state, quic_recv_event) quic_fsm_row list" where
  "recv_rows =
     [(QUIC_RECV_RECV, QUIC_RECV_EV_FIN, QUIC_RECV_SIZE_KNOWN),
      (QUIC_RECV_SIZE_KNOWN, QUIC_RECV_EV_ALL_DATA, QUIC_RECV_DATA_RECVD),
      (QUIC_RECV_DATA_RECVD, QUIC_RECV_EV_READ, QUIC_RECV_DATA_READ),
      (QUIC_RECV_RECV, QUIC_RECV_EV_RESET, QUIC_RECV_RESET_RECVD),
      (QUIC_RECV_SIZE_KNOWN, QUIC_RECV_EV_RESET, QUIC_RECV_RESET_RECVD),
      (QUIC_RECV_RESET_RECVD, QUIC_RECV_EV_READ, QUIC_RECV_RESET_READ)]"

definition quic_send_step :: "quic_send_state \<Rightarrow> quic_send_event \<Rightarrow> bool \<times> quic_send_state" where
  "quic_send_step s ev = quic_fsm_step s send_rows ev"

definition quic_recv_step :: "quic_recv_state \<Rightarrow> quic_recv_event \<Rightarrow> bool \<times> quic_recv_state" where
  "quic_recv_step s ev = quic_fsm_step s recv_rows ev"

record quic_bidi =
  bd_send :: quic_send_state
  bd_recv :: quic_recv_state

definition quic_bidi_init :: quic_bidi where
  "quic_bidi_init = \<lparr>bd_send = QUIC_SEND_READY, bd_recv = QUIC_RECV_RECV\<rparr>"

definition send_terminal :: "quic_send_state \<Rightarrow> bool" where
  "send_terminal s \<longleftrightarrow> s = QUIC_SEND_DATA_RECVD \<or> s = QUIC_SEND_RESET_RECVD"

definition recv_terminal :: "quic_recv_state \<Rightarrow> bool" where
  "recv_terminal s \<longleftrightarrow> s = QUIC_RECV_DATA_READ \<or> s = QUIC_RECV_RESET_READ"

definition quic_bidi_closed :: "quic_bidi \<Rightarrow> bool" where
  "quic_bidi_closed b \<longleftrightarrow> send_terminal (bd_send b) \<and> recv_terminal (bd_recv b)"

section \<open>stream_id.c, stream_limit.c, stream_role.c\<close>

definition QUIC_STREAM_INITIATOR_BIT :: u64 where "QUIC_STREAM_INITIATOR_BIT = 0x1"

definition QUIC_STREAM_DIR_BIT :: u64 where "QUIC_STREAM_DIR_BIT = 0x2"

definition quic_stream_is_client_initiated :: "u64 \<Rightarrow> bool" where
  "quic_stream_is_client_initiated sid \<longleftrightarrow> sid AND QUIC_STREAM_INITIATOR_BIT = 0"

definition quic_stream_is_uni :: "u64 \<Rightarrow> bool" where
  "quic_stream_is_uni sid \<longleftrightarrow> sid AND QUIC_STREAM_DIR_BIT \<noteq> 0"

definition quic_stream_id :: "bool \<Rightarrow> bool \<Rightarrow> u64 \<Rightarrow> u64" where
  "quic_stream_id is_server is_uni index =
     (let low = (if is_server then QUIC_STREAM_INITIATOR_BIT else 0) OR (if is_uni then QUIC_STREAM_DIR_BIT else 0)
      in push_bit 2 index OR low)"

definition QUIC_MAX_STREAMS_LIMIT :: u64 where "QUIC_MAX_STREAMS_LIMIT = push_bit 60 1"

definition quic_stream_max_streams_ok :: "u64 \<Rightarrow> bool" where
  "quic_stream_max_streams_ok max_streams \<longleftrightarrow> max_streams \<le> QUIC_MAX_STREAMS_LIMIT"

definition quic_stream_max_id :: "bool \<Rightarrow> bool \<Rightarrow> u64 \<Rightarrow> u64 option" where
  "quic_stream_max_id is_server is_uni max_streams =
     (if max_streams = 0 then None
      else if \<not> quic_stream_max_streams_ok max_streams then None
      else Some (quic_stream_id is_server is_uni (max_streams - 1)))"

definition am_initiator :: "bool \<Rightarrow> u64 \<Rightarrow> bool" where
  "am_initiator am_client stream_id \<longleftrightarrow> am_client = quic_stream_is_client_initiated stream_id"

definition quic_stream_can_send :: "bool \<Rightarrow> u64 \<Rightarrow> bool" where
  "quic_stream_can_send am_client stream_id =
     (if \<not> quic_stream_is_uni stream_id then True else am_initiator am_client stream_id)"

definition quic_stream_can_receive :: "bool \<Rightarrow> u64 \<Rightarrow> bool" where
  "quic_stream_can_receive am_client stream_id =
     (if \<not> quic_stream_is_uni stream_id then True else \<not> am_initiator am_client stream_id)"

section \<open>flow.c, credit.c, stream_flow.c, dual_flow.c\<close>

record quic_flow_send =
  fs_sent :: u64
  fs_max_data :: u64

record quic_flow_recv =
  fr_consumed :: u64
  fr_max_data :: u64
  fr_window :: u64

definition quic_flow_send_init :: "u64 \<Rightarrow> quic_flow_send" where
  "quic_flow_send_init max_data = \<lparr>fs_sent = 0, fs_max_data = max_data\<rparr>"

definition quic_flow_send_avail :: "quic_flow_send \<Rightarrow> u64" where
  "quic_flow_send_avail f = (if fs_max_data f > fs_sent f then fs_max_data f - fs_sent f else 0)"

definition quic_flow_send_record :: "quic_flow_send \<Rightarrow> u64 \<Rightarrow> bool \<times> quic_flow_send" where
  "quic_flow_send_record f n =
     (if n > quic_flow_send_avail f then (False, f) else (True, f\<lparr>fs_sent := fs_sent f + n\<rparr>))"

definition quic_flow_send_update_max :: "quic_flow_send \<Rightarrow> u64 \<Rightarrow> quic_flow_send" where
  "quic_flow_send_update_max f max_data = f\<lparr>fs_max_data := quic_u64_max (fs_max_data f) max_data\<rparr>"

definition quic_flow_send_blocked :: "quic_flow_send \<Rightarrow> u64 \<Rightarrow> bool" where
  "quic_flow_send_blocked f want = (if want = 0 then False else want > quic_flow_send_avail f)"

definition quic_flow_recv_init :: "u64 \<Rightarrow> quic_flow_recv" where
  "quic_flow_recv_init window = \<lparr>fr_consumed = 0, fr_max_data = window, fr_window = window\<rparr>"

definition quic_flow_recv_consume :: "quic_flow_recv \<Rightarrow> u64 \<Rightarrow> u64 \<times> quic_flow_recv" where
  "quic_flow_recv_consume f n =
     (let consumed = fr_consumed f + n;
          max_data = consumed + fr_window f
      in (max_data, f\<lparr>fr_consumed := consumed, fr_max_data := max_data\<rparr>))"

record quic_flow_credit =
  cr_consumed :: u64
  cr_max_data :: u64
  cr_window :: u64

definition quic_flow_credit_init :: "u64 \<Rightarrow> quic_flow_credit" where
  "quic_flow_credit_init initial_max = \<lparr>cr_consumed = 0, cr_max_data = initial_max, cr_window = initial_max\<rparr>"

definition quic_flow_credit_consume :: "quic_flow_credit \<Rightarrow> u64 \<Rightarrow> u64 \<times> quic_flow_credit" where
  "quic_flow_credit_consume c n =
     (let consumed = cr_consumed c + n;
          max_data = consumed + cr_window c
      in (max_data, c\<lparr>cr_consumed := consumed, cr_max_data := max_data\<rparr>))"

definition quic_flow_credit_violation :: "quic_flow_credit \<Rightarrow> u64 \<Rightarrow> bool" where
  "quic_flow_credit_violation c received_total \<longleftrightarrow> received_total > cr_max_data c"

record quic_stream_flow =
  sfl_consumed :: u64
  sfl_max_stream_data :: u64
  sfl_window :: u64

definition quic_stream_flow_init :: "u64 \<Rightarrow> quic_stream_flow" where
  "quic_stream_flow_init window = \<lparr>sfl_consumed = 0, sfl_max_stream_data = window, sfl_window = window\<rparr>"

definition quic_stream_flow_consume :: "quic_stream_flow \<Rightarrow> u64 \<Rightarrow> u64 \<times> quic_stream_flow" where
  "quic_stream_flow_consume s n =
     (let consumed = sfl_consumed s + n;
          max_stream_data = consumed + sfl_window s
      in (max_stream_data, s\<lparr>sfl_consumed := consumed, sfl_max_stream_data := max_stream_data\<rparr>))"

definition quic_stream_flow_violation :: "u64 \<Rightarrow> u64 \<Rightarrow> bool" where
  "quic_stream_flow_violation received max_stream_data \<longleftrightarrow> received > max_stream_data"

definition quic_dual_flow_ok :: "u64 \<Rightarrow> u64 \<Rightarrow> u64 \<Rightarrow> u64 \<Rightarrow> bool" where
  "quic_dual_flow_ok stream_used stream_max conn_used conn_max \<longleftrightarrow>
     stream_used \<le> stream_max \<and> conn_used \<le> conn_max"

section \<open>finalsize.c\<close>

record quic_finalsize =
  fz_highest :: u64
  fz_final_size :: u64
  fz_known :: bool

definition quic_finalsize_init :: quic_finalsize where
  "quic_finalsize_init = \<lparr>fz_highest = 0, fz_final_size = 0, fz_known = False\<rparr>"

definition note_highest :: "quic_finalsize \<Rightarrow> u64 \<Rightarrow> u64 \<Rightarrow> u64 \<times> quic_finalsize" where
  "note_highest f offset len =
     (let e = offset + len in (e, if e > fz_highest f then f\<lparr>fz_highest := e\<rparr> else f))"

definition quic_finalsize_data :: "quic_finalsize \<Rightarrow> u64 \<Rightarrow> u64 \<Rightarrow> bool \<times> quic_finalsize" where
  "quic_finalsize_data f offset len =
     (case note_highest f offset len of (e, f) \<Rightarrow>
        (if \<not> fz_known f then True else e \<le> fz_final_size f, f))"

definition size_consistent :: "quic_finalsize \<Rightarrow> u64 \<Rightarrow> bool" where
  "size_consistent f sz = (if fz_known f then sz = fz_final_size f else sz \<ge> fz_highest f)"

definition quic_finalsize_set :: "quic_finalsize \<Rightarrow> u64 \<Rightarrow> bool \<times> quic_finalsize" where
  "quic_finalsize_set f sz =
     (if \<not> size_consistent f sz then (False, f)
      else (True, f\<lparr>fz_final_size := sz, fz_known := True\<rparr>))"

section \<open>reassemble.c, stream_read.c\<close>

definition QUIC_REASM_CAP :: usz where "QUIC_REASM_CAP = 4096"

record quic_reasm =
  ra_buf :: bytes
  ra_have :: bytes
  ra_delivered :: u64
  ra_final_size :: u64
  ra_have_final :: bool

text \<open>Initialisation leaves the data buffer as it is.\<close>

definition quic_reasm_init :: "quic_reasm \<Rightarrow> quic_reasm" where
  "quic_reasm_init r =
     r\<lparr>ra_have := replicate QUIC_REASM_CAP 0, ra_delivered := 0, ra_final_size := 0, ra_have_final := False\<rparr>"

definition insert_fits :: "quic_reasm \<Rightarrow> u64 \<Rightarrow> usz \<Rightarrow> bool" where
  "insert_fits r offset len =
     (if offset + of_nat len > of_nat QUIC_REASM_CAP then False
      else \<not> ra_have_final r \<or> offset + of_nat len \<le> ra_final_size r)"

definition quic_reasm_insert :: "quic_reasm \<Rightarrow> u64 \<Rightarrow> bytes \<Rightarrow> usz \<Rightarrow> bool \<times> quic_reasm" where
  "quic_reasm_insert r offset data len =
     (if \<not> insert_fits r offset len then (False, r)
      else (True, fold (\<lambda>i r. r\<lparr>ra_buf := (ra_buf r)[unat (offset + of_nat i) := rd data i],
                               ra_have := (ra_have r)[unat (offset + of_nat i) := 1]\<rparr>) [0..<len] r))"

definition quic_reasm_set_final :: "quic_reasm \<Rightarrow> u64 \<Rightarrow> bool \<times> quic_reasm" where
  "quic_reasm_set_final r final_size =
     (if final_size > of_nat QUIC_REASM_CAP then (False, r)
      else (True, r\<lparr>ra_final_size := final_size, ra_have_final := True\<rparr>))"

function deliver_loop :: "bytes \<Rightarrow> u64 \<Rightarrow> u64" where
  "deliver_loop hv d =
     (if unat d < QUIC_REASM_CAP \<and> rd hv (unat d) \<noteq> 0 then deliver_loop hv (d + 1) else d)"
  by pat_completeness auto
termination
proof (relation "measure (\<lambda>(_, d). QUIC_REASM_CAP - unat d)")
  fix hv :: bytes and d :: u64
  assume "unat d < QUIC_REASM_CAP \<and> rd hv (unat d) \<noteq> 0"
  then have "unat d < 4096" by (simp add: QUIC_REASM_CAP_def)
  then have "unat (d + 1) = unat d + 1" by (simp add: unat_word_ariths)
  then show "((hv, d + 1), hv, d) \<in> measure (\<lambda>(_, d). QUIC_REASM_CAP - unat d)"
    using \<open>unat d < 4096\<close> by (simp add: QUIC_REASM_CAP_def)
qed simp

declare deliver_loop.simps [simp del]

definition quic_reasm_deliver :: "quic_reasm \<Rightarrow> u64 \<times> quic_reasm" where
  "quic_reasm_deliver r =
     (let d = deliver_loop (ra_have r) (ra_delivered r) in (d, r\<lparr>ra_delivered := d\<rparr>))"

record quic_stream_read =
  sr_r :: quic_reasm
  sr_read_off :: u64

definition quic_stream_read_init :: "quic_stream_read \<Rightarrow> quic_stream_read" where
  "quic_stream_read_init s = s\<lparr>sr_r := quic_reasm_init (sr_r s), sr_read_off := 0\<rparr>"

definition quic_stream_read_push :: "quic_stream_read \<Rightarrow> u64 \<Rightarrow> bytes \<Rightarrow> usz \<Rightarrow> bool \<times> quic_stream_read" where
  "quic_stream_read_push s offset data len =
     (case quic_reasm_insert (sr_r s) offset data len of (ok, r) \<Rightarrow> (ok, s\<lparr>sr_r := r\<rparr>))"

definition readable :: "quic_stream_read \<Rightarrow> usz \<Rightarrow> usz \<times> quic_stream_read" where
  "readable s cap =
     (case quic_reasm_deliver (sr_r s) of (d, r) \<Rightarrow>
        let avail = d - sr_read_off s
        in (if unat avail < cap then unat avail else cap, s\<lparr>sr_r := r\<rparr>))"

text \<open>The bytes copied to \<^verbatim>\<open>out\<close>; their number is \<^verbatim>\<open>*out_len\<close>.\<close>

definition quic_stream_read_pull :: "quic_stream_read \<Rightarrow> usz \<Rightarrow> bytes \<times> quic_stream_read" where
  "quic_stream_read_pull s cap =
     (case readable s cap of (n, s) \<Rightarrow>
        (map (\<lambda>i. rd (ra_buf (sr_r s)) (unat (sr_read_off s + of_nat i))) [0..<n],
         s\<lparr>sr_read_off := sr_read_off s + of_nat n\<rparr>))"

section \<open>streams.c, stream_credit.c\<close>

record quic_streams =
  st_limit :: u64
  st_opened :: u64

definition quic_streams_init :: "u64 \<Rightarrow> quic_streams" where
  "quic_streams_init limit = \<lparr>st_limit = limit, st_opened = 0\<rparr>"

definition quic_streams_set_max :: "quic_streams \<Rightarrow> u64 \<Rightarrow> bool \<times> quic_streams" where
  "quic_streams_set_max s new_limit =
     (if new_limit \<le> st_limit s then (False, s) else (True, s\<lparr>st_limit := new_limit\<rparr>))"

definition quic_streams_may_open :: "quic_streams \<Rightarrow> u64 \<Rightarrow> bool" where
  "quic_streams_may_open s index \<longleftrightarrow> index < st_limit s"

definition quic_streams_opened :: "quic_streams \<Rightarrow> quic_streams" where
  "quic_streams_opened s = s\<lparr>st_opened := st_opened s + 1\<rparr>"

definition quic_streams_observe :: "quic_streams \<Rightarrow> u64 \<Rightarrow> quic_streams" where
  "quic_streams_observe s index =
     (let needed = index + 1 in if needed > st_opened s then s\<lparr>st_opened := needed\<rparr> else s)"

record quic_stream_credit =
  sc_max_streams :: u64
  sc_count :: u64

definition quic_stream_credit_init :: "u64 \<Rightarrow> quic_stream_credit" where
  "quic_stream_credit_init max_streams = \<lparr>sc_max_streams = max_streams, sc_count = 0\<rparr>"

definition quic_stream_credit_open :: "quic_stream_credit \<Rightarrow> bool \<times> quic_stream_credit" where
  "quic_stream_credit_open s =
     (if sc_count s \<ge> sc_max_streams s then (False, s) else (True, s\<lparr>sc_count := sc_count s + 1\<rparr>))"

definition quic_stream_credit_grant :: "quic_stream_credit \<Rightarrow> u64 \<Rightarrow> quic_stream_credit" where
  "quic_stream_credit_grant s new_max =
     (if new_max > sc_max_streams s then s\<lparr>sc_max_streams := new_max\<rparr> else s)"

section \<open>flowviol, maxstreams, stream_send.c\<close>

definition QUIC_EC_FLOW_CONTROL_ERROR :: u64 where "QUIC_EC_FLOW_CONTROL_ERROR = 0x03"

definition QUIC_EC_STREAM_LIMIT_ERROR :: u64 where "QUIC_EC_STREAM_LIMIT_ERROR = 0x04"

definition data_violation :: "u64 \<Rightarrow> u64 \<Rightarrow> bool" where
  "data_violation received_total max_data =
     quic_flow_credit_violation (quic_flow_credit_init max_data) received_total"

definition stream_violation :: "u64 \<Rightarrow> u64 \<Rightarrow> bool" where
  "stream_violation stream_count max_streams =
     (\<not> fst (quic_stream_credit_open ((quic_stream_credit_init max_streams)\<lparr>sc_count := stream_count\<rparr>)))"

definition quic_flowviol_check :: "u64 \<Rightarrow> u64 \<Rightarrow> u64 \<Rightarrow> u64 \<Rightarrow> u64 option" where
  "quic_flowviol_check received_total max_data stream_count max_streams =
     (if data_violation received_total max_data then Some QUIC_EC_FLOW_CONTROL_ERROR
      else if stream_violation stream_count max_streams then Some QUIC_EC_STREAM_LIMIT_ERROR
      else None)"

definition quic_flowviol_close_frame :: "u64 \<Rightarrow> u64 \<Rightarrow> bytes \<Rightarrow> usz \<Rightarrow> bytes \<Rightarrow> usz \<Rightarrow> usz option \<times> bytes" where
  "quic_flowviol_close_frame error_code frame_type reason reason_len out cap =
     (case quic_frame_put_conn_close out cap
         \<lparr>cc_is_app = 0, cc_error_code = error_code, cc_frame_type = frame_type,
          cc_reason_len = of_nat reason_len, cc_reason = reason\<rparr> of
        (n, out) \<Rightarrow> (if n = 0 then None else Some n, out))"

definition quic_maxstreams_frame :: "bool \<Rightarrow> u64 \<Rightarrow> bytes \<Rightarrow> usz \<Rightarrow> usz option \<times> bytes" where
  "quic_maxstreams_frame uni mx out cap =
     (case quic_max_streams_encode out cap \<lparr>ms_max_streams = mx, ms_uni = (if uni then 1 else 0)\<rparr> of
        (n, out) \<Rightarrow> (if n = 0 then None else Some n, out))"

definition quic_maxstreams_parse :: "bytes \<Rightarrow> usz \<Rightarrow> (int \<times> u64) option" where
  "quic_maxstreams_parse buf n =
     (case quic_max_streams_decode buf n of None \<Rightarrow> None | Some (f, k) \<Rightarrow>
        if k = 0 then None else Some (ms_uni f, ms_max_streams f))"

definition quic_maxstreams_can_open :: "u64 \<Rightarrow> u64 \<Rightarrow> bool" where
  "quic_maxstreams_can_open opened max_streams \<longleftrightarrow> opened < max_streams"

definition quic_appdata_stream_frame :: "u64 \<Rightarrow> u64 \<Rightarrow> bytes \<Rightarrow> usz \<Rightarrow> bool \<Rightarrow> bytes \<Rightarrow> usz \<Rightarrow> usz option \<times> bytes" where
  "quic_appdata_stream_frame stream_id offset data len fin out cap =
     (case quic_frame_put_stream out cap
         \<lparr>sf_stream_id = stream_id, sf_offset = offset, sf_length = of_nat len, sf_data = data,
          sf_fin = (if fin then 1 else 0)\<rparr> of
        (n, out) \<Rightarrow> (if n = 0 then None else Some n, out))"


section \<open>The stream state machines\<close>

fun send_rank :: "quic_send_state \<Rightarrow> nat" where
  "send_rank QUIC_SEND_READY = 0"
| "send_rank QUIC_SEND_SEND = 1"
| "send_rank QUIC_SEND_DATA_SENT = 2"
| "send_rank QUIC_SEND_DATA_RECVD = 3"
| "send_rank QUIC_SEND_RESET_SENT = 3"
| "send_rank QUIC_SEND_RESET_RECVD = 4"

fun recv_rank :: "quic_recv_state \<Rightarrow> nat" where
  "recv_rank QUIC_RECV_RECV = 0"
| "recv_rank QUIC_RECV_SIZE_KNOWN = 1"
| "recv_rank QUIC_RECV_DATA_RECVD = 2"
| "recv_rank QUIC_RECV_DATA_READ = 3"
| "recv_rank QUIC_RECV_RESET_RECVD = 2"
| "recv_rank QUIC_RECV_RESET_READ = 3"

interpretation send_fsm: ranked_fsm send_rows send_rank 4
proof unfold_locales
  fix s :: quic_send_state show "send_rank s \<le> 4" by (cases s) simp_all
qed (auto simp: send_rows_def)

interpretation recv_fsm: ranked_fsm recv_rows recv_rank 3
proof unfold_locales
  fix s :: quic_recv_state show "recv_rank s \<le> 3" by (cases s) simp_all
qed (auto simp: recv_rows_def)

datatype bidi_event = BSend quic_send_event | BRecv quic_recv_event

fun bidi_step :: "quic_bidi \<Rightarrow> bidi_event \<Rightarrow> bool \<times> quic_bidi" where
  "bidi_step b (BSend e) = (case quic_send_step (bd_send b) e of (ok, s) \<Rightarrow> (ok, b\<lparr>bd_send := s\<rparr>))"
| "bidi_step b (BRecv e) = (case quic_recv_step (bd_recv b) e of (ok, s) \<Rightarrow> (ok, b\<lparr>bd_recv := s\<rparr>))"

fun bidi_run :: "quic_bidi \<Rightarrow> bidi_event list \<Rightarrow> nat \<times> quic_bidi" where
  "bidi_run b [] = (0, b)"
| "bidi_run b (e # es) =
     (case bidi_step b e of (ok, b) \<Rightarrow> case bidi_run b es of (n, b) \<Rightarrow> (if ok then Suc n else n, b))"

lemma send_stuck: "send_terminal s \<longleftrightarrow> (\<forall>e. \<not> fst (quic_send_step s e))"
  by (cases s) (auto simp: send_terminal_def quic_send_step_def fsm_step_accepts send_rows_def)

lemma recv_stuck: "recv_terminal s \<longleftrightarrow> (\<forall>e. \<not> fst (quic_recv_step s e))"
  by (cases s) (auto simp: recv_terminal_def quic_recv_step_def fsm_step_accepts recv_rows_def)

lemma bidi_stuck: "quic_bidi_closed b \<longleftrightarrow> (\<forall>e. \<not> fst (bidi_step b e))"
proof -
  have "(\<forall>e. \<not> fst (bidi_step b e)) \<longleftrightarrow>
      (\<forall>e. \<not> fst (quic_send_step (bd_send b) e)) \<and> (\<forall>e. \<not> fst (quic_recv_step (bd_recv b) e))"
    by (metis (no_types, lifting) bidi_event.exhaust bidi_step.simps case_prod_beta fst_conv)
  then show ?thesis by (simp add: quic_bidi_closed_def send_stuck recv_stuck)
qed

lemma bidi_run_halves:
  "bidi_run b es = (n, b') \<Longrightarrow>
   \<exists>xs ys k l. fsm_run send_rows (bd_send b) xs = (k, bd_send b') \<and> fsm_run recv_rows (bd_recv b) ys = (l, bd_recv b') \<and> n = k + l"
proof (induction es arbitrary: b n)
  case Nil
  have "fsm_run send_rows (bd_send b') [] = (0, bd_send b')" "fsm_run recv_rows (bd_recv b') [] = (0, bd_recv b')" by simp_all
  with Nil show ?case by (metis Pair_inject add_0 bidi_run.simps(1))
next
  case (Cons e es)
  obtain ok b1 where st: "bidi_step b e = (ok, b1)" by (cases "bidi_step b e")
  obtain m where m: "bidi_run b1 es = (m, b')" "n = (if ok then Suc m else m)"
    using Cons.prems st by (auto split: prod.splits)
  from Cons.IH[OF m(1)] obtain xs ys k l where
    h: "fsm_run send_rows (bd_send b1) xs = (k, bd_send b')" "fsm_run recv_rows (bd_recv b1) ys = (l, bd_recv b')" "m = k + l" by blast
  show ?case
  proof (cases e)
    case (BSend se)
    then obtain s where s: "quic_fsm_step (bd_send b) send_rows se = (ok, s)" "b1 = b\<lparr>bd_send := s\<rparr>"
      using st by (auto simp: quic_send_step_def split: prod.splits)
    then have "fsm_run send_rows (bd_send b) (se # xs) = (if ok then Suc k else k, bd_send b')" using h by simp
    moreover have "fsm_run recv_rows (bd_recv b) ys = (l, bd_recv b')" using s h by simp
    ultimately show ?thesis using m(2) h(3) by (intro exI[of _ "se # xs"] exI[of _ ys]) auto
  next
    case (BRecv re)
    then obtain s where s: "quic_fsm_step (bd_recv b) recv_rows re = (ok, s)" "b1 = b\<lparr>bd_recv := s\<rparr>"
      using st by (auto simp: quic_recv_step_def split: prod.splits)
    then have "fsm_run recv_rows (bd_recv b) (re # ys) = (if ok then Suc l else l, bd_recv b')" using h by simp
    moreover have "fsm_run send_rows (bd_send b) xs = (k, bd_send b')" using s h by simp
    ultimately show ?thesis using m(2) h(3) by (intro exI[of _ xs] exI[of _ "re # ys"]) auto
  qed
qed

text \<open>C18: A bidirectional stream always winds down. Whatever events arrive, in any
  interleaving of its two halves, at most seven of them are accepted; and a stream counts as
  closed exactly when neither half accepts any event any more.\<close>

theorem bidi_stream_lifecycle:
  "fst (bidi_run quic_bidi_init es) \<le> 7 \<and>
   (quic_bidi_closed b \<longleftrightarrow> (\<forall>e. \<not> fst (bidi_step b e)))"
proof -
  obtain n b' where r: "bidi_run quic_bidi_init es = (n, b')" by (cases "bidi_run quic_bidi_init es")
  from bidi_run_halves[OF this] obtain xs ys k l where
    "fsm_run send_rows (bd_send quic_bidi_init) xs = (k, bd_send b')"
    "fsm_run recv_rows (bd_recv quic_bidi_init) ys = (l, bd_recv b')" "n = k + l" by blast
  then have "n \<le> 4 + 3"
    using send_fsm.run_bounded[of "bd_send quic_bidi_init" xs] recv_fsm.run_bounded[of "bd_recv quic_bidi_init" ys] by simp
  then show ?thesis using r bidi_stuck by simp
qed

section \<open>Stream IDs\<close>

lemma unat_stream_id:
  assumes "unat i < 2 ^ 62"
  shows "unat (quic_stream_id is_server is_uni i) = 4 * unat i + (if is_server then 1 else 0) + (if is_uni then 2 else 0)"
proof -
  let ?low = "(if is_server then 1 else 0) OR (if is_uni then 2 else 0) :: u64"
  have low: "unat ?low = (if is_server then 1 else 0) + (if is_uni then 2 else 0)" by auto
  have "push_bit 2 i AND ?low = 0"
    by (rule bit_word_eqI) (auto simp: bit_simps bit_1_iff bit_2_iff)
  then have e: "push_bit 2 i OR ?low = push_bit 2 i + ?low" by (simp add: disjunctive_add_eq_or)
  have p: "unat (push_bit 2 i) = 4 * unat i"
    using assms by (simp add: push_bit_eq_mult unat_word_ariths)
  have "unat (push_bit 2 i + ?low) = unat (push_bit 2 i) + unat ?low"
    using assms p low by (subst unat_add_lem[symmetric]) auto
  then show ?thesis
    unfolding quic_stream_id_def QUIC_STREAM_INITIATOR_BIT_def QUIC_STREAM_DIR_BIT_def Let_def
    by (simp only: e p low add.assoc)
qed

lemma bit_low_mod:
  fixes x :: u64
  shows "x AND 1 = 0 \<longleftrightarrow> unat x mod 2 = 0" "x AND 2 \<noteq> 0 \<longleftrightarrow> unat x div 2 mod 2 = 1"
proof -
  have b: "bit x n \<longleftrightarrow> odd (unat x div 2 ^ n)" for n
    using bit_unsigned_iff[of x n, where ?'a = nat] by (simp add: bit_iff_odd[of "unat x"])
  show "x AND 1 = 0 \<longleftrightarrow> unat x mod 2 = 0"
    using and_exp_eq_0_iff_not_bit[of x 0] b[of 0] by (simp add: even_iff_mod_2_eq_zero)
  show "x AND 2 \<noteq> 0 \<longleftrightarrow> unat x div 2 mod 2 = 1"
    using and_exp_eq_0_iff_not_bit[of x 1] b[of 1] by (simp add: odd_iff_mod_2_eq_one)
qed

text \<open>Stream IDs encode type and index without loss: from the ID of the \<open>i\<close>-th stream of a type
  (\<open>i\<close> below \<open>2 ^ 62\<close>) the initiator, the direction and the index are recovered; of the two endpoints of
  a unidirectional stream exactly the initiator may send and exactly the other may receive;
  and the highest permitted ID separates the first \<open>m\<close> streams of its type from the later ones.\<close>

theorem stream_id_faithful:
  assumes "unat i < 2 ^ 62"
  shows "quic_stream_is_client_initiated (quic_stream_id is_server is_uni i) = (\<not> is_server)
    \<and> quic_stream_is_uni (quic_stream_id is_server is_uni i) = is_uni
    \<and> unat (quic_stream_id is_server is_uni i) div 4 = unat i
    \<and> quic_stream_can_send am_client (quic_stream_id is_server is_uni i) = (\<not> is_uni \<or> am_client = (\<not> is_server))
    \<and> quic_stream_can_receive am_client (quic_stream_id is_server is_uni i) = (\<not> is_uni \<or> am_client = is_server)
    \<and> (case quic_stream_max_id is_server is_uni m of
         None \<Rightarrow> m = 0 \<or> 2 ^ 60 < unat m
       | Some k \<Rightarrow> quic_stream_id is_server is_uni i \<le> k \<longleftrightarrow> i < m)"
proof -
  note u = unat_stream_id[OF assms, of is_server is_uni]
  have c: "quic_stream_is_client_initiated (quic_stream_id is_server is_uni i) = (\<not> is_server)"
    unfolding quic_stream_is_client_initiated_def QUIC_STREAM_INITIATOR_BIT_def bit_low_mod u by (auto; presburger)
  have d: "quic_stream_is_uni (quic_stream_id is_server is_uni i) = is_uni"
    unfolding quic_stream_is_uni_def QUIC_STREAM_DIR_BIT_def bit_low_mod u by (auto; presburger)
  have lim: "unat QUIC_MAX_STREAMS_LIMIT = 2 ^ 60" by (simp add: QUIC_MAX_STREAMS_LIMIT_def)
  have mx: "case quic_stream_max_id is_server is_uni m of None \<Rightarrow> m = 0 \<or> 2 ^ 60 < unat m
       | Some k \<Rightarrow> quic_stream_id is_server is_uni i \<le> k \<longleftrightarrow> i < m"
  proof (cases "m = 0 \<or> 2 ^ 60 < unat m")
    case False
    then have "0 < unat m" by (simp add: unat_gt_0)
    then have m: "unat (m - 1) = unat m - 1" "0 < unat m" "unat m \<le> 2 ^ 60"
      using False by (simp_all add: unat_sub_if')
    then have "quic_stream_max_id is_server is_uni m = Some (quic_stream_id is_server is_uni (m - 1))"
      using False lim by (simp add: quic_stream_max_id_def quic_stream_max_streams_ok_def word_le_nat_alt)
    moreover have "unat (quic_stream_id is_server is_uni (m - 1)) =
        4 * (unat m - 1) + (if is_server then 1 else 0) + (if is_uni then 2 else 0)"
      using unat_stream_id[of "m - 1" is_server is_uni] m by simp
    ultimately show ?thesis using m(2) u by (auto simp: word_le_nat_alt word_less_nat_alt)
  qed (use lim in \<open>auto simp: quic_stream_max_id_def quic_stream_max_streams_ok_def word_le_nat_alt\<close>)
  have "unat (quic_stream_id is_server is_uni i) div 4 = unat i" unfolding u by auto
  then show ?thesis using c d mx
    by (auto simp: quic_stream_can_send_def quic_stream_can_receive_def am_initiator_def)
qed

theorem stream_id_faithful_witness:
  "quic_stream_is_uni (quic_stream_id True True 3) \<and> unat (quic_stream_id True True 3) div 4 = 3"
  using stream_id_faithful[of 3 True True True 5] by simp

section \<open>Flow control between two endpoints\<close>

text \<open>A sender and the receiver that grants it credit: the bytes that have arrived, and the
  \<^verbatim>\<open>MAX_DATA\<close> values on their way. Values may be delayed, repeated and reordered.\<close>

record flow_sys =
  sys_snd :: quic_flow_send
  sys_rcv :: quic_flow_credit
  sys_wire :: "u64 set"
  sys_arrived :: u64

definition flow_init :: "u64 \<Rightarrow> flow_sys" where
  "flow_init w = \<lparr>sys_snd = quic_flow_send_init w, sys_rcv = quic_flow_credit_init w, sys_wire = {}, sys_arrived = 0\<rparr>"

inductive flow_step :: "flow_sys \<Rightarrow> flow_sys \<Rightarrow> bool" where
  send: "quic_flow_send_record (sys_snd s) n = (True, f) \<Longrightarrow> flow_step s (s\<lparr>sys_snd := f\<rparr>)"
| arrive: "sys_arrived s \<le> a \<Longrightarrow> a \<le> fs_sent (sys_snd s) \<Longrightarrow> flow_step s (s\<lparr>sys_arrived := a\<rparr>)"
| consume: "unat (cr_consumed (sys_rcv s)) + unat n \<le> unat (sys_arrived s) \<Longrightarrow>
    unat (sys_arrived s) + unat (cr_window (sys_rcv s)) < 2 ^ 64 \<Longrightarrow>
    quic_flow_credit_consume (sys_rcv s) n = (m, c) \<Longrightarrow>
    flow_step s (s\<lparr>sys_rcv := c, sys_wire := insert m (sys_wire s)\<rparr>)"
| update: "m \<in> sys_wire s \<Longrightarrow> flow_step s (s\<lparr>sys_snd := quic_flow_send_update_max (sys_snd s) m\<rparr>)"

inductive flow_reach :: "u64 \<Rightarrow> flow_sys \<Rightarrow> bool" for w where
  start: "flow_reach w (flow_init w)"
| step: "flow_reach w s \<Longrightarrow> flow_step s t \<Longrightarrow> flow_reach w t"

definition flow_inv :: "flow_sys \<Rightarrow> bool" where
  "flow_inv s \<longleftrightarrow>
     cr_consumed (sys_rcv s) \<le> sys_arrived s \<and> sys_arrived s \<le> fs_sent (sys_snd s) \<and>
     fs_sent (sys_snd s) \<le> fs_max_data (sys_snd s) \<and> fs_max_data (sys_snd s) \<le> cr_max_data (sys_rcv s) \<and>
     (\<forall>m\<in>sys_wire s. m \<le> cr_max_data (sys_rcv s)) \<and>
     unat (cr_max_data (sys_rcv s)) = unat (cr_consumed (sys_rcv s)) + unat (cr_window (sys_rcv s))"

lemma flow_send_record_ok:
  assumes "quic_flow_send_record f n = (True, f')" "fs_sent f \<le> fs_max_data f"
  shows "fs_max_data f' = fs_max_data f \<and> fs_sent f' \<le> fs_max_data f \<and> unat (fs_sent f') = unat (fs_sent f) + unat n"
proof -
  have n: "n \<le> quic_flow_send_avail f" "f' = f\<lparr>fs_sent := fs_sent f + n\<rparr>"
    using assms(1) by (auto simp: quic_flow_send_record_def split: if_splits)
  have "unat (quic_flow_send_avail f) = unat (fs_max_data f) - unat (fs_sent f)"
    using assms(2) by (auto simp: quic_flow_send_avail_def unat_sub word_le_nat_alt word_less_nat_alt)
  with n(1) assms(2) have le: "unat (fs_sent f) + unat n \<le> unat (fs_max_data f)" by (simp add: word_le_nat_alt)
  then have "unat (fs_sent f + n) = unat (fs_sent f) + unat n"
    using unsigned_less[of "fs_max_data f", where ?'a = nat] by (simp add: unat_word_ariths)
  then show ?thesis using n(2) le by (simp add: word_le_nat_alt)
qed

lemma flow_step_inv: "flow_step s t \<Longrightarrow> flow_inv s \<Longrightarrow> flow_inv t"
proof (induction rule: flow_step.induct)
  case (send s n f)
  then show ?case using flow_send_record_ok[OF send.hyps] by (auto simp: flow_inv_def word_le_nat_alt)
next
  case (arrive s a)
  then show ?case by (auto simp: flow_inv_def)
next
  case (consume s n m c)
  let ?r = "sys_rcv s"
  have c: "c = ?r\<lparr>cr_consumed := cr_consumed ?r + n, cr_max_data := cr_consumed ?r + n + cr_window ?r\<rparr>"
    "m = cr_consumed ?r + n + cr_window ?r"
    using consume.hyps(3) by (auto simp: quic_flow_credit_consume_def Let_def)
  have 1: "unat (cr_consumed ?r + n) = unat (cr_consumed ?r) + unat n"
    using consume.hyps(1,2) by (simp add: unat_word_ariths)
  then have 2: "unat (cr_consumed ?r + n + cr_window ?r) = unat (cr_consumed ?r) + unat n + unat (cr_window ?r)"
    using consume.hyps(1,2) unat_word_ariths(1)[of "cr_consumed ?r + n" "cr_window ?r"] by simp
  have "cr_max_data ?r \<le> cr_consumed ?r + n + cr_window ?r"
    using consume.prems 2 by (simp add: flow_inv_def word_le_nat_alt)
  then show ?case using consume.prems consume.hyps(1) 1 2 c
    by (auto simp: flow_inv_def word_le_nat_alt)
next
  case (update m s)
  then show ?case
    by (auto simp: flow_inv_def quic_flow_send_update_max_def quic_u64_max_def)
qed

lemma flow_reach_inv: "flow_reach w s \<Longrightarrow> flow_inv s"
proof (induction rule: flow_reach.induct)
  case start
  show ?case by (simp add: flow_inv_def flow_init_def quic_flow_send_init_def quic_flow_credit_init_def)
next
  case (step s t)
  then show ?case using flow_step_inv by blast
qed

text \<open>C17: A sender that asks \<^verbatim>\<open>quic_flow_send_record\<close> never violates the receiver's limit, however the
  \<^verbatim>\<open>MAX_DATA\<close> values are delayed, repeated or reordered: in every reachable state the bytes sent stay
  within the limit the sender knows, this limit within the one the receiver has granted, and
  the receiver's violation check stays silent on everything sent so far.\<close>

theorem flow_control_respected:
  assumes "flow_reach w s"
  shows "fs_sent (sys_snd s) \<le> fs_max_data (sys_snd s) \<and> fs_max_data (sys_snd s) \<le> cr_max_data (sys_rcv s)
     \<and> \<not> quic_flow_credit_violation (sys_rcv s) (fs_sent (sys_snd s))
     \<and> \<not> quic_flow_credit_violation (sys_rcv s) (sys_arrived s)"
  using flow_reach_inv[OF assms] by (auto simp: flow_inv_def quic_flow_credit_violation_def not_less)

theorem flow_control_respected_witness:
  "\<exists>s. flow_reach 10 s \<and> fs_sent (sys_snd s) = 10 \<and> \<not> quic_flow_credit_violation (sys_rcv s) 10"
proof -
  let ?s = "(flow_init 10)\<lparr>sys_snd := \<lparr>fs_sent = 10, fs_max_data = 10\<rparr>\<rparr>"
  have "quic_flow_send_record (sys_snd (flow_init 10)) 10 = (True, \<lparr>fs_sent = 10, fs_max_data = 10\<rparr>)"
    by (simp add: flow_init_def quic_flow_send_init_def quic_flow_send_record_def quic_flow_send_avail_def)
  then have "flow_reach 10 ?s" by (intro flow_reach.step[OF flow_reach.start] flow_step.send)
  with flow_control_respected[OF this] show ?thesis by (intro exI[of _ ?s]) simp
qed


section \<open>Reassembly\<close>

lemma overwrite_snoc:
  assumes "off + length xs < length b"
  shows "(overwrite b off xs)[off + length xs := x] = overwrite b off (xs @ [x])"
proof -
  have "drop (off + length xs) b = b ! (off + length xs) # drop (Suc (off + length xs)) b"
    using assms by (simp add: Cons_nth_drop_Suc)
  then show ?thesis using assms by (simp add: overwrite_def list_update_append)
qed

lemma rd_overwrite:
  assumes "off + length xs \<le> length b"
  shows "rd (overwrite b off xs) i = (if off \<le> i \<and> i < off + length xs then xs ! (i - off) else rd b i)"
  using assms by (auto simp: overwrite_def rd_def nth_append)

definition reasm_ok :: "quic_reasm \<Rightarrow> bool" where
  "reasm_ok r \<longleftrightarrow> length (ra_buf r) = QUIC_REASM_CAP \<and> length (ra_have r) = QUIC_REASM_CAP \<and> unat (ra_delivered r) \<le> QUIC_REASM_CAP"

lemma reasm_insert_eq:
  assumes "reasm_ok r" "unat off + length data \<le> QUIC_REASM_CAP"
    "\<not> ra_have_final r \<or> unat off + length data \<le> unat (ra_final_size r)"
  shows "quic_reasm_insert r off data (length data) =
    (True, r\<lparr>ra_buf := overwrite (ra_buf r) (unat off) data,
             ra_have := overwrite (ra_have r) (unat off) (replicate (length data) 1)\<rparr>)"
proof -
  have cap: "QUIC_REASM_CAP = 4096" by (simp add: QUIC_REASM_CAP_def)
  have idx: "unat (off + of_nat i) = unat off + i" if "i \<le> length data" for i
    using that assms(2) cap by (simp add: unat_word_ariths unat_of_nat)
  have fits: "insert_fits r off (length data)"
    using assms(3) assms(2)[unfolded cap] idx[of "length data"]
    by (simp add: insert_fits_def cap word_less_nat_alt word_le_nat_alt)
  have "fold (\<lambda>i r. r\<lparr>ra_buf := (ra_buf r)[unat (off + of_nat i) := rd data i],
                    ra_have := (ra_have r)[unat (off + of_nat i) := 1]\<rparr>) [0..<k] r =
      r\<lparr>ra_buf := overwrite (ra_buf r) (unat off) (take k data),
        ra_have := overwrite (ra_have r) (unat off) (replicate k 1)\<rparr>" if "k \<le> length data" for k
    using that
  proof (induction k)
    case 0
    then show ?case by (simp add: overwrite_def)
  next
    case (Suc k)
    then have k: "k < length data" "rd data k = data ! k" by (simp_all add: rd_def)
    have "(overwrite (ra_buf r) (unat off) (take k data))[unat off + k := data ! k] =
        overwrite (ra_buf r) (unat off) (take (Suc k) data)"
      using overwrite_snoc[of "unat off" "take k data" "ra_buf r" "data ! k"] k assms(1,2)
      by (simp add: reasm_ok_def take_Suc_conv_app_nth)
    moreover have "(overwrite (ra_have r) (unat off) (replicate k 1))[unat off + k := 1] =
        overwrite (ra_have r) (unat off) (replicate (Suc k) 1)"
      using overwrite_snoc[of "unat off" "replicate k 1" "ra_have r" 1] k assms(1,2)
      by (simp add: reasm_ok_def replicate_append_same)
    ultimately show ?case using Suc k idx[of k] by simp
  qed
  from this[of "length data"] show ?thesis using fits by (simp add: quic_reasm_insert_def)
qed

lemma reasm_insert_refused:
  assumes "QUIC_REASM_CAP < unat off + len" "unat off + len < 2 ^ 64"
  shows "quic_reasm_insert r off data len = (False, r)"
proof -
  have "unat (off + of_nat len) = unat off + len"
    using assms(2) by (simp add: unat_word_ariths unat_of_nat)
  then have "\<not> insert_fits r off len"
    using assms by (simp add: insert_fits_def QUIC_REASM_CAP_def word_less_nat_alt)
  then show ?thesis by (simp add: quic_reasm_insert_def)
qed

lemma deliver_loop_spec:
  "unat d \<le> QUIC_REASM_CAP \<Longrightarrow>
   unat d \<le> unat (deliver_loop hv d) \<and> unat (deliver_loop hv d) \<le> QUIC_REASM_CAP \<and>
   (\<forall>i. unat d \<le> i \<and> i < unat (deliver_loop hv d) \<longrightarrow> rd hv i \<noteq> 0) \<and>
   (unat (deliver_loop hv d) = QUIC_REASM_CAP \<or> rd hv (unat (deliver_loop hv d)) = 0)"
proof (induction hv d rule: deliver_loop.induct)
  case (1 hv d)
  show ?case
  proof (cases "unat d < QUIC_REASM_CAP \<and> rd hv (unat d) \<noteq> 0")
    case True
    then have s: "unat (d + 1) = Suc (unat d)" by (simp add: QUIC_REASM_CAP_def unat_word_ariths)
    have e: "deliver_loop hv d = deliver_loop hv (d + 1)" using True by (subst deliver_loop.simps) simp
    from 1(1)[OF True] s True have ih: "Suc (unat d) \<le> unat (deliver_loop hv (d + 1))"
      "unat (deliver_loop hv (d + 1)) \<le> QUIC_REASM_CAP"
      "\<forall>i. Suc (unat d) \<le> i \<and> i < unat (deliver_loop hv (d + 1)) \<longrightarrow> rd hv i \<noteq> 0"
      "unat (deliver_loop hv (d + 1)) = QUIC_REASM_CAP \<or> rd hv (unat (deliver_loop hv (d + 1))) = 0" by auto
    have "rd hv i \<noteq> 0" if "unat d \<le> i" "i < unat (deliver_loop hv (d + 1))" for i
      using that ih(3) True by (cases "i = unat d") auto
    then show ?thesis unfolding e using ih by auto
  next
    case False
    then have "deliver_loop hv d = d" by (subst deliver_loop.simps) auto
    then show ?thesis using False 1(2) by auto
  qed
qed

text \<open>Operations of an application and its peer on one receiving stream, and the bytes read.\<close>

datatype read_op = Push u64 bytes | Pull usz

fun read_run :: "quic_stream_read \<Rightarrow> read_op list \<Rightarrow> bytes \<times> quic_stream_read" where
  "read_run s [] = ([], s)"
| "read_run s (Push off data # ops) = read_run (snd (quic_stream_read_push s off data (length data))) ops"
| "read_run s (Pull cap # ops) =
     (case quic_stream_read_pull s cap of (out, s) \<Rightarrow> case read_run s ops of (out', s) \<Rightarrow> (out @ out', s))"

text \<open>A push carries a piece of the stream \<open>d\<close>.\<close>

fun op_of :: "bytes \<Rightarrow> read_op \<Rightarrow> bool" where
  "op_of d (Push off data) \<longleftrightarrow> unat off + length data \<le> length d \<and> take (length data) (drop (unat off) d) = data"
| "op_of d (Pull cap) \<longleftrightarrow> True"

fun op_covers :: "read_op \<Rightarrow> nat \<Rightarrow> bool" where
  "op_covers (Push off data) i \<longleftrightarrow> unat off \<le> i \<and> i < unat off + length data \<and> unat off + length data \<le> QUIC_REASM_CAP"
| "op_covers (Pull cap) i \<longleftrightarrow> False"

text \<open>What the buffer stores (the received offsets \<open>R\<close> of the stream \<open>d\<close>) and how far the
  application is.\<close>

definition read_inv :: "bytes \<Rightarrow> nat set \<Rightarrow> quic_stream_read \<Rightarrow> bool" where
  "read_inv d R s \<longleftrightarrow> reasm_ok (sr_r s) \<and> \<not> ra_have_final (sr_r s) \<and>
     (\<forall>i < QUIC_REASM_CAP. rd (ra_have (sr_r s)) i \<noteq> 0 \<longleftrightarrow> i \<in> R) \<and>
     (\<forall>i\<in>R. i < QUIC_REASM_CAP \<and> i < length d \<and> rd (ra_buf (sr_r s)) i = d ! i) \<and>
     {0..<unat (ra_delivered (sr_r s))} \<subseteq> R \<and> sr_read_off s \<le> ra_delivered (sr_r s)"

lemma read_inv_init:
  "length (ra_buf (sr_r s)) = QUIC_REASM_CAP \<Longrightarrow> read_inv d {} (quic_stream_read_init s)"
  by (simp add: read_inv_def quic_stream_read_init_def quic_reasm_init_def reasm_ok_def rd_def)

lemma read_inv_push:
  assumes inv: "read_inv d R s" and op: "op_of d (Push off data)" and len: "length d < 2 ^ 63"
  shows "read_inv d (R \<union> {i. op_covers (Push off data) i}) (snd (quic_stream_read_push s off data (length data)))
     \<and> sr_read_off (snd (quic_stream_read_push s off data (length data))) = sr_read_off s"
proof (cases "unat off + length data \<le> QUIC_REASM_CAP")
  case True
  let ?r = "sr_r s"
  have r: "reasm_ok ?r" "\<not> ra_have_final ?r" using inv by (auto simp: read_inv_def)
  have p: "snd (quic_stream_read_push s off data (length data)) = s\<lparr>sr_r := ?r\<lparr>ra_buf := overwrite (ra_buf ?r) (unat off) data,
       ra_have := overwrite (ra_have ?r) (unat off) (replicate (length data) 1)\<rparr>\<rparr>"
    using reasm_insert_eq[OF r(1) True] r(2) by (simp add: quic_stream_read_push_def)
  have n: "data ! (i - unat off) = d ! i" if "unat off \<le> i" "i < unat off + length data" for i
  proof -
    from op have "take (length data) (drop (unat off) d) = data" by simp
    then have "data ! (i - unat off) = take (length data) (drop (unat off) d) ! (i - unat off)" by (simp only:)
    also have "\<dots> = drop (unat off) d ! (i - unat off)" using that by (intro nth_take) simp
    also have "\<dots> = d ! i" using that op by simp
    finally show ?thesis .
  qed
  have "rd (overwrite (ra_buf ?r) (unat off) data) i = (if unat off \<le> i \<and> i < unat off + length data then data ! (i - unat off) else rd (ra_buf ?r) i)"
    "rd (overwrite (ra_have ?r) (unat off) (replicate (length data) 1)) i = (if unat off \<le> i \<and> i < unat off + length data then 1 else rd (ra_have ?r) i)" for i
    using r(1) True by (auto simp: rd_overwrite reasm_ok_def)
  with inv op True n show ?thesis
    unfolding p by (auto simp: read_inv_def reasm_ok_def)
next
  case False
  have "unat off + length data < 2 ^ 64" using op len by simp
  then have "quic_reasm_insert (sr_r s) off data (length data) = (False, sr_r s)"
    using False by (intro reasm_insert_refused) simp_all
  moreover have "{i. op_covers (Push off data) i} = {}" using False by auto
  ultimately show ?thesis using inv by (simp add: quic_stream_read_push_def del: op_covers.simps)
qed

lemma read_inv_pull:
  assumes inv: "read_inv d R s" and p: "quic_stream_read_pull s cap = (out, s')"
  shows "read_inv d R s'"
    and "out = take (length out) (drop (unat (sr_read_off s)) d)"
    and "unat (sr_read_off s') = unat (sr_read_off s) + length out" "unat (sr_read_off s') \<le> length d"
    and "length out < cap \<Longrightarrow> unat (sr_read_off s') \<notin> R"
proof -
  let ?r = "sr_r s" and ?o = "unat (sr_read_off s)"
  define e where "e = deliver_loop (ra_have ?r) (ra_delivered ?r)"
  define n where "n = (if unat (e - sr_read_off s) < cap then unat (e - sr_read_off s) else cap)"
  have s': "s' = s\<lparr>sr_r := ?r\<lparr>ra_delivered := e\<rparr>, sr_read_off := sr_read_off s + of_nat n\<rparr>"
    and out: "out = map (\<lambda>i. rd (ra_buf ?r) (unat (sr_read_off s + of_nat i))) [0..<n]"
    using p by (auto simp: quic_stream_read_pull_def readable_def quic_reasm_deliver_def Let_def e_def n_def)
  have ok: "reasm_ok ?r" "unat (ra_delivered ?r) \<le> QUIC_REASM_CAP" using inv by (auto simp: read_inv_def reasm_ok_def)
  note d = deliver_loop_spec[OF ok(2), of "ra_have ?r", folded e_def]
  have have_R: "\<And>i. i < QUIC_REASM_CAP \<Longrightarrow> (rd (ra_have ?r) i \<noteq> 0 \<longleftrightarrow> i \<in> R)"
    and RD: "\<And>i. i \<in> R \<Longrightarrow> i < QUIC_REASM_CAP \<and> i < length d \<and> rd (ra_buf ?r) i = d ! i"
    and DR: "\<And>i. i < unat (ra_delivered ?r) \<Longrightarrow> i \<in> R" and od: "?o \<le> unat (ra_delivered ?r)"
    using inv by (auto simp: read_inv_def word_le_nat_alt)
  have eR: "i \<in> R" if "i < unat e" for i
    using that d DR[of i] have_R[of i] by (cases "i < unat (ra_delivered ?r)") auto
  have oe: "?o \<le> unat e" "unat e \<le> 4096" using od d by (auto simp: QUIC_REASM_CAP_def)
  have sub: "unat (e - sr_read_off s) = unat e - ?o" using oe by (simp add: unat_sub word_le_nat_alt)
  have n: "?o + n \<le> unat e" using oe by (auto simp: n_def sub)
  have ix: "unat (sr_read_off s + of_nat i) = ?o + i" if "i \<le> n" for i
    using that n oe by (simp add: unat_word_ariths unat_of_nat)
  have ed: "unat e \<le> length d" using RD[OF eR, of "unat e - 1"] by (cases "unat e = 0") auto
  have len: "length out = n" by (simp add: out)
  show "out = take (length out) (drop ?o d)"
  proof (rule nth_equalityI)
    show "length out = length (take (length out) (drop ?o d))" using n ed len by simp
    fix i assume i: "i < length out"
    then have "out ! i = rd (ra_buf ?r) (?o + i)" using ix[of i] by (simp add: out)
    also have "\<dots> = d ! (?o + i)" using RD[OF eR, of "?o + i"] i len n by simp
    also have "\<dots> = take (length out) (drop ?o d) ! i" using i n ed len by simp
    finally show "out ! i = take (length out) (drop ?o d) ! i" .
  qed
  show ro: "unat (sr_read_off s') = ?o + length out" using ix[of n] s' len by simp
  then show "unat (sr_read_off s') \<le> length d" using n ed len by simp
  show "read_inv d R s'"
    using inv s' d eR ix[of n] n by (auto simp: read_inv_def reasm_ok_def word_le_nat_alt)
  show "unat (sr_read_off s') \<notin> R" if "length out < cap"
  proof -
    have "unat (sr_read_off s') = unat e" using that len ro oe by (auto simp: n_def sub split: if_splits)
    then show ?thesis using d have_R[of "unat e"] RD[of "unat e"] by auto
  qed
qed

lemma read_run_spec:
  assumes "read_inv d R s" "list_all (op_of d) ops" "length d < 2 ^ 63" "read_run s ops = (out, s')"
  shows "\<exists>R'. R' = R \<union> {i. \<exists>op\<in>set ops. op_covers op i} \<and> read_inv d R' s' \<and>
     unat (sr_read_off s') = unat (sr_read_off s) + length out \<and>
     out = take (length out) (drop (unat (sr_read_off s)) d)"
  using assms
proof (induction s ops arbitrary: R out rule: read_run.induct)
  case (2 s off data ops)
  from read_inv_push[OF "2.prems"(1), of off data] "2.prems"
  have "read_inv d (R \<union> {i. op_covers (Push off data) i}) (snd (quic_stream_read_push s off data (length data)))"
    "sr_read_off (snd (quic_stream_read_push s off data (length data))) = sr_read_off s" by simp_all
  moreover have "R \<union> {i. op_covers (Push off data) i} \<union> {i. \<exists>op\<in>set ops. op_covers op i} =
      R \<union> {i. \<exists>op\<in>set (Push off data # ops). op_covers op i}" by auto
  ultimately show ?case using "2.IH"[of "R \<union> {i. op_covers (Push off data) i}" out] "2.prems" by simp
next
  case (3 s cap ops)
  obtain o1 s1 where p: "quic_stream_read_pull s cap = (o1, s1)" by (cases "quic_stream_read_pull s cap")
  obtain o2 where o2: "read_run s1 ops = (o2, s')" "out = o1 @ o2"
    using "3.prems"(4) p by (auto split: prod.splits)
  note q = read_inv_pull[OF "3.prems"(1) p]
  from "3.IH"[OF p[symmetric] q(1) _ "3.prems"(3) o2(1)] "3.prems"(2)
  have ih: "read_inv d (R \<union> {i. \<exists>op\<in>set ops. op_covers op i}) s'"
    "unat (sr_read_off s') = unat (sr_read_off s1) + length o2" "o2 = take (length o2) (drop (unat (sr_read_off s1)) d)" by simp_all
  have "take (length o1 + length o2) (drop (unat (sr_read_off s)) d) =
      take (length o1) (drop (unat (sr_read_off s)) d) @ take (length o2) (drop (unat (sr_read_off s1)) d)"
    unfolding q(3) by (simp add: take_add add.commute)
  then have o: "out = take (length out) (drop (unat (sr_read_off s)) d)"
    unfolding o2(2) length_append by (simp only: q(2)[symmetric] ih(3)[symmetric])
  have R: "{i. \<exists>op\<in>set (Pull cap # ops). op_covers op i} = {i. \<exists>op\<in>set ops. op_covers op i}" by auto
  have l: "unat (sr_read_off s') = unat (sr_read_off s) + length out" using ih(2) q(3) o2(2) by simp
  show ?case unfolding R by (intro exI conjI) (rule refl ih(1) l o)+
qed auto

text \<open>C16: Reading a stream is refined by reading its bytes in order. For any sequence of pushes of
  pieces of a stream \<open>d\<close> (in any order, overlapping, repeated, or beyond the buffer) and of
  pulls, what the application has read is a prefix of \<open>d\<close>, of exactly the length of the read
  position; and once the pushes that fit the buffer cover all of \<open>d\<close>, one more pull with
  enough room completes it.\<close>

theorem stream_read_in_order:
  assumes "length (ra_buf (sr_r s)) = QUIC_REASM_CAP" "list_all (op_of d) ops" "length d < 2 ^ 63"
    and "read_run (quic_stream_read_init s) ops = (out, s')"
  shows "out = take (unat (sr_read_off s')) d \<and> unat (sr_read_off s') \<le> length d \<and>
     ((\<forall>i < length d. \<exists>op\<in>set ops. op_covers op i) \<longrightarrow> length d < cap \<longrightarrow>
        out @ fst (quic_stream_read_pull s' cap) = d)"
proof -
  define R where "R = {i. \<exists>op\<in>set ops. op_covers op i}"
  from read_run_spec[OF read_inv_init[OF assms(1)] assms(2-4)]
  have r: "read_inv d R s'" "unat (sr_read_off s') = length out" "out = take (length out) d"
    by (auto simp: quic_stream_read_init_def R_def)
  have le: "length out \<le> length d" using arg_cong[OF r(3), of length] by simp
  obtain o1 s1 where p: "quic_stream_read_pull s' cap = (o1, s1)" by (cases "quic_stream_read_pull s' cap")
  note q = read_inv_pull[OF r(1) p]
  have "out @ o1 = d" if cov: "\<forall>i < length d. \<exists>op\<in>set ops. op_covers op i" and cap: "length d < cap"
  proof -
    have all: "out @ o1 = take (length out + length o1) d"
      using r(2,3) q(2) by (metis take_add)
    have "length o1 < cap" using q(3,4) cap by simp
    then have "unat (sr_read_off s1) \<notin> R" by (rule q(5))
    then have "length d \<le> length out + length o1" using cov q(3) r(2) by (auto simp: R_def not_less[symmetric])
    then show ?thesis using all by simp
  qed
  then show ?thesis using r p le by auto
qed

theorem stream_read_in_order_witness:
  "case read_run (quic_stream_read_init \<lparr>sr_r = \<lparr>ra_buf = replicate QUIC_REASM_CAP 0, ra_have = [], ra_delivered = 0,
        ra_final_size = 0, ra_have_final = False\<rparr>, sr_read_off = 0\<rparr>) [Push 2 [3, 4], Pull 9, Push 0 [1, 2, 3]] of
     (out, s') \<Rightarrow> out @ fst (quic_stream_read_pull s' 9) = [1, 2, 3, 4]"
proof (cases "read_run (quic_stream_read_init \<lparr>sr_r = \<lparr>ra_buf = replicate QUIC_REASM_CAP 0, ra_have = [], ra_delivered = 0,
        ra_final_size = 0, ra_have_final = False\<rparr>, sr_read_off = 0\<rparr>) [Push 2 [3, 4], Pull 9, Push 0 [1, 2, 3]]")
  case (Pair out s')
  have "op_covers (Push 2 [3, 4]) i \<or> op_covers (Push 0 [1, 2, 3]) i" if "i < 4" for i
    using that by (auto simp: QUIC_REASM_CAP_def)
  then have cov: "\<forall>i < length [1, 2, 3, 4 :: u8]. \<exists>op\<in>set [Push 2 [3, 4], Pull 9, Push 0 [1, 2, 3]]. op_covers op i" by simp
  have "out = take (unat (sr_read_off s')) [1, 2, 3, 4] \<and> unat (sr_read_off s') \<le> length [1, 2, 3, 4 :: u8] \<and>
     ((\<forall>i < length [1, 2, 3, 4 :: u8]. \<exists>op\<in>set [Push 2 [3, 4], Pull 9, Push 0 [1, 2, 3]]. op_covers op i) \<longrightarrow>
        length [1, 2, 3, 4 :: u8] < 9 \<longrightarrow> out @ fst (quic_stream_read_pull s' 9) = [1, 2, 3, 4])"
    by (rule stream_read_in_order[OF _ _ _ Pair]) simp_all
  from this[THEN conjunct2, THEN conjunct2, THEN mp, OF cov] show ?thesis
    unfolding Pair by simp
qed

section \<open>Final sizes\<close>

datatype size_op = SizeData u64 u64 | SizeSet u64

fun size_step :: "bool \<times> quic_finalsize \<Rightarrow> size_op \<Rightarrow> bool \<times> quic_finalsize" where
  "size_step (ok, f) (SizeData off len) = (case quic_finalsize_data f off len of (k, f) \<Rightarrow> (ok \<and> k, f))"
| "size_step (ok, f) (SizeSet z) = (case quic_finalsize_set f z of (k, f) \<Rightarrow> (ok \<and> k, f))"

text \<open>The end of the data an operation reports, as \<^verbatim>\<open>note_highest\<close> computes it, and the final size it fixes.\<close>

definition size_ends :: "size_op list \<Rightarrow> u64 set" where
  "size_ends ops = {off + len | off len. SizeData off len \<in> set ops}"

definition size_finals :: "size_op list \<Rightarrow> u64 set" where
  "size_finals ops = {z. SizeSet z \<in> set ops}"

definition size_inv :: "size_op list \<Rightarrow> bool \<Rightarrow> quic_finalsize \<Rightarrow> bool" where
  "size_inv ops ok f \<longleftrightarrow>
     (\<forall>e\<in>size_ends ops. e \<le> fz_highest f) \<and> (fz_highest f = 0 \<or> fz_highest f \<in> size_ends ops) \<and>
     ok = (\<forall>z\<in>size_finals ops. \<forall>z'\<in>size_finals ops. z = z' \<and> fz_highest f \<le> z) \<and>
     (ok \<longrightarrow> (fz_known f \<longleftrightarrow> size_finals ops \<noteq> {}) \<and> (fz_known f \<longrightarrow> fz_final_size f \<in> size_finals ops))"

lemma size_inv_step:
  assumes "size_inv ops ok f" "size_step (ok, f) x = (ok', f')"
  shows "size_inv (ops @ [x]) ok' f'"
proof (cases x)
  case (SizeData off len)
  have e: "size_ends (ops @ [x]) = insert (off + len) (size_ends ops)" "size_finals (ops @ [x]) = size_finals ops"
    using SizeData by (auto simp: size_ends_def size_finals_def)
  have f': "fz_highest f' = max (fz_highest f) (off + len)" "fz_known f' = fz_known f" "fz_final_size f' = fz_final_size f"
    "ok' = (ok \<and> (fz_known f \<longrightarrow> off + len \<le> fz_final_size f))"
    using assms(2) SizeData
    by (auto simp: quic_finalsize_data_def note_highest_def Let_def max_def split: if_splits)
  show ?thesis
  proof (cases ok)
    case True
    then have inv: "\<forall>e\<in>size_ends ops. e \<le> fz_highest f" "fz_highest f = 0 \<or> fz_highest f \<in> size_ends ops"
      "\<And>z z'. z \<in> size_finals ops \<Longrightarrow> z' \<in> size_finals ops \<Longrightarrow> z = z' \<and> fz_highest f \<le> z"
      "fz_known f \<longleftrightarrow> size_finals ops \<noteq> {}" "fz_known f \<longrightarrow> fz_final_size f \<in> size_finals ops"
      using assms(1) by (auto simp: size_inv_def)
    have "ok' = (\<forall>z\<in>size_finals ops. \<forall>z'\<in>size_finals ops. z = z' \<and> max (fz_highest f) (off + len) \<le> z)"
      using True f'(4) inv(3-5) by (metis all_not_in_conv max.bounded_iff)
    then show ?thesis using inv f' e by (auto simp: size_inv_def max_def)
  next
    case False
    then obtain z z' where "z \<in> size_finals ops" "z' \<in> size_finals ops" "\<not> (z = z' \<and> fz_highest f \<le> z)"
      using assms(1) by (auto simp: size_inv_def)
    then have "\<not> (\<forall>z\<in>size_finals ops. \<forall>z'\<in>size_finals ops. z = z' \<and> max (fz_highest f) (off + len) \<le> z)" by fastforce
    then show ?thesis using assms(1) False f' e by (auto simp: size_inv_def max_def)
  qed
next
  case (SizeSet z)
  have e: "size_ends (ops @ [x]) = size_ends ops" "size_finals (ops @ [x]) = insert z (size_finals ops)"
    using SizeSet by (auto simp: size_ends_def size_finals_def)
  have f': "fz_highest f' = fz_highest f" "ok' = (ok \<and> size_consistent f z)"
    "size_consistent f z \<Longrightarrow> fz_known f' \<and> fz_final_size f' = z"
    using assms(2) SizeSet by (auto simp: quic_finalsize_set_def split: if_splits)
  show ?thesis
  proof (cases ok)
    case True
    then have inv: "\<And>z z'. z \<in> size_finals ops \<Longrightarrow> z' \<in> size_finals ops \<Longrightarrow> z = z' \<and> fz_highest f \<le> z"
      "fz_known f \<longleftrightarrow> size_finals ops \<noteq> {}" "fz_known f \<longrightarrow> fz_final_size f \<in> size_finals ops"
      using assms(1) by (auto simp: size_inv_def)
    have "ok' = (\<forall>y\<in>insert z (size_finals ops). \<forall>z'\<in>insert z (size_finals ops). y = z' \<and> fz_highest f \<le> y)"
      using True f'(2) inv by (auto simp: size_consistent_def)
    then show ?thesis using assms(1) f' e by (auto simp: size_inv_def)
  next
    case False
    then show ?thesis using assms(1) f' e by (auto simp: size_inv_def)
  qed
qed

lemma size_run_inv: "size_inv ops (fst (foldl size_step (True, quic_finalsize_init) ops)) (snd (foldl size_step (True, quic_finalsize_init) ops))"
proof (induction ops rule: rev_induct)
  case Nil
  then show ?case by (simp add: size_inv_def size_ends_def size_finals_def quic_finalsize_init_def)
next
  case (snoc x ops)
  show ?case by (simp add: size_inv_step[OF snoc, of x "fst (size_step (foldl size_step (True, quic_finalsize_init) ops) x)"])
qed

text \<open>The code's sum \<^verbatim>\<open>offset + len\<close> wraps at 64 bits: data that ends past the largest offset is accepted behind
  a final size of 5.\<close>

lemma final_size_wraps: "fst (foldl size_step (True, quic_finalsize_init) [SizeSet 5, SizeData 0xffffffffffffffff 2])"
  by (simp add: quic_finalsize_set_def quic_finalsize_data_def note_highest_def size_consistent_def quic_finalsize_init_def)

text \<open>C19: The final-size checks accept a sequence of STREAM data and final-size reports exactly when
  it is consistent, in whatever order the reports come: all final sizes agree, and the data \<open>[off, off + len)\<close> has no
  byte at or beyond them and does not start beyond them (ending exactly at the final size is consistent). The ends are those of
  the unbounded numbers, and below 2^64: the code does not guard its sum, and \<^verbatim>\<open>quic_stream_bounds_ok\<close> is the check
  that gives this bound.\<close>

theorem final_size_consistency:
  assumes "\<forall>off len. SizeData off len \<in> set ops \<longrightarrow> unat off + unat len < 2 ^ 64"
  shows "fst (foldl size_step (True, quic_finalsize_init) ops) \<longleftrightarrow>
     (\<forall>z. SizeSet z \<in> set ops \<longrightarrow>
        (\<forall>z'. SizeSet z' \<in> set ops \<longrightarrow> z' = z) \<and>
        (\<forall>off len. SizeData off len \<in> set ops \<longrightarrow> unat off + unat len \<le> unat z))"
proof -
  let ?r = "foldl size_step (True, quic_finalsize_init) ops"
  have inv: "\<And>e. e \<in> size_ends ops \<Longrightarrow> e \<le> fz_highest (snd ?r)"
    "fz_highest (snd ?r) = 0 \<or> fz_highest (snd ?r) \<in> size_ends ops"
    "fst ?r = (\<forall>z\<in>size_finals ops. \<forall>z'\<in>size_finals ops. z = z' \<and> fz_highest (snd ?r) \<le> z)"
    using size_run_inv[of ops] by (auto simp: size_inv_def)
  have "fz_highest (snd ?r) \<le> z \<longleftrightarrow> (\<forall>e\<in>size_ends ops. e \<le> z)" for z
    using inv(1,2) by fastforce
  moreover have "(\<forall>e\<in>size_ends ops. e \<le> z) \<longleftrightarrow> (\<forall>off len. SizeData off len \<in> set ops \<longrightarrow> off + len \<le> z)" for z
    by (auto simp: size_ends_def)
  moreover have "off + len \<le> z \<longleftrightarrow> unat off + unat len \<le> unat z" if "SizeData off len \<in> set ops" for off len z
    using assms that by (simp add: word_le_nat_alt unat_word_ariths)
  ultimately have "fz_highest (snd ?r) \<le> z \<longleftrightarrow> (\<forall>off len. SizeData off len \<in> set ops \<longrightarrow> unat off + unat len \<le> unat z)" for z
    by blast
  then show ?thesis unfolding inv(3) size_finals_def by (simp only: mem_Collect_eq Ball_def) blast
qed

theorem final_size_consistency_witness:
  "\<not> fst (foldl size_step (True, quic_finalsize_init) [SizeData 0 9, SizeSet 8])
   \<and> fst (foldl size_step (True, quic_finalsize_init) [SizeData 0 9, SizeSet 9, SizeData 4 5])"
proof -
  have b: "\<forall>off len. SizeData off len \<in> set [SizeData 0 9, SizeSet 8] \<longrightarrow> unat off + unat len < 2 ^ 64"
    "\<forall>off len. SizeData off len \<in> set [SizeData 0 9, SizeSet 9, SizeData 4 5] \<longrightarrow> unat off + unat len < 2 ^ 64" by auto
  from final_size_consistency[OF b(1)] final_size_consistency[OF b(2)] show ?thesis by auto
qed

end
