(* ===== verification/Ack_Tracking.thy ===== *)
theory Ack_Tracking
  imports Ack_Frame
begin

text \<open>
  Which packets have arrived and which have been acknowledged: the receiver's window of packet
  numbers (\<^verbatim>\<open>src/transport/conn/pnspace/recvpn/\<close>), the ACK ranges built from it
  (\<^verbatim>\<open>src/transport/recovery/detect/ackgen/\<close>), the sender's table of sent packets with ACK
  processing and loss detection (\<^verbatim>\<open>src/transport/recovery/rtx/sentpkt/\<close>, \<^verbatim>\<open>detect/ackrange/\<close>,
  \<^verbatim>\<open>detect/lossdrive/\<close>) and the three packet number spaces (\<^verbatim>\<open>src/transport/conn/pnspace/pnspaces/\<close>).
  An array indexed by packet number space is a function; an output array is the list of the
  values written.
\<close>

section \<open>Searching a table\<close>

text \<open>The loop \<^verbatim>\<open>while (i < n && !stop(i)) i++\<close>, by the number of indices left.\<close>

primrec find_idx :: "(nat \<Rightarrow> bool) \<Rightarrow> nat \<Rightarrow> nat \<Rightarrow> nat" where
  "find_idx stop i 0 = i"
| "find_idx stop i (Suc k) = (if stop i then i else find_idx stop (Suc i) k)"

lemma find_idx_bounds: "i \<le> find_idx stop i k \<and> find_idx stop i k \<le> i + k"
proof (induction k arbitrary: i)
  case (Suc k)
  show ?case using Suc.IH[of "Suc i"] Suc_leD[of i] by auto
qed simp

lemma find_idx_stop: "find_idx stop i k < i + k \<Longrightarrow> stop (find_idx stop i k)"
  by (induction k arbitrary: i) auto

lemma find_idx_before: "i \<le> j \<Longrightarrow> j < find_idx stop i k \<Longrightarrow> \<not> stop j"
proof (induction k arbitrary: i)
  case (Suc k)
  then show ?case using Suc.IH[of "Suc i"] by (cases "j = i") (auto split: if_splits)
qed simp

lemma find_idx_full: "find_idx stop 0 n = n \<longleftrightarrow> (\<forall>i < n. \<not> stop i)"
proof
  assume "find_idx stop 0 n = n"
  then show "\<forall>i < n. \<not> stop i" using find_idx_before[of 0 _ stop n] by simp
next
  assume "\<forall>i < n. \<not> stop i"
  then show "find_idx stop 0 n = n"
    using find_idx_stop[of stop 0 n] find_idx_bounds[of 0 stop n]
    by (cases "find_idx stop 0 n < n") auto
qed

section \<open>recvpn.c\<close>

definition QUIC_RECVPN_WINDOW :: u64 where "QUIC_RECVPN_WINDOW = 64"

record quic_recvpn =
  rp_largest :: u64
  rp_bitmap :: u64
  rp_any :: bool

definition quic_recvpn_init :: quic_recvpn where
  "quic_recvpn_init = \<lparr>rp_largest = 0, rp_bitmap = 0, rp_any = False\<rparr>"

definition below_seen :: "quic_recvpn \<Rightarrow> u64 \<Rightarrow> bool" where
  "below_seen r pn =
     (let delta = rp_largest r - pn
      in if delta > QUIC_RECVPN_WINDOW then False
         else drop_bit (unat (delta - 1)) (rp_bitmap r) AND 1 \<noteq> 0)"

definition seen_at_or_above :: "quic_recvpn \<Rightarrow> u64 \<Rightarrow> bool" where
  "seen_at_or_above r pn =
     (if pn = rp_largest r then True else if pn > rp_largest r then False else below_seen r pn)"

definition quic_recvpn_seen :: "quic_recvpn \<Rightarrow> u64 \<Rightarrow> bool" where
  "quic_recvpn_seen r pn = (if \<not> rp_any r then False else seen_at_or_above r pn)"

definition recvpn_advance :: "quic_recvpn \<Rightarrow> u64 \<Rightarrow> quic_recvpn" where
  "recvpn_advance r pn =
     (let step = pn - rp_largest r;
          shifted = (if step \<ge> 64 then 0 else push_bit (unat step) (rp_bitmap r));
          old_bit = (if step \<le> 64 then push_bit (unat (step - 1)) 1 else 0)
      in r\<lparr>rp_bitmap := shifted OR old_bit, rp_largest := pn\<rparr>)"

definition mark_below :: "quic_recvpn \<Rightarrow> u64 \<Rightarrow> quic_recvpn" where
  "mark_below r pn =
     (let delta = rp_largest r - pn
      in if delta = 0 \<or> delta > QUIC_RECVPN_WINDOW then r
         else r\<lparr>rp_bitmap := rp_bitmap r OR push_bit (unat (delta - 1)) 1\<rparr>)"

definition quic_recvpn_record :: "quic_recvpn \<Rightarrow> u64 \<Rightarrow> quic_recvpn" where
  "quic_recvpn_record r pn =
     (if \<not> rp_any r then r\<lparr>rp_any := True, rp_largest := pn\<rparr>
      else if pn > rp_largest r then recvpn_advance r pn
      else mark_below r pn)"

definition run_continues :: "quic_recvpn \<Rightarrow> u64 \<Rightarrow> bool" where
  "run_continues r i \<longleftrightarrow> i < QUIC_RECVPN_WINDOW \<and> drop_bit (unat i) (rp_bitmap r) AND 1 \<noteq> 0"

definition quic_recvpn_first_range :: "quic_recvpn \<Rightarrow> u64" where
  "quic_recvpn_first_range r =
     (if \<not> rp_any r then 0
      else of_nat (find_idx (\<lambda>i. \<not> run_continues r (of_nat i)) 0 (unat QUIC_RECVPN_WINDOW)))"

section \<open>ackgen\<close>

definition quic_ackgen_due :: "u32 \<Rightarrow> u64 \<Rightarrow> u64 \<Rightarrow> bool" where
  "quic_ackgen_due unacked_eliciting elapsed max_ack_delay =
     (if unacked_eliciting = 0 then False else if unacked_eliciting \<ge> 2 then True else elapsed \<ge> max_ack_delay)"

definition delay_due :: "u64 \<Rightarrow> u64 \<Rightarrow> bool" where
  "delay_due since_last_ack max_ack_delay \<longleftrightarrow> since_last_ack \<ge> max_ack_delay"

definition second_eliciting :: "bool \<Rightarrow> bool \<Rightarrow> bool" where
  "second_eliciting ack_eliciting_received ack_already_pending \<longleftrightarrow> ack_eliciting_received \<and> ack_already_pending"

definition has_outstanding :: "bool \<Rightarrow> bool \<Rightarrow> bool" where
  "has_outstanding ack_eliciting_received ack_already_pending \<longleftrightarrow> ack_eliciting_received \<or> ack_already_pending"

definition quic_ackgen_should_ack :: "bool \<Rightarrow> bool \<Rightarrow> u64 \<Rightarrow> u64 \<Rightarrow> bool" where
  "quic_ackgen_should_ack ack_eliciting_received ack_already_pending since_last_ack max_ack_delay =
     (if \<not> has_outstanding ack_eliciting_received ack_already_pending then False
      else if second_eliciting ack_eliciting_received ack_already_pending then True
      else delay_due since_last_ack max_ack_delay)"

definition gap_of :: "u64 \<Rightarrow> u64 \<Rightarrow> u64" where
  "gap_of prev_lo hi = prev_lo - hi - 2"

definition push :: "u64 list \<Rightarrow> usz \<Rightarrow> u64 \<Rightarrow> u64 list option" where
  "push ranges cap v = (if length ranges \<ge> cap then None else Some (ranges @ [v]))"

definition ackrange_emit :: "u64 list \<Rightarrow> usz \<Rightarrow> bool \<Rightarrow> u64 \<Rightarrow> u64 \<Rightarrow> u64 \<Rightarrow> u64 list option" where
  "ackrange_emit ranges cap first prev_lo hi lo =
     do { ranges \<leftarrow> (if \<not> first then push ranges cap (gap_of prev_lo hi) else Some ranges);
          push ranges cap (hi - lo) }"

text \<open>The values written so far stand for the array and its count \<^verbatim>\<open>w\<close>.\<close>

record build_st =
  bs_ranges :: "u64 list"
  bs_hi :: u64
  bs_prev_lo :: u64
  bs_first :: bool

definition close_block :: "build_st \<Rightarrow> usz \<Rightarrow> u64 \<Rightarrow> u64 \<Rightarrow> build_st option" where
  "close_block s cap lo next_hi =
     do { ranges \<leftarrow> ackrange_emit (bs_ranges s) cap (bs_first s) (bs_prev_lo s) (bs_hi s) lo;
          Some \<lparr>bs_ranges = ranges, bs_hi = next_hi, bs_prev_lo = lo, bs_first = False\<rparr> }"

definition ackgen_step :: "build_st \<Rightarrow> u64 list \<Rightarrow> nat \<Rightarrow> usz \<Rightarrow> build_st option" where
  "ackgen_step s pns i cap =
     (if pns ! i - pns ! (i - 1) = 1 then Some s else close_block s cap (pns ! i) (pns ! (i - 1)))"

primrec descend_loop :: "build_st \<Rightarrow> u64 list \<Rightarrow> nat \<Rightarrow> usz \<Rightarrow> build_st option" where
  "descend_loop s pns 0 cap = Some s"
| "descend_loop s pns (Suc i) cap = do { s \<leftarrow> ackgen_step s pns (Suc i) cap; descend_loop s pns i cap }"

definition descend :: "build_st \<Rightarrow> u64 list \<Rightarrow> usz \<Rightarrow> usz \<Rightarrow> u64 list option" where
  "descend s pns n cap =
     do { s \<leftarrow> descend_loop s pns (n - 1) cap;
          ackrange_emit (bs_ranges s) cap (bs_first s) (bs_prev_lo s) (bs_hi s) (pns ! 0) }"

definition quic_ackgen_build_ranges :: "u64 list \<Rightarrow> usz \<Rightarrow> (u64 \<times> u64 list) option" where
  "quic_ackgen_build_ranges received_pns cap =
     (if length received_pns = 0 then None
      else let largest = received_pns ! (length received_pns - 1)
           in do { ranges \<leftarrow> descend \<lparr>bs_ranges = [], bs_hi = largest, bs_prev_lo = 0, bs_first = True\<rparr>
                     received_pns (length received_pns) cap;
                   Some (largest, ranges) })"

section \<open>sentpkt.c, ack_process.c, loss_detect.c\<close>

definition QUIC_SENTPKT_CAP :: usz where "QUIC_SENTPKT_CAP = 256"

datatype sp_state = QUIC_SP_INFLIGHT | QUIC_SP_ACKED | QUIC_SP_LOST

record quic_sentpkt_entry =
  se_pn :: u64
  se_time_sent :: u64
  se_size :: u64
  se_ack_eliciting :: bool
  se_state :: sp_state
  se_used :: bool

type_synonym quic_sentpkt = "quic_sentpkt_entry list"

definition quic_sentpkt_init :: "quic_sentpkt \<Rightarrow> quic_sentpkt" where
  "quic_sentpkt_init t = map (\<lambda>e. e\<lparr>se_used := False\<rparr>) t"

definition sentpkt_free_slot :: "quic_sentpkt \<Rightarrow> usz" where
  "sentpkt_free_slot t = find_idx (\<lambda>i. \<not> se_used (t ! i)) 0 QUIC_SENTPKT_CAP"

definition quic_sentpkt_on_send :: "quic_sentpkt \<Rightarrow> u64 \<Rightarrow> u64 \<Rightarrow> bool \<Rightarrow> usz \<Rightarrow> bool \<times> quic_sentpkt" where
  "quic_sentpkt_on_send t pn time ack_eliciting sz =
     (let i = sentpkt_free_slot t
      in if i = QUIC_SENTPKT_CAP then (False, t)
         else (True, t[i := \<lparr>se_pn = pn, se_time_sent = time, se_size = of_nat sz,
                             se_ack_eliciting = ack_eliciting, se_state = QUIC_SP_INFLIGHT, se_used = True\<rparr>]))"

definition quic_sentpkt_count :: "quic_sentpkt \<Rightarrow> usz" where
  "quic_sentpkt_count t = sum_list (map (\<lambda>e. if se_used e then 1 else 0) t)"

definition pn_within :: "u64 \<Rightarrow> u64 \<Rightarrow> u64 \<Rightarrow> bool" where
  "pn_within pn lo hi \<longleftrightarrow> pn \<ge> lo \<and> pn \<le> hi"

definition slot_in_range :: "quic_sentpkt_entry \<Rightarrow> u64 \<Rightarrow> u64 \<Rightarrow> bool" where
  "slot_in_range p lo hi \<longleftrightarrow> se_used p \<and> se_state p = QUIC_SP_INFLIGHT \<and> pn_within (se_pn p) lo hi"

text \<open>The loop over the slots; each round reads and writes its own slot.\<close>

primrec ack_range :: "quic_sentpkt \<Rightarrow> u64 \<Rightarrow> u64 \<Rightarrow> quic_sentpkt \<times> u64 list" where
  "ack_range [] lo hi = ([], [])"
| "ack_range (e # t) lo hi =
     (case ack_range t lo hi of (t, out) \<Rightarrow>
        if \<not> slot_in_range e lo hi then (e # t, out)
        else (e\<lparr>se_state := QUIC_SP_ACKED, se_used := False\<rparr> # t, se_pn e # out))"

fun ack_pairs :: "quic_sentpkt \<Rightarrow> u64 \<Rightarrow> u64 list \<Rightarrow> quic_sentpkt \<times> u64 list" where
  "ack_pairs t lo (gap # len # rest) =
     (let hi = lo - gap - 2; lo = hi - len
      in case ack_range t lo hi of (t, out) \<Rightarrow>
         case ack_pairs t lo rest of (t, out') \<Rightarrow> (t, out @ out'))"
| "ack_pairs t lo _ = (t, [])"

definition quic_ack_process :: "quic_sentpkt \<Rightarrow> u64 \<Rightarrow> u64 list \<Rightarrow> quic_sentpkt \<times> u64 list" where
  "quic_ack_process t ack_largest ack_ranges =
     (if length ack_ranges = 0 then (t, [])
      else let hi = ack_largest; lo = hi - ack_ranges ! 0
           in case ack_range t lo hi of (t, out) \<Rightarrow>
              case ack_pairs t lo (tl ack_ranges) of (t, out') \<Rightarrow> (t, out @ out'))"

definition QUIC_SENTPKT_PACKET_THRESHOLD :: u64 where "QUIC_SENTPKT_PACKET_THRESHOLD = 3"

definition by_packet :: "u64 \<Rightarrow> u64 \<Rightarrow> bool" where
  "by_packet largest_acked pn \<longleftrightarrow> largest_acked \<ge> pn + QUIC_SENTPKT_PACKET_THRESHOLD"

definition by_time :: "u64 \<Rightarrow> u64 \<Rightarrow> u64 \<Rightarrow> bool" where
  "by_time now sent loss_delay \<longleftrightarrow> now \<ge> sent + loss_delay"

definition inflight :: "quic_sentpkt_entry \<Rightarrow> bool" where
  "inflight e \<longleftrightarrow> se_used e \<and> se_state e = QUIC_SP_INFLIGHT"

definition past_threshold :: "quic_sentpkt_entry \<Rightarrow> u64 \<Rightarrow> u64 \<Rightarrow> u64 \<Rightarrow> bool" where
  "past_threshold p largest_acked now loss_delay \<longleftrightarrow>
     by_packet largest_acked (se_pn p) \<or> by_time now (se_time_sent p) loss_delay"

definition loss_is_lost :: "quic_sentpkt_entry \<Rightarrow> u64 \<Rightarrow> u64 \<Rightarrow> u64 \<Rightarrow> bool" where
  "loss_is_lost e largest_acked now loss_delay \<longleftrightarrow>
     inflight e \<and> past_threshold e largest_acked now loss_delay"

primrec quic_loss_detect :: "quic_sentpkt \<Rightarrow> u64 \<Rightarrow> u64 \<Rightarrow> u64 \<Rightarrow> quic_sentpkt \<times> u64 list" where
  "quic_loss_detect [] largest_acked now loss_delay = ([], [])"
| "quic_loss_detect (e # t) largest_acked now loss_delay =
     (case quic_loss_detect t largest_acked now loss_delay of (t, lost) \<Rightarrow>
        if \<not> loss_is_lost e largest_acked now loss_delay then (e # t, lost)
        else (e\<lparr>se_state := QUIC_SP_LOST\<rparr> # t, se_pn e # lost))"

section \<open>lossdrive.c, ackrange_process.c\<close>

definition slot_lost :: "quic_sentpkt_entry \<Rightarrow> bool" where
  "slot_lost e \<longleftrightarrow> se_used e \<and> se_state e = QUIC_SP_LOST"

definition drop_lost :: "quic_sentpkt \<Rightarrow> quic_sentpkt" where
  "drop_lost t = map (\<lambda>e. if slot_lost e then e\<lparr>se_used := False\<rparr> else e) t"

definition quic_lossdrive_on_ack :: "quic_sentpkt \<Rightarrow> u64 \<Rightarrow> u64 \<Rightarrow> u64 \<Rightarrow> quic_sentpkt \<times> u64 list" where
  "quic_lossdrive_on_ack state largest_acked now loss_delay =
     (case quic_loss_detect state largest_acked now loss_delay of (state, lost) \<Rightarrow> (drop_lost state, lost))"

definition akr_pn_within :: "u64 \<Rightarrow> u64 \<Rightarrow> u64 \<Rightarrow> bool" where
  "akr_pn_within pn lo hi \<longleftrightarrow> pn \<ge> lo \<and> pn \<le> hi"

definition akr_slot_in_range :: "quic_sentpkt_entry \<Rightarrow> u64 \<Rightarrow> u64 \<Rightarrow> bool" where
  "akr_slot_in_range p lo hi \<longleftrightarrow> se_used p \<and> se_state p = QUIC_SP_INFLIGHT \<and> akr_pn_within (se_pn p) lo hi"

primrec akr_ack_range :: "quic_sentpkt \<Rightarrow> u64 \<Rightarrow> u64 \<Rightarrow> quic_sentpkt \<times> u64 list" where
  "akr_ack_range [] lo hi = ([], [])"
| "akr_ack_range (e # t) lo hi =
     (case akr_ack_range t lo hi of (t, out) \<Rightarrow>
        if \<not> akr_slot_in_range e lo hi then (e # t, out)
        else (e\<lparr>se_state := QUIC_SP_ACKED, se_used := False\<rparr> # t, se_pn e # out))"

primrec akr_ranges :: "quic_sentpkt \<Rightarrow> quic_ack_range list \<Rightarrow> quic_sentpkt \<times> u64 list" where
  "akr_ranges t [] = (t, [])"
| "akr_ranges t (r # rs) =
     (case akr_ack_range t (ar_lo r) (ar_hi r) of (t, out) \<Rightarrow>
        case akr_ranges t rs of (t, out') \<Rightarrow> (t, out @ out'))"

definition quic_ackrange_process :: "quic_sentpkt \<Rightarrow> bytes \<Rightarrow> usz \<Rightarrow> (quic_sentpkt \<times> u64 list) option" where
  "quic_ackrange_process t ack_frame len =
     (case quic_ack_decode ack_frame len of
        None \<Rightarrow> None
      | Some (f, n) \<Rightarrow> if n = 0 then None else Some (akr_ranges t (af_ranges f)))"

section \<open>pnspace.c, pnspaces\<close>

datatype quic_pns_space = QUIC_PNS_INITIAL | QUIC_PNS_HANDSHAKE | QUIC_PNS_APP

type_synonym quic_pnspace = "quic_pns_space \<Rightarrow> u64"

definition quic_pnspace_init :: quic_pnspace where
  "quic_pnspace_init = (\<lambda>_. 0)"

definition quic_pnspace_next :: "quic_pnspace \<Rightarrow> quic_pns_space \<Rightarrow> u64 \<times> quic_pnspace" where
  "quic_pnspace_next s space = (let pn = s space in (pn, s(space := s space + 1)))"

definition quic_pnspaces_next_pn :: "quic_pnspace \<Rightarrow> quic_pns_space \<Rightarrow> u64 \<times> quic_pnspace" where
  "quic_pnspaces_next_pn s space = quic_pnspace_next s space"

type_synonym quic_pnspaces_recv = "quic_pns_space \<Rightarrow> quic_recvpn"

definition quic_pnspaces_recv_init :: quic_pnspaces_recv where
  "quic_pnspaces_recv_init = (\<lambda>_. quic_recvpn_init)"

definition quic_pnspaces_on_recv :: "quic_pnspaces_recv \<Rightarrow> quic_pns_space \<Rightarrow> u64 \<Rightarrow> quic_pnspaces_recv" where
  "quic_pnspaces_on_recv s space pn = s(space := quic_recvpn_record (s space) pn)"

definition collect_pns :: "quic_recvpn \<Rightarrow> u64 list" where
  "collect_pns r =
     filter (quic_recvpn_seen r) (map (\<lambda>d. rp_largest r - of_nat d) (rev [1..<unat QUIC_RECVPN_WINDOW + 1])) @ [rp_largest r]"

definition quic_pnspaces_ack_ranges :: "quic_pnspaces_recv \<Rightarrow> quic_pns_space \<Rightarrow> usz \<Rightarrow> (u64 \<times> u64 list) option" where
  "quic_pnspaces_ack_ranges s space cap =
     (let r = s space in if \<not> rp_any r then None else quic_ackgen_build_ranges (collect_pns r) cap)"

type_synonym quic_pnspaces_sent = "quic_pns_space \<Rightarrow> quic_sentpkt"

definition quic_pnspaces_sent_init :: "quic_pnspaces_sent \<Rightarrow> quic_pnspaces_sent" where
  "quic_pnspaces_sent_init s = (\<lambda>i. quic_sentpkt_init (s i))"

definition quic_pnspaces_on_send ::
  "quic_pnspaces_sent \<Rightarrow> quic_pns_space \<Rightarrow> u64 \<Rightarrow> u64 \<Rightarrow> bool \<Rightarrow> usz \<Rightarrow> bool \<times> quic_pnspaces_sent" where
  "quic_pnspaces_on_send s space pn time ack_eliciting sz =
     (case quic_sentpkt_on_send (s space) pn time ack_eliciting sz of (ok, t) \<Rightarrow> (ok, s(space := t)))"

definition quic_pnspaces_on_ack ::
  "quic_pnspaces_sent \<Rightarrow> quic_pns_space \<Rightarrow> u64 \<Rightarrow> u64 list \<Rightarrow> quic_pnspaces_sent \<times> u64 list" where
  "quic_pnspaces_on_ack s space ack_largest ack_ranges =
     (case quic_ack_process (s space) ack_largest ack_ranges of (t, out) \<Rightarrow> (s(space := t), out))"

definition quic_pnspaces_sent_count :: "quic_pnspaces_sent \<Rightarrow> quic_pns_space \<Rightarrow> usz" where
  "quic_pnspaces_sent_count s space = quic_sentpkt_count (s space)"


section \<open>The window of received packet numbers\<close>

text \<open>A window represents the set of packet numbers recorded so far.\<close>

definition recvpn_abs :: "quic_recvpn \<Rightarrow> u64 set \<Rightarrow> bool" where
  "recvpn_abs r S \<longleftrightarrow>
     (if rp_any r
      then rp_largest r \<in> S \<and> (\<forall>q\<in>S. q \<le> rp_largest r) \<and>
           (\<forall>i < 64. bit (rp_bitmap r) i \<longleftrightarrow> (\<exists>q\<in>S. unat q + i + 1 = unat (rp_largest r)))
      else S = {} \<and> rp_bitmap r = 0)"

lemma low_bit: "drop_bit n (x :: u64) AND 1 \<noteq> 0 \<longleftrightarrow> bit x n"
  by (simp add: and_one_eq bit_iff_odd_drop_bit odd_iff_mod_2_eq_one)

lemma recvpn_record_abs:
  assumes abs: "recvpn_abs r S"
  shows "recvpn_abs (quic_recvpn_record r pn) (insert pn S)"
proof (cases "rp_any r")
  case False
  then show ?thesis using abs by (auto simp: recvpn_abs_def quic_recvpn_record_def)
next
  case True
  let ?l = "rp_largest r"
  have l: "?l \<in> S" "\<And>q. q \<in> S \<Longrightarrow> unat q \<le> unat ?l"
    and bits: "\<And>i. i < 64 \<Longrightarrow> bit (rp_bitmap r) i \<longleftrightarrow> (\<exists>q\<in>S. unat q + i + 1 = unat ?l)"
    using abs True by (auto simp: recvpn_abs_def word_le_nat_alt)
  show ?thesis
  proof (cases "pn > ?l")
    case gt: True
    define k where "k = unat pn - unat ?l"
    have k: "0 < k" "unat pn = unat ?l + k" using gt by (auto simp: k_def word_less_nat_alt)
    have st: "unat (pn - ?l) = k" using gt by (simp add: unat_sub word_less_nat_alt word_le_nat_alt k_def)
    have st1: "unat (pn - ?l - 1) = k - 1" using st k by (simp add: unat_sub_if' word_le_nat_alt)
    have cmp: "64 \<le> pn - ?l \<longleftrightarrow> 64 \<le> k" "pn - ?l \<le> 64 \<longleftrightarrow> k \<le> 64" using st by (simp_all add: word_le_nat_alt)
    have "bit (rp_bitmap (recvpn_advance r pn)) i \<longleftrightarrow> (k \<le> i \<and> bit (rp_bitmap r) (i - k)) \<or> i = k - 1" if "i < 64" for i
      using that k(1) by (auto simp: recvpn_advance_def Let_def cmp st st1 bit_simps bit_1_iff)
    moreover have "(\<exists>q\<in>insert pn S. unat q + i + 1 = unat pn) \<longleftrightarrow> (k \<le> i \<and> (\<exists>q\<in>S. unat q + (i - k) + 1 = unat ?l)) \<or> i = k - 1" for i
    proof
      assume "\<exists>q\<in>insert pn S. unat q + i + 1 = unat pn"
      then obtain q where q: "q \<in> S" "unat q + i + 1 = unat ?l + k" using k(2) by auto
      then show "(k \<le> i \<and> (\<exists>q\<in>S. unat q + (i - k) + 1 = unat ?l)) \<or> i = k - 1"
      proof (cases "k \<le> i")
        case True
        then show ?thesis using q by (intro disjI1 conjI bexI[of _ q]) auto
      next
        case False
        then show ?thesis using q l(2)[OF q(1)] by auto
      qed
    next
      assume "(k \<le> i \<and> (\<exists>q\<in>S. unat q + (i - k) + 1 = unat ?l)) \<or> i = k - 1"
      then show "\<exists>q\<in>insert pn S. unat q + i + 1 = unat pn"
      proof
        assume "k \<le> i \<and> (\<exists>q\<in>S. unat q + (i - k) + 1 = unat ?l)"
        then obtain q where "k \<le> i" "q \<in> S" "unat q + (i - k) + 1 = unat ?l" by blast
        then show ?thesis using k by (intro bexI[of _ q]) auto
      next
        assume "i = k - 1"
        then show ?thesis using k l(1) by (intro bexI[of _ ?l]) auto
      qed
    qed
    ultimately have "bit (rp_bitmap (recvpn_advance r pn)) i \<longleftrightarrow> (\<exists>q\<in>insert pn S. unat q + i + 1 = unat pn)" if "i < 64" for i
      using that bits by auto
    moreover have "\<forall>q\<in>insert pn S. q \<le> pn" using k(2) by (auto simp: word_le_nat_alt intro: trans_le_add1[OF l(2)])
    moreover have "rp_largest (recvpn_advance r pn) = pn" "rp_any (recvpn_advance r pn)"
      using True by (simp_all add: recvpn_advance_def Let_def)
    ultimately show ?thesis using True gt by (simp add: recvpn_abs_def quic_recvpn_record_def)
  next
    case le: False
    define d where "d = unat ?l - unat pn"
    have d: "unat ?l = unat pn + d" using le by (simp add: d_def word_less_nat_alt)
    have st: "unat (?l - pn) = d" using le by (simp add: unat_sub word_less_nat_alt word_le_nat_alt d_def)
    have "?l - pn = 0 \<longleftrightarrow> d = 0" "?l - pn > QUIC_RECVPN_WINDOW \<longleftrightarrow> d > 64"
      using st by (auto simp: QUIC_RECVPN_WINDOW_def word_less_nat_alt unat_eq_zero)
    moreover have "unat (?l - pn - 1) = d - 1" if "d \<noteq> 0" using st that by (simp add: unat_sub_if' word_le_nat_alt)
    ultimately have "bit (rp_bitmap (mark_below r pn)) i \<longleftrightarrow> bit (rp_bitmap r) i \<or> i + 1 = d" if "i < 64" for i
      using that by (auto simp: mark_below_def Let_def bit_simps bit_1_iff)
    then have "bit (rp_bitmap (mark_below r pn)) i \<longleftrightarrow> (\<exists>q\<in>insert pn S. unat q + i + 1 = unat ?l)" if "i < 64" for i
      using that bits d by auto
    moreover have "rp_largest (mark_below r pn) = ?l" "rp_any (mark_below r pn)"
      using True by (auto simp: mark_below_def Let_def)
    moreover have "\<forall>q\<in>insert pn S. q \<le> ?l" using l(2) d by (auto simp: word_le_nat_alt)
    ultimately show ?thesis using True le l(1) by (simp add: recvpn_abs_def quic_recvpn_record_def)
  qed
qed

lemma recvpn_seen_abs:
  assumes "recvpn_abs r S"
  shows "quic_recvpn_seen r pn \<longleftrightarrow> pn \<in> S \<and> (\<forall>q\<in>S. unat q \<le> unat pn + 64)"
proof (cases "rp_any r")
  case True
  let ?l = "rp_largest r"
  have l: "?l \<in> S" "\<And>q. q \<in> S \<Longrightarrow> unat q \<le> unat ?l"
    and bits: "\<And>i. i < 64 \<Longrightarrow> bit (rp_bitmap r) i \<longleftrightarrow> (\<exists>q\<in>S. unat q + i + 1 = unat ?l)"
    using assms True by (auto simp: recvpn_abs_def word_le_nat_alt)
  have win: "(\<forall>q\<in>S. unat q \<le> unat pn + 64) \<longleftrightarrow> unat ?l \<le> unat pn + 64" using l by fastforce
  consider "pn = ?l" | "pn > ?l" | "pn < ?l" by (rule linorder_cases)
  then show ?thesis
  proof cases
    case 1
    then show ?thesis using True l win by (simp add: quic_recvpn_seen_def seen_at_or_above_def)
  next
    case 2
    then have "pn \<notin> S" using l(2)[of pn] by (auto simp: word_less_nat_alt)
    then show ?thesis using True 2 by (simp add: quic_recvpn_seen_def seen_at_or_above_def)
  next
    case 3
    define d where "d = unat ?l - unat pn"
    have d: "unat ?l = unat pn + d" "0 < d" using 3 by (auto simp: d_def word_less_nat_alt)
    have st: "unat (?l - pn) = d" using 3 by (simp add: unat_sub word_less_nat_alt word_le_nat_alt d_def)
    have st1: "unat (?l - pn - 1) = d - 1" using st d(2) by (simp add: unat_sub_if' word_le_nat_alt)
    have "quic_recvpn_seen r pn \<longleftrightarrow> d \<le> 64 \<and> bit (rp_bitmap r) (d - 1)"
      using True 3 st st1
      by (auto simp: quic_recvpn_seen_def seen_at_or_above_def below_seen_def Let_def low_bit QUIC_RECVPN_WINDOW_def word_less_nat_alt)
    also have "\<dots> \<longleftrightarrow> d \<le> 64 \<and> (\<exists>q\<in>S. unat q + (d - 1) + 1 = unat ?l)" using bits[of "d - 1"] d(2) by auto
    also have "\<dots> \<longleftrightarrow> d \<le> 64 \<and> pn \<in> S"
      using d by (auto simp: unat_arith_simps(3)[symmetric])
    finally show ?thesis using win d by auto
  qed
qed (use assms in \<open>auto simp: recvpn_abs_def quic_recvpn_seen_def\<close>)

lemma recvpn_fold_abs: "recvpn_abs r S \<Longrightarrow> recvpn_abs (foldl quic_recvpn_record r pns) (S \<union> set pns)"
proof (induction pns arbitrary: r S)
  case (Cons p pns)
  from Cons.IH[OF recvpn_record_abs[OF Cons.prems, of p]] show ?case by (simp add: insert_commute Un_insert_right)
qed simp

lemma recvpn_init_abs: "recvpn_abs quic_recvpn_init {}"
  by (simp add: recvpn_abs_def quic_recvpn_init_def)


section \<open>From received packets to ACK ranges\<close>

lemma collect_pns_abs:
  assumes abs: "recvpn_abs r S" and any: "rp_any r"
  shows "set (collect_pns r) = {q \<in> S. \<forall>p\<in>S. unat p \<le> unat q + 64}"
    and "sorted_wrt (<) (map unat (collect_pns r))" and "collect_pns r \<noteq> []" and "length (collect_pns r) \<le> 65"
proof -
  let ?l = "rp_largest r"
  let ?ds = "rev [1..<65 :: nat]"
  have l: "?l \<in> S" "\<And>q. q \<in> S \<Longrightarrow> unat q \<le> unat ?l" using abs any by (auto simp: recvpn_abs_def word_le_nat_alt)
  have c: "collect_pns r = filter (quic_recvpn_seen r) (map (\<lambda>d. ?l - of_nat d) ?ds) @ [?l]"
    by (simp add: collect_pns_def QUIC_RECVPN_WINDOW_def)
  show "collect_pns r \<noteq> []" by (simp add: c)
  show "length (collect_pns r) \<le> 65"
    using length_filter_le[of "quic_recvpn_seen r" "map (\<lambda>d. ?l - of_nat d) ?ds"] by (simp add: c)
  note seen = recvpn_seen_abs[OF abs]
  have sub: "unat (?l - of_nat d) = unat ?l - d" if "d \<le> unat ?l" "d < 65" for d
    using that by (simp add: unat_sub word_le_nat_alt unat_of_nat)
  have small: "quic_recvpn_seen r (?l - of_nat d) \<Longrightarrow> 1 \<le> d \<Longrightarrow> d < 65 \<Longrightarrow> d \<le> unat ?l" for d
  proof (rule ccontr)
    assume a: "quic_recvpn_seen r (?l - of_nat d)" "1 \<le> d" "d < 65" "\<not> d \<le> unat ?l"
    then have "unat (?l - of_nat d) = unat ?l + 2 ^ 64 - d" by (simp add: unat_sub_if' unat_of_nat)
    moreover have "?l - of_nat d \<in> S" using a(1) seen by simp
    ultimately show False using l(2)[of "?l - of_nat d"] a(3) by simp
  qed
  show "set (collect_pns r) = {q \<in> S. \<forall>p\<in>S. unat p \<le> unat q + 64}" (is "?A = ?B")
  proof
    have "q \<in> ?B" if "quic_recvpn_seen r q" for q using that seen by simp
    moreover have "?l \<in> ?B" using l by (auto intro: trans_le_add1)
    ultimately show "?A \<subseteq> ?B" unfolding c by auto
    show "?B \<subseteq> ?A"
    proof
      fix q assume q: "q \<in> ?B"
      then have le: "unat q \<le> unat ?l" "unat ?l \<le> unat q + 64" using l by auto
      show "q \<in> ?A"
      proof (cases "q = ?l")
        case False
        define d where "d = unat ?l - unat q"
        have "unat q \<noteq> unat ?l" using False word_unat_eq_iff[of q ?l] by blast
        then have d: "1 \<le> d" "d < 65" "d \<le> unat ?l" using le by (auto simp: d_def)
        have "q = ?l - of_nat d" using sub[of d] d le by (intro word_unat_eq_iff[THEN iffD2]) (simp add: d_def)
        moreover have "quic_recvpn_seen r q" using q seen by simp
        ultimately show ?thesis unfolding c using d by auto
      qed (simp add: c)
    qed
  qed
  have "sorted_wrt (<) (map (\<lambda>d. unat (?l - of_nat d)) (filter (\<lambda>d. quic_recvpn_seen r (?l - of_nat d)) ?ds) @ [unat ?l])"
  proof -
    have "sorted_wrt (\<lambda>a b. b < a) (filter (\<lambda>d. quic_recvpn_seen r (?l - of_nat d)) ?ds)"
      by (intro sorted_wrt_filter) (simp add: sorted_wrt_rev)
    then have "sorted_wrt (\<lambda>a b. unat (?l - of_nat a) < unat (?l - of_nat b)) (filter (\<lambda>d. quic_recvpn_seen r (?l - of_nat d)) ?ds)"
    proof (rule sorted_wrt_mono_rel[rotated])
      fix a b assume "a \<in> set (filter (\<lambda>d. quic_recvpn_seen r (?l - of_nat d)) ?ds)"
        "b \<in> set (filter (\<lambda>d. quic_recvpn_seen r (?l - of_nat d)) ?ds)" "b < a"
      then show "unat (?l - of_nat a) < unat (?l - of_nat b)"
        using sub[of a] sub[of b] small[of a] small[of b] by auto
    qed
    moreover have "unat (?l - of_nat d) < unat ?l" if "d \<in> set (filter (\<lambda>d. quic_recvpn_seen r (?l - of_nat d)) ?ds)" for d
      using that sub[of d] small[of d] by auto
    ultimately show ?thesis by (simp add: sorted_wrt_append sorted_wrt_map)
  qed
  then show "sorted_wrt (<) (map unat (collect_pns r))"
    by (simp add: c filter_map comp_def)
qed

text \<open>The ranges of an ascending list, computed from its descending rest.\<close>

fun enc_ranges :: "u64 \<Rightarrow> u64 \<Rightarrow> u64 list \<Rightarrow> u64 list" where
  "enc_ranges hi lo [] = [hi - lo]"
| "enc_ranges hi lo (x # xs) =
     (if lo - x = 1 then enc_ranges hi x xs else (hi - lo) # gap_of lo x # enc_ranges x x xs)"

lemma enc_ranges_nonempty [simp]: "enc_ranges hi lo xs \<noteq> []"
  by (induction hi lo xs rule: enc_ranges.induct) auto

lemma length_enc_ranges: "length (enc_ranges hi lo xs) \<le> 2 * length xs + 1"
  by (induction hi lo xs rule: enc_ranges.induct) auto

definition lead :: "build_st \<Rightarrow> u64 list" where
  "lead s = (if bs_first s then [] else [gap_of (bs_prev_lo s) (bs_hi s)])"

lemma ackrange_emit_eq:
  "ackrange_emit (bs_ranges s) cap (bs_first s) (bs_prev_lo s) (bs_hi s) lo =
     (if length (bs_ranges s @ lead s @ [bs_hi s - lo]) \<le> cap then Some (bs_ranges s @ lead s @ [bs_hi s - lo]) else None)"
  by (auto simp: ackrange_emit_def push_def lead_def)

lemma descend_eq:
  assumes "i < length pns"
  shows "do { s \<leftarrow> descend_loop s pns i cap;
              ackrange_emit (bs_ranges s) cap (bs_first s) (bs_prev_lo s) (bs_hi s) (pns ! 0) } =
    (let out = bs_ranges s @ lead s @ enc_ranges (bs_hi s) (pns ! i) (rev (take i pns))
     in if length out \<le> cap then Some out else None)"
  using assms
proof (induction i arbitrary: s)
  case 0
  show ?case by (simp add: ackrange_emit_eq)
next
  case (Suc i)
  have r: "rev (take (Suc i) pns) = pns ! i # rev (take i pns)" using Suc.prems by (simp add: take_Suc_conv_app_nth)
  show ?case
  proof (cases "pns ! Suc i - pns ! i = 1")
    case True
    then show ?thesis using Suc by (simp add: ackgen_step_def r)
  next
    case False
    let ?o = "bs_ranges s @ lead s @ [bs_hi s - pns ! Suc i]"
    let ?s = "\<lparr>bs_ranges = ?o, bs_hi = pns ! i, bs_prev_lo = pns ! Suc i, bs_first = False\<rparr>"
    have "ackgen_step s pns (Suc i) cap = (if length ?o \<le> cap then Some ?s else None)"
      using False by (simp add: ackgen_step_def close_block_def ackrange_emit_eq)
    moreover have "length ?o \<le> length (bs_ranges s @ lead s @ enc_ranges (bs_hi s) (pns ! Suc i) (rev (take (Suc i) pns)))"
      using False by (simp add: r)
    ultimately show ?thesis using Suc.IH[of ?s] Suc.prems False
      by (auto simp: r Let_def lead_def)
  qed
qed

lemma build_ranges_eq:
  assumes "pns \<noteq> []"
  shows "quic_ackgen_build_ranges pns cap =
    (let out = enc_ranges (last pns) (last pns) (rev (butlast pns))
     in if length out \<le> cap then Some (last pns, out) else None)"
proof -
  have l: "last pns = pns ! (length pns - 1)" using assms by (rule last_conv_nth)
  have "descend \<lparr>bs_ranges = [], bs_hi = last pns, bs_prev_lo = 0, bs_first = True\<rparr> pns (length pns) cap =
    (let out = enc_ranges (last pns) (last pns) (rev (butlast pns)) in if length out \<le> cap then Some out else None)"
    unfolding descend_def
    by (subst descend_eq) (use assms in \<open>simp_all add: l butlast_conv_take lead_def\<close>)
  then show ?thesis using assms unfolding quic_ackgen_build_ranges_def Let_def l by auto
qed

text \<open>The packet numbers that ranges name, and what the sender makes of them.\<close>

fun range_set :: "u64 \<Rightarrow> u64 list \<Rightarrow> u64 set" where
  "range_set hi [] = {}"
| "range_set hi [l] = {hi - l..hi}"
| "range_set hi (l # g # rest) = {hi - l..hi} \<union> range_set (hi - l - g - 2) rest"

lemma range_set_enc:
  assumes "unat lo \<le> unat hi" "sorted_wrt (>) (map unat (lo # xs))"
  shows "range_set hi (enc_ranges hi lo xs) = {lo..hi} \<union> set xs"
  using assms
proof (induction hi lo xs rule: enc_ranges.induct)
  case (2 hi lo x xs)
  then have x: "unat x < unat lo" by simp
  show ?case
  proof (cases "lo - x = 1")
    case True
    then have "lo = x + 1" by (metis add.commute diff_add_cancel)
    moreover have "unat x + 1 < 2 ^ 64" using x unsigned_less[of lo, where ?'a = nat] by simp
    ultimately have "unat lo = unat x + 1" by (simp add: unat_word_ariths)
    then have "{x..hi} = insert x {lo..hi}" using 2(3) by (auto simp: word_le_nat_alt word_unat_eq_iff)
    then show ?thesis using 2(1)[OF True] 2(3,4) x True by auto
  next
    case False
    have "hi - (hi - lo) - gap_of lo x - 2 = x" by (simp add: gap_of_def)
    moreover have "range_set x (enc_ranges x x xs) = {x..x} \<union> set xs" using 2(2)[OF False] 2(4) by simp
    ultimately show ?thesis using False by auto
  qed
qed simp

lemma ack_range_eq:
  "ack_range t lo hi = (map (\<lambda>e. if inflight e \<and> se_pn e \<in> {lo..hi} then e\<lparr>se_state := QUIC_SP_ACKED, se_used := False\<rparr> else e) t,
     map se_pn (filter (\<lambda>e. inflight e \<and> se_pn e \<in> {lo..hi}) t))"
  by (induction t) (auto simp: slot_in_range_def pn_within_def inflight_def)

text \<open>Acknowledging a set of packet numbers.\<close>

definition ack_set :: "u64 set \<Rightarrow> quic_sentpkt \<Rightarrow> quic_sentpkt" where
  "ack_set A t = map (\<lambda>e. if inflight e \<and> se_pn e \<in> A then e\<lparr>se_state := QUIC_SP_ACKED, se_used := False\<rparr> else e) t"

definition acked_pns :: "u64 set \<Rightarrow> quic_sentpkt \<Rightarrow> u64 set" where
  "acked_pns A t = se_pn ` {e \<in> set t. inflight e \<and> se_pn e \<in> A}"

lemma ack_set_Un: "ack_set B (ack_set A t) = ack_set (A \<union> B) t"
  by (auto simp: ack_set_def inflight_def)

lemma acked_pns_Un: "acked_pns A t \<union> acked_pns B (ack_set A t) = acked_pns (A \<union> B) t"
proof
  show "acked_pns A t \<union> acked_pns B (ack_set A t) \<subseteq> acked_pns (A \<union> B) t"
    by (auto simp: acked_pns_def ack_set_def inflight_def split: if_splits)
  show "acked_pns (A \<union> B) t \<subseteq> acked_pns A t \<union> acked_pns B (ack_set A t)"
  proof
    fix p assume "p \<in> acked_pns (A \<union> B) t"
    then obtain e where e: "e \<in> set t" "inflight e" "se_pn e \<in> A \<union> B" "p = se_pn e" by (auto simp: acked_pns_def)
    show "p \<in> acked_pns A t \<union> acked_pns B (ack_set A t)"
    proof (cases "p \<in> A")
      case True
      then show ?thesis using e by (auto simp: acked_pns_def)
    next
      case False
      then have "e \<in> set (ack_set A t)" using e by (auto simp: ack_set_def image_iff intro!: bexI[of _ e])
      then show ?thesis using e False by (auto simp: acked_pns_def)
    qed
  qed
qed

lemma ack_range_set:
  "fst (ack_range t lo hi) = ack_set {lo..hi} t" "set (snd (ack_range t lo hi)) = acked_pns {lo..hi} t"
  unfolding ack_range_eq by (auto simp: ack_set_def acked_pns_def)

lemma ack_pairs_set:
  "odd (length (l # rs)) \<Longrightarrow>
   fst (ack_pairs (ack_set {hi - l..hi} t) (hi - l) rs) = ack_set (range_set hi (l # rs)) t \<and>
   acked_pns {hi - l..hi} t \<union> set (snd (ack_pairs (ack_set {hi - l..hi} t) (hi - l) rs)) = acked_pns (range_set hi (l # rs)) t"
proof (induction hi "l # rs" arbitrary: l rs t rule: range_set.induct)
  case (3 hi l g rest)
  then obtain l' rs' where rest: "rest = l' # rs'" by (cases rest) auto
  let ?h = "hi - l - g - 2" and ?t = "ack_set {hi - l..hi} t"
  obtain t1 o1 where a: "ack_range ?t (?h - l') ?h = (t1, o1)" by (cases "ack_range ?t (?h - l') ?h")
  have a': "t1 = ack_set {?h - l'..?h} ?t" "set o1 = acked_pns {?h - l'..?h} ?t"
    using ack_range_set[of ?t "?h - l'" ?h] a by simp_all
  obtain t2 o2 where b: "ack_pairs t1 (?h - l') rs' = (t2, o2)" by (cases "ack_pairs t1 (?h - l') rs'")
  have ih: "t2 = ack_set (range_set ?h rest) ?t" "acked_pns {?h - l'..?h} ?t \<union> set o2 = acked_pns (range_set ?h rest) ?t"
    using 3(1)[of l' rs' ?t] 3(2) rest a' b by simp_all
  have "ack_pairs ?t (hi - l) (g # rest) = (t2, o1 @ o2)" unfolding rest using a b by (simp add: Let_def)
  moreover have "set (o1 @ o2) = acked_pns (range_set ?h rest) ?t" using ih(2) a'(2) by simp
  ultimately show ?case using ih(1) by (simp add: ack_set_Un acked_pns_Un)
qed simp_all

lemma ack_process_set:
  assumes "odd (length rs)"
  shows "fst (quic_ack_process t hi rs) = ack_set (range_set hi rs) t"
    and "set (snd (quic_ack_process t hi rs)) = acked_pns (range_set hi rs) t"
proof -
  obtain l rs' where rs: "rs = l # rs'" using assms by (cases rs) auto
  obtain t1 o1 where a: "ack_range t (hi - l) hi = (t1, o1)" by (cases "ack_range t (hi - l) hi")
  have a': "t1 = ack_set {hi - l..hi} t" "set o1 = acked_pns {hi - l..hi} t" using ack_range_set[of t "hi - l" hi] a by simp_all
  obtain t2 o2 where b: "ack_pairs t1 (hi - l) rs' = (t2, o2)" by (cases "ack_pairs t1 (hi - l) rs'")
  have "quic_ack_process t hi rs = (t2, o1 @ o2)" unfolding rs using a b by (simp add: quic_ack_process_def Let_def)
  then have "fst (quic_ack_process t hi rs) = ack_set (range_set hi rs) t \<and> set (snd (quic_ack_process t hi rs)) = acked_pns (range_set hi rs) t"
    using ack_pairs_set[of l rs' hi t] assms a' b unfolding rs by simp
  then show "fst (quic_ack_process t hi rs) = ack_set (range_set hi rs) t"
    and "set (snd (quic_ack_process t hi rs)) = acked_pns (range_set hi rs) t" by simp_all
qed

lemma odd_enc_ranges: "odd (length (enc_ranges hi lo xs))"
  by (induction hi lo xs rule: enc_ranges.induct) auto

text \<open>C20: The receive window refines the set of packet numbers received. After recording any
  sequence of packet numbers, in any order and with repetitions, a number is reported as
  seen exactly when it was recorded and no recorded number is more than 64 above it. In
  particular a duplicate older than the window is not recognised as one.\<close>

theorem recvpn_window:
  "quic_recvpn_seen (foldl quic_recvpn_record quic_recvpn_init pns) pn \<longleftrightarrow>
     pn \<in> set pns \<and> (\<forall>q \<in> set pns. unat q \<le> unat pn + 64)"
  using recvpn_seen_abs[OF recvpn_fold_abs[OF recvpn_init_abs, of pns], of pn] by simp

theorem recvpn_window_witness:
  "quic_recvpn_seen (foldl quic_recvpn_record quic_recvpn_init [5, 100]) 100 \<and>
   \<not> quic_recvpn_seen (foldl quic_recvpn_record quic_recvpn_init [5, 100]) 5"
  using recvpn_window[of "[5, 100]" 100] recvpn_window[of "[5, 100]" 5] by simp

text \<open>C21: An acknowledgement covers exactly the recent part of what was received. When the receiver of a packet number
  space has recorded the numbers \<open>pns\<close> and encodes its ACK ranges (129 values always suffice),
  processing them makes the sender mark as acknowledged, in that space and in no other,
  exactly the packets in flight whose numbers are among \<open>pns\<close> and within 64 of the largest, and
  report exactly these; a received packet further below the largest is not acknowledged.\<close>

theorem ack_ranges_acknowledge_received:
  assumes "pns \<noteq> []" "129 \<le> cap"
  shows "case quic_pnspaces_ack_ranges (quic_pnspaces_recv_init(sp := foldl quic_recvpn_record (quic_pnspaces_recv_init sp) pns)) sp cap of
      None \<Rightarrow> False
    | Some (largest, ranges) \<Rightarrow>
        let W = {q \<in> set pns. \<forall>p \<in> set pns. unat p \<le> unat q + 64}
        in fst (quic_pnspaces_on_ack s sp largest ranges) = s(sp := ack_set W (s sp)) \<and>
           set (snd (quic_pnspaces_on_ack s sp largest ranges)) = acked_pns W (s sp)"
proof -
  define r where "r = foldl quic_recvpn_record quic_recvpn_init pns"
  define W where "W = {q \<in> set pns. \<forall>p \<in> set pns. unat p \<le> unat q + 64}"
  have abs: "recvpn_abs r (set pns)" using recvpn_fold_abs[OF recvpn_init_abs, of pns] by (simp add: r_def)
  then have any: "rp_any r" using assms(1) by (auto simp: recvpn_abs_def split: if_splits)
  note c = collect_pns_abs[OF abs any, folded W_def]
  define cs where "cs = collect_pns r"
  define out where "out = enc_ranges (last cs) (last cs) (rev (butlast cs))"
  have split: "butlast cs @ [last cs] = cs" using c(3) by (simp add: cs_def)
  have "length out \<le> 129" using length_enc_ranges[of "last cs" "last cs" "rev (butlast cs)"] c(4) by (simp add: out_def cs_def)
  then have b: "quic_ackgen_build_ranges (collect_pns r) cap = Some (last cs, out)"
    using build_ranges_eq[of cs cap] c(3) assms(2) by (simp add: cs_def out_def Let_def)
  have "sorted_wrt (<) (map unat (butlast cs @ [last cs]))" by (subst split) (simp add: cs_def c(2))
  then have "sorted_wrt (>) (map unat (last cs # rev (butlast cs)))"
    by (simp add: sorted_wrt_append sorted_wrt_rev rev_map[symmetric])
  from range_set_enc[OF order_refl this] have "range_set (last cs) out = {last cs..last cs} \<union> set (butlast cs)" by (simp add: out_def)
  also have "\<dots> = set (butlast cs @ [last cs])" by auto
  also have "\<dots> = W" unfolding split using c(1) by (simp add: cs_def)
  finally have rs: "range_set (last cs) out = W" .
  have "odd (length out)" unfolding out_def by (rule odd_enc_ranges)
  note p = ack_process_set[OF this, of "s sp" "last cs", unfolded rs]
  have a: "quic_pnspaces_ack_ranges (quic_pnspaces_recv_init(sp := foldl quic_recvpn_record (quic_pnspaces_recv_init sp) pns)) sp cap =
      Some (last cs, out)"
    using b any by (simp add: quic_pnspaces_ack_ranges_def quic_pnspaces_recv_init_def r_def)
  obtain t acked where q: "quic_ack_process (s sp) (last cs) out = (t, acked)" by (cases "quic_ack_process (s sp) (last cs) out")
  show ?thesis
    unfolding a option.case prod.case Let_def W_def[symmetric]
    using p unfolding q by (simp add: quic_pnspaces_on_ack_def q)
qed

definition sample_sent :: "u64 \<Rightarrow> quic_sentpkt_entry" where
  "sample_sent pn = \<lparr>se_pn = pn, se_time_sent = 0, se_size = 9, se_ack_eliciting = True, se_state = QUIC_SP_INFLIGHT, se_used = True\<rparr>"

lemma acked_single: "acked_pns A [e] = (if inflight e \<and> se_pn e \<in> A then {se_pn e} else {})"
  by (auto simp: acked_pns_def)

lemma acked_sample: "acked_pns A [sample_sent pn] = (if pn \<in> A then {pn} else {})"
  unfolding acked_single by (simp add: inflight_def sample_sent_def)

theorem ack_ranges_acknowledge_received_witness:
  "\<exists>largest ranges. quic_pnspaces_ack_ranges (quic_pnspaces_recv_init(QUIC_PNS_APP :=
       foldl quic_recvpn_record (quic_pnspaces_recv_init QUIC_PNS_APP) [3, 1])) QUIC_PNS_APP 129 = Some (largest, ranges) \<and>
     set (snd (quic_pnspaces_on_ack (\<lambda>_. [sample_sent 3]) QUIC_PNS_APP largest ranges)) = {3}"
proof -
  define W where "W = {q \<in> set [3, 1 :: u64]. \<forall>p \<in> set [3, 1 :: u64]. unat p \<le> unat q + 64}"
  have W: "3 \<in> W" by (simp add: W_def)
  have "[3, 1 :: u64] \<noteq> []" "(129 :: nat) \<le> 129" by simp_all
  note t = ack_ranges_acknowledge_received[OF this, of "\<lambda>_. [sample_sent 3]" QUIC_PNS_APP, folded W_def, unfolded Let_def acked_sample]
  show ?thesis
    using t W by (auto split: option.splits)
qed

lemma akr_ack_range_eq: "akr_ack_range t lo hi = ack_range t lo hi"
  by (induction t) (simp_all add: akr_slot_in_range_def slot_in_range_def akr_pn_within_def pn_within_def)

lemma akr_ranges_set:
  "fst (akr_ranges t rs) = ack_set (\<Union>r\<in>set rs. {ar_lo r..ar_hi r}) t \<and>
   set (snd (akr_ranges t rs)) = acked_pns (\<Union>r\<in>set rs. {ar_lo r..ar_hi r}) t"
proof (induction rs arbitrary: t)
  case Nil
  show ?case by (auto simp: ack_set_def acked_pns_def)
next
  case (Cons r rs)
  obtain t1 o1 where a: "ack_range t (ar_lo r) (ar_hi r) = (t1, o1)" by (cases "ack_range t (ar_lo r) (ar_hi r)")
  obtain t2 o2 where b: "akr_ranges t1 rs = (t2, o2)" by (cases "akr_ranges t1 rs")
  have a': "t1 = ack_set {ar_lo r..ar_hi r} t" "set o1 = acked_pns {ar_lo r..ar_hi r} t"
    using ack_range_set[of t "ar_lo r" "ar_hi r"] a by simp_all
  show ?case
    using Cons[of t1] a b a' by (simp add: akr_ack_range_eq ack_set_Un acked_pns_Un)
qed

text \<open>C22: Processing an ACK frame that a peer encoded acknowledges exactly the packets in flight
  whose numbers lie in one of the frame's ranges, and reports exactly these.\<close>

theorem ack_frame_acknowledges:
  assumes "ack_wf f" "cap \<le> length buf" "length buf < 2 ^ 63" "quic_ack_encode buf cap f = (w, buf')"
    "w \<noteq> 0" "w \<le> n" "n \<le> length buf" "U = (\<Union>r\<in>set (af_ranges f). {ar_lo r..ar_hi r})"
  shows "\<exists>out. quic_ackrange_process t buf' n = Some (ack_set U t, out) \<and> set out = acked_pns U t"
proof -
  have "quic_ack_decode buf' n = Some (f, w)" using ack.roundtrip(4)[OF assms(1-5) assms(6,7)] .
  then have "quic_ackrange_process t buf' n = Some (akr_ranges t (af_ranges f))"
    using assms(5) by (simp add: quic_ackrange_process_def)
  then show ?thesis using akr_ranges_set[of t "af_ranges f"] assms(8) by (cases "akr_ranges t (af_ranges f)") simp
qed

theorem ack_frame_acknowledges_witness:
  "\<exists>t out. quic_ackrange_process [sample_sent 19] (snd (quic_ack_encode (replicate 16 0) 16 ack_example)) 16 = Some (t, out) \<and> set out = {19}"
proof -
  obtain w buf' where e: "quic_ack_encode (replicate 16 0) 16 ack_example = (w, buf')" by fastforce
  have w: "w = 7" using ack.enc_fits[OF ack_example(1,2), of 16 "replicate 16 0"] e ack_example(3) by simp
  have U: "{18..20} \<union> {4..10} = (\<Union>r\<in>set (af_ranges ack_example). {ar_lo r..ar_hi r})" by (auto simp: ack_example_def)
  from ack_frame_acknowledges[OF ack_example(1) _ _ e _ _ _ U, of 16 "[sample_sent 19]"] w
  show ?thesis unfolding e by (auto simp: acked_sample)
qed

section \<open>Loss detection\<close>

lemma loss_detect_eq:
  "quic_loss_detect t la now ld = (map (\<lambda>e. if loss_is_lost e la now ld then e\<lparr>se_state := QUIC_SP_LOST\<rparr> else e) t,
     map se_pn (filter (\<lambda>e. loss_is_lost e la now ld) t))"
  by (induction t) auto

text \<open>When a packet counts as lost (RFC 9002, section 6.1), in unbounded numbers: it is in flight, and it was sent three
  packets or more before the largest acknowledged one, or at least the loss delay ago.\<close>

definition overdue :: "quic_sentpkt_entry \<Rightarrow> u64 \<Rightarrow> u64 \<Rightarrow> u64 \<Rightarrow> bool" where
  "overdue e la now ld \<longleftrightarrow> se_used e \<and> se_state e = QUIC_SP_INFLIGHT
     \<and> (unat (se_pn e) + 3 \<le> unat la \<or> unat (se_time_sent e) + unat ld \<le> unat now)"

definition times_fit :: "quic_sentpkt \<Rightarrow> u64 \<Rightarrow> bool" where
  "times_fit t ld \<longleftrightarrow> (\<forall>e \<in> set t. unat (se_pn e) < 2 ^ 62 \<and> unat (se_time_sent e) + unat ld < 2 ^ 64)"

lemma loss_is_lost_overdue:
  assumes "unat (se_pn e) < 2 ^ 62" "unat (se_time_sent e) + unat ld < 2 ^ 64"
  shows "loss_is_lost e la now ld \<longleftrightarrow> overdue e la now ld"
proof -
  have "unat (se_pn e + 3) = unat (se_pn e) + 3" using assms(1) by (simp add: unat_word_ariths)
  moreover have "unat (se_time_sent e + ld) = unat (se_time_sent e) + unat ld" using assms(2) by (simp add: unat_word_ariths)
  ultimately show ?thesis
    by (simp add: loss_is_lost_def inflight_def past_threshold_def by_packet_def by_time_def QUIC_SENTPKT_PACKET_THRESHOLD_def
        overdue_def word_le_nat_alt)
qed

text \<open>C23: Driving loss detection takes each lost packet out of the table exactly once: the packets
  reported are the ones in flight that were sent at least three packets before the largest acknowledged one or at least
  the loss delay ago, afterwards no packet in flight is overdue in this sense, all other slots are unchanged, and the number of
  slots in use drops by the number of packets reported. Packet numbers are below 2^62, and the sending times plus the delay do not wrap.\<close>

theorem lossdrive_exact:
  assumes "\<forall>e \<in> set t. \<not> slot_lost e" "times_fit t ld" "quic_lossdrive_on_ack t la now ld = (t', lost)"
  shows "lost = map se_pn (filter (\<lambda>e. overdue e la now ld) t)
    \<and> t' = map (\<lambda>e. if overdue e la now ld then e\<lparr>se_state := QUIC_SP_LOST, se_used := False\<rparr> else e) t
    \<and> (\<forall>e \<in> set t'. \<not> overdue e la now ld \<and> \<not> slot_lost e)
    \<and> quic_sentpkt_count t' + length lost = quic_sentpkt_count t"
proof -
  have o: "loss_is_lost e la now ld \<longleftrightarrow> overdue e la now ld" if "e \<in> set t" for e
    using assms(2) that by (simp add: times_fit_def loss_is_lost_overdue)
  have d: "drop_lost (map (\<lambda>e. if loss_is_lost e la now ld then e\<lparr>se_state := QUIC_SP_LOST\<rparr> else e) t) =
      map (\<lambda>e. if loss_is_lost e la now ld then e\<lparr>se_state := QUIC_SP_LOST, se_used := False\<rparr> else e) t"
    using assms(1) by (auto simp: drop_lost_def slot_lost_def loss_is_lost_def inflight_def)
  then have "t' = map (\<lambda>e. if loss_is_lost e la now ld then e\<lparr>se_state := QUIC_SP_LOST, se_used := False\<rparr> else e) t"
    and "lost = map se_pn (filter (\<lambda>e. loss_is_lost e la now ld) t)"
    using assms(3) by (simp_all add: quic_lossdrive_on_ack_def loss_detect_eq)
  then have t': "t' = map (\<lambda>e. if overdue e la now ld then e\<lparr>se_state := QUIC_SP_LOST, se_used := False\<rparr> else e) t"
    and l: "lost = map se_pn (filter (\<lambda>e. overdue e la now ld) t)"
    using o by (simp_all cong: map_cong filter_cong)
  have cnt: "quic_sentpkt_count t' + length lost = quic_sentpkt_count t"
    unfolding t' l length_map by (induction t) (auto simp: quic_sentpkt_count_def overdue_def)
  have no: "\<not> overdue e la now ld \<and> \<not> slot_lost e" if "e \<in> set t'" for e
    using that assms(1) unfolding t' by (auto simp: overdue_def slot_lost_def)
  show ?thesis by (intro conjI ballI) (rule l t' cnt conjunct1[OF no] conjunct2[OF no]; assumption?)+
qed

theorem lossdrive_exact_witness:
  "snd (quic_lossdrive_on_ack [sample_sent 1, sample_sent 2, sample_sent 3] 5 4 5) = [1, 2]"
proof (cases "quic_lossdrive_on_ack [sample_sent 1, sample_sent 2, sample_sent 3] 5 4 5")
  case (Pair t' lost)
  have "\<forall>e \<in> set [sample_sent 1, sample_sent 2, sample_sent 3]. \<not> slot_lost e" "times_fit [sample_sent 1, sample_sent 2, sample_sent 3] 5"
    by (simp_all add: slot_lost_def sample_sent_def times_fit_def)
  from lossdrive_exact[OF this Pair] have "lost = map se_pn (filter (\<lambda>e. overdue e 5 4 5) [sample_sent 1, sample_sent 2, sample_sent 3])"
    by (rule conjunct1)
  then show ?thesis unfolding Pair by (simp add: overdue_def sample_sent_def)
qed

end
