(* ===== verification/Recovery.thy ===== *)
theory Recovery
  imports Ack_Tracking "HOL-Library.Multiset"
begin

text \<open>
  Loss recovery and congestion control, \<^verbatim>\<open>src/transport/recovery/\<close>: RTT estimation, probe timeouts,
  loss timers and ACK policy (\<^verbatim>\<open>detect/recovery/\<close>, \<^verbatim>\<open>detect/hspto/\<close>, \<^verbatim>\<open>detect/lossdrive/\<close>, \<^verbatim>\<open>detect/losstime/\<close>),
  the two tables of sent packets with byte accounting (\<^verbatim>\<open>detect/recovery/sent.c\<close>,
  \<^verbatim>\<open>rtx/sentmeta/\<close>), and the congestion window (\<^verbatim>\<open>congestion/\<close>). Times and sizes are 64-bit words.
\<close>

section \<open>rtt.c, rttinit.c, rttsample.c, rttvalid.c\<close>

definition QUIC_RTT_INITIAL_US :: u64 where "QUIC_RTT_INITIAL_US = 333000"

definition QUIC_RTT_GRANULARITY :: u64 where "QUIC_RTT_GRANULARITY = 1000"

record quic_rtt =
  rt_min_rtt :: u64
  rt_smoothed_rtt :: u64
  rt_rttvar :: u64
  rt_have_sample :: bool

definition quic_rtt_init :: quic_rtt where
  "quic_rtt_init = \<lparr>rt_min_rtt = 0, rt_smoothed_rtt = QUIC_RTT_INITIAL_US,
     rt_rttvar = QUIC_RTT_INITIAL_US div 2, rt_have_sample = False\<rparr>"

definition first_sample :: "quic_rtt \<Rightarrow> u64 \<Rightarrow> quic_rtt" where
  "first_sample r latest =
     r\<lparr>rt_min_rtt := latest, rt_smoothed_rtt := latest, rt_rttvar := latest div 2, rt_have_sample := True\<rparr>"

definition adjust :: "quic_rtt \<Rightarrow> u64 \<Rightarrow> u64 \<Rightarrow> u64" where
  "adjust r latest ack_delay = (if latest \<ge> rt_min_rtt r + ack_delay then latest - ack_delay else latest)"

definition next_sample :: "quic_rtt \<Rightarrow> u64 \<Rightarrow> u64 \<Rightarrow> quic_rtt" where
  "next_sample r latest ack_delay =
     (let adjusted = adjust r latest ack_delay;
          var_sample = quic_u64_absdiff (rt_smoothed_rtt r) adjusted
      in r\<lparr>rt_min_rtt := quic_u64_min (rt_min_rtt r) latest,
           rt_rttvar := (3 * rt_rttvar r + var_sample) div 4,
           rt_smoothed_rtt := (7 * rt_smoothed_rtt r + adjusted) div 8\<rparr>)"

definition quic_rtt_sample :: "quic_rtt \<Rightarrow> u64 \<Rightarrow> u64 \<Rightarrow> quic_rtt" where
  "quic_rtt_sample r latest_rtt ack_delay =
     (if \<not> rt_have_sample r then first_sample r latest_rtt else next_sample r latest_rtt ack_delay)"

definition quic_rtt_pto :: "quic_rtt \<Rightarrow> u64 \<Rightarrow> u64" where
  "quic_rtt_pto r max_ack_delay =
     (let var = quic_u64_max (4 * rt_rttvar r) QUIC_RTT_GRANULARITY
      in rt_smoothed_rtt r + var + max_ack_delay)"

definition quic_rtt_is_first :: "bool \<Rightarrow> bool" where
  "quic_rtt_is_first have_sample = (\<not> have_sample)"

definition quic_rtt_first_srtt :: "u64 \<Rightarrow> u64" where
  "quic_rtt_first_srtt latest_rtt = latest_rtt"

definition quic_rtt_first_rttvar :: "u64 \<Rightarrow> u64" where
  "quic_rtt_first_rttvar latest_rtt = latest_rtt div 2"

definition quic_rtt_min_update :: "u64 \<Rightarrow> u64 \<Rightarrow> u64" where
  "quic_rtt_min_update min_rtt latest_rtt = quic_u64_min min_rtt latest_rtt"

definition quic_rtt_adjusted :: "u64 \<Rightarrow> u64 \<Rightarrow> u64 \<Rightarrow> u64" where
  "quic_rtt_adjusted latest_rtt min_rtt ack_delay =
     (if latest_rtt \<ge> min_rtt + ack_delay then latest_rtt - ack_delay else latest_rtt)"

definition quic_rtt_sample_valid :: "bool \<Rightarrow> bool \<Rightarrow> bool" where
  "quic_rtt_sample_valid largest_newly_acked was_ack_eliciting \<longleftrightarrow> largest_newly_acked \<and> was_ack_eliciting"

definition quic_rtt_sample_time :: "u64 \<Rightarrow> u64 \<Rightarrow> u64" where
  "quic_rtt_sample_time now sent_time = (if now \<ge> sent_time then now - sent_time else 0)"

section \<open>pto.c, ptoreset.c, ptobackoff.c, hspto\<close>

definition QUIC_PTO_GRANULARITY :: u64 where "QUIC_PTO_GRANULARITY = 1000"

definition QUIC_PTO_BACKOFF_MAX :: u32 where "QUIC_PTO_BACKOFF_MAX = 16"

definition quic_pto_backoff :: "u32 \<Rightarrow> u64" where
  "quic_pto_backoff n =
     (let shift = (if n < QUIC_PTO_BACKOFF_MAX then n else QUIC_PTO_BACKOFF_MAX)
      in push_bit (unat shift) 1)"

definition base_pto :: "u64 \<Rightarrow> u64 \<Rightarrow> u64 \<Rightarrow> u64" where
  "base_pto srtt rttvar max_ack_delay =
     (let var = quic_u64_max (4 * rttvar) QUIC_PTO_GRANULARITY in srtt + var + max_ack_delay)"

definition quic_pto_duration :: "u64 \<Rightarrow> u64 \<Rightarrow> u64 \<Rightarrow> u32 \<Rightarrow> u64" where
  "quic_pto_duration srtt rttvar max_ack_delay backoff_count =
     base_pto srtt rttvar max_ack_delay * quic_pto_backoff backoff_count"

definition quic_pto_should_reset :: "bool \<Rightarrow> u64 \<Rightarrow> bool" where
  "quic_pto_should_reset ack_received ack_eliciting_in_flight \<longleftrightarrow> ack_received \<and> ack_eliciting_in_flight = 0"

definition quic_lossdrive_pto :: "u64 \<Rightarrow> u64 \<Rightarrow> u64 \<Rightarrow> u32 \<Rightarrow> u64 \<Rightarrow> u64" where
  "quic_lossdrive_pto smoothed_rtt rttvar max_ack_delay pto_count granularity =
     (let var = quic_u64_max (4 * rttvar) granularity;
          base = smoothed_rtt + var + max_ack_delay
      in base * quic_pto_backoff pto_count)"

definition ack_delay_term :: "bool \<Rightarrow> u64 \<Rightarrow> u64" where
  "ack_delay_term handshake_confirmed max_ack_delay = (if handshake_confirmed then max_ack_delay else 0)"

definition quic_hspto_duration :: "u64 \<Rightarrow> u64 \<Rightarrow> u32 \<Rightarrow> u64 \<Rightarrow> bool \<Rightarrow> u64 \<Rightarrow> u64" where
  "quic_hspto_duration srtt rttvar pto_count granularity handshake_confirmed max_ack_delay =
     (let var = quic_u64_max (4 * rttvar) granularity;
          base = srtt + var + ack_delay_term handshake_confirmed max_ack_delay
      in base * quic_pto_backoff pto_count)"

definition handshake_armable :: "bool \<Rightarrow> bool \<Rightarrow> bool" where
  "handshake_armable handshake_inflight has_handshake_keys \<longleftrightarrow> handshake_inflight \<and> has_handshake_keys"

definition quic_hspto_should_arm :: "bool \<Rightarrow> bool \<Rightarrow> bool \<Rightarrow> bool \<Rightarrow> bool" where
  "quic_hspto_should_arm initial_inflight handshake_inflight handshake_confirmed has_handshake_keys \<longleftrightarrow>
     initial_inflight \<or> handshake_armable handshake_inflight has_handshake_keys"

definition QUIC_HSPTO_SPACE_INITIAL :: int where "QUIC_HSPTO_SPACE_INITIAL = 0"

definition QUIC_HSPTO_SPACE_HANDSHAKE :: int where "QUIC_HSPTO_SPACE_HANDSHAKE = 1"

definition QUIC_HSPTO_SPACE_APPLICATION :: int where "QUIC_HSPTO_SPACE_APPLICATION = 2"

definition early_space :: "bool \<Rightarrow> bool \<Rightarrow> int" where
  "early_space initial_inflight handshake_inflight =
     (if initial_inflight then QUIC_HSPTO_SPACE_INITIAL
      else if handshake_inflight then QUIC_HSPTO_SPACE_HANDSHAKE
      else QUIC_HSPTO_SPACE_APPLICATION)"

definition quic_hspto_probe_space :: "bool \<Rightarrow> bool \<Rightarrow> bool \<Rightarrow> int" where
  "quic_hspto_probe_space initial_inflight handshake_inflight handshake_confirmed =
     (if handshake_confirmed then QUIC_HSPTO_SPACE_APPLICATION
      else early_space initial_inflight handshake_inflight)"

section \<open>lossdetect.c, losstimer.c, lossdelay.c, losstime.c, probe.c, largestacked.c, inflight.c, ackdelay.c\<close>

definition QUIC_LOSS_PACKET_THRESHOLD :: u64 where "QUIC_LOSS_PACKET_THRESHOLD = 3"

definition QUIC_LOSS_TIME_NUM :: u64 where "QUIC_LOSS_TIME_NUM = 9"

definition QUIC_LOSS_TIME_DEN :: u64 where "QUIC_LOSS_TIME_DEN = 8"

definition quic_loss_by_packet :: "u64 \<Rightarrow> u64 \<Rightarrow> bool" where
  "quic_loss_by_packet largest_acked pn \<longleftrightarrow> largest_acked \<ge> pn + QUIC_LOSS_PACKET_THRESHOLD"

definition time_threshold :: "u64 \<Rightarrow> u64 \<Rightarrow> u64" where
  "time_threshold srtt latest_rtt =
     (let rtt = quic_u64_max srtt latest_rtt in rtt * QUIC_LOSS_TIME_NUM div QUIC_LOSS_TIME_DEN)"

definition quic_loss_by_time :: "u64 \<Rightarrow> u64 \<Rightarrow> u64 \<Rightarrow> u64 \<Rightarrow> bool" where
  "quic_loss_by_time now sent_time srtt latest_rtt \<longleftrightarrow>
     (let elapsed = (if now > sent_time then now - sent_time else 0) in elapsed \<ge> time_threshold srtt latest_rtt)"

definition quic_losstimer_next :: "u64 \<Rightarrow> u64 \<Rightarrow> bool \<Rightarrow> u64" where
  "quic_losstimer_next loss_time pto_time has_loss_time =
     (if has_loss_time \<and> loss_time < pto_time then loss_time else pto_time)"

definition quic_losstimer_set :: "bool \<Rightarrow> bool" where
  "quic_losstimer_set ack_eliciting_in_flight = ack_eliciting_in_flight"

definition quic_lossdrive_loss_delay :: "u64 \<Rightarrow> u64 \<Rightarrow> u64 \<Rightarrow> u64" where
  "quic_lossdrive_loss_delay smoothed_rtt latest_rtt granularity =
     (let rtt = quic_u64_max smoothed_rtt latest_rtt;
          threshold = rtt * QUIC_LOSS_TIME_NUM div QUIC_LOSS_TIME_DEN
      in quic_u64_max threshold granularity)"

definition quic_losstime_threshold :: "u64 \<Rightarrow> u64 \<Rightarrow> u64 \<Rightarrow> u64" where
  "quic_losstime_threshold srtt latest_rtt granularity = quic_lossdrive_loss_delay srtt latest_rtt granularity"

definition quic_losstime_is_lost :: "u64 \<Rightarrow> u64 \<Rightarrow> u64 \<Rightarrow> bool" where
  "quic_losstime_is_lost time_sent now loss_delay \<longleftrightarrow> now \<ge> time_sent + loss_delay"

definition quic_probe_count :: "bool \<Rightarrow> int" where
  "quic_probe_count pto_fired = (if pto_fired then 2 else 0)"

definition quic_probe_should_send :: "u64 \<Rightarrow> bool \<Rightarrow> bool" where
  "quic_probe_should_send bytes_in_flight pto_expired = pto_expired"

definition quic_largest_acked_update :: "u64 \<Rightarrow> u64 \<Rightarrow> u64" where
  "quic_largest_acked_update current new_largest = quic_u64_max current new_largest"

definition quic_newly_acked :: "u64 \<Rightarrow> u64 \<Rightarrow> bool" where
  "quic_newly_acked prev_largest pn \<longleftrightarrow> pn > prev_largest"

definition quic_pkt_ack_eliciting :: "bool \<Rightarrow> bool" where
  "quic_pkt_ack_eliciting has_non_ack_frame = has_non_ack_frame"

definition quic_pkt_in_flight :: "bool \<Rightarrow> bool \<Rightarrow> bool" where
  "quic_pkt_in_flight ack_eliciting has_padding \<longleftrightarrow> ack_eliciting \<or> has_padding"

definition quic_pkt_counts_bytes :: "bool \<Rightarrow> u64 \<Rightarrow> u64" where
  "quic_pkt_counts_bytes in_flight sz = (if in_flight then sz else 0)"

definition quic_ack_delay_encode :: "u64 \<Rightarrow> u8 \<Rightarrow> u64" where
  "quic_ack_delay_encode micros exponent = drop_bit (unat exponent) micros"

definition quic_ack_delay_decode :: "u64 \<Rightarrow> u8 \<Rightarrow> u64" where
  "quic_ack_delay_decode value exponent = push_bit (unat exponent) value"

section \<open>ackpolicy.c\<close>

record quic_ackpolicy =
  ap_pending :: u64
  ap_since_tick :: u64

definition quic_ackpolicy_init :: quic_ackpolicy where
  "quic_ackpolicy_init = \<lparr>ap_pending = 0, ap_since_tick = 0\<rparr>"

definition quic_ackpolicy_on_eliciting :: "quic_ackpolicy \<Rightarrow> u64 \<Rightarrow> quic_ackpolicy" where
  "quic_ackpolicy_on_eliciting p tick =
     (let p = (if ap_pending p = 0 then p\<lparr>ap_since_tick := tick\<rparr> else p)
      in p\<lparr>ap_pending := ap_pending p + 1\<rparr>)"

definition delay_elapsed :: "quic_ackpolicy \<Rightarrow> u64 \<Rightarrow> u64 \<Rightarrow> bool" where
  "delay_elapsed p now max_ack_delay \<longleftrightarrow> now - ap_since_tick p \<ge> max_ack_delay"

definition quic_ackpolicy_should_ack :: "quic_ackpolicy \<Rightarrow> u64 \<Rightarrow> u64 \<Rightarrow> bool" where
  "quic_ackpolicy_should_ack p now max_ack_delay =
     (if ap_pending p = 0 then False
      else if ap_pending p \<ge> 2 then True
      else delay_elapsed p now max_ack_delay)"

definition quic_ackpolicy_on_ack_sent :: "quic_ackpolicy \<Rightarrow> quic_ackpolicy" where
  "quic_ackpolicy_on_ack_sent p = p\<lparr>ap_pending := 0\<rparr>"

section \<open>cc.c, ccloss.c, ccphase.c, cwndcheck.c, ecn.c, pacing.c, persistent.c, cwndctl.c\<close>

definition QUIC_MAX_DATAGRAM :: u64 where "QUIC_MAX_DATAGRAM = 1200"

definition QUIC_CC_MIN_WINDOW :: u64 where "QUIC_CC_MIN_WINDOW = 2 * QUIC_MAX_DATAGRAM"

definition QUIC_CC_INIT_WINDOW :: u64 where "QUIC_CC_INIT_WINDOW = 10 * QUIC_MAX_DATAGRAM"

record quic_cc =
  cc_cwnd :: u64
  cc_ssthresh :: u64
  cc_in_recovery :: bool
  cc_recovery_start :: u64

definition quic_cc_init :: quic_cc where
  "quic_cc_init = \<lparr>cc_cwnd = QUIC_CC_INIT_WINDOW, cc_ssthresh = NOT 0, cc_in_recovery = False, cc_recovery_start = 0\<rparr>"

definition grow :: "quic_cc \<Rightarrow> u64 \<Rightarrow> quic_cc" where
  "grow c acked =
     (let inc = (if cc_cwnd c < cc_ssthresh c then acked else QUIC_MAX_DATAGRAM * acked div cc_cwnd c)
      in c\<lparr>cc_cwnd := cc_cwnd c + inc\<rparr>)"

definition maybe_exit_recovery :: "quic_cc \<Rightarrow> u64 \<Rightarrow> quic_cc" where
  "maybe_exit_recovery c sent_time =
     (if cc_in_recovery c \<and> sent_time > cc_recovery_start c then c\<lparr>cc_in_recovery := False\<rparr> else c)"

definition quic_cc_on_ack :: "quic_cc \<Rightarrow> u64 \<Rightarrow> u64 \<Rightarrow> quic_cc" where
  "quic_cc_on_ack c acked sent_time =
     (let c = maybe_exit_recovery c sent_time in if \<not> cc_in_recovery c then grow c acked else c)"

definition quic_cc_on_loss :: "quic_cc \<Rightarrow> u64 \<Rightarrow> u64 \<Rightarrow> quic_cc" where
  "quic_cc_on_loss c sent_time now =
     (if cc_in_recovery c \<or> sent_time < cc_recovery_start c then c
      else let ssthresh = quic_u64_max (cc_cwnd c div 2) QUIC_CC_MIN_WINDOW
           in c\<lparr>cc_ssthresh := ssthresh, cc_cwnd := ssthresh, cc_in_recovery := True, cc_recovery_start := now\<rparr>)"

definition quic_cc_on_persistent :: "quic_cc \<Rightarrow> quic_cc" where
  "quic_cc_on_persistent c = c\<lparr>cc_cwnd := QUIC_CC_MIN_WINDOW\<rparr>"

definition quic_cc_on_loss_ssthresh :: "u64 \<Rightarrow> u64" where
  "quic_cc_on_loss_ssthresh cwnd = cwnd div 2"

definition quic_cc_on_loss_cwnd :: "u64 \<Rightarrow> u64 \<Rightarrow> u64" where
  "quic_cc_on_loss_cwnd cwnd max_datagram = quic_u64_max (cwnd div 2) (2 * max_datagram)"

definition quic_cc_in_recovery :: "u64 \<Rightarrow> u64 \<Rightarrow> bool" where
  "quic_cc_in_recovery sent_time recovery_start \<longleftrightarrow> sent_time \<le> recovery_start"

definition quic_cc_in_slow_start :: "u64 \<Rightarrow> u64 \<Rightarrow> bool" where
  "quic_cc_in_slow_start cwnd ssthresh \<longleftrightarrow> cwnd < ssthresh"

definition quic_cc_slow_start_inc :: "u64 \<Rightarrow> u64" where
  "quic_cc_slow_start_inc acked = acked"

definition quic_cc_avoid_inc :: "u64 \<Rightarrow> u64 \<Rightarrow> u64 \<Rightarrow> u64" where
  "quic_cc_avoid_inc max_datagram acked cwnd = max_datagram * acked div cwnd"

definition quic_cwnd_can_send :: "u64 \<Rightarrow> u64 \<Rightarrow> u64 \<Rightarrow> bool" where
  "quic_cwnd_can_send in_flight cwnd sz \<longleftrightarrow> in_flight + sz \<le> cwnd"

definition quic_cwnd_app_limited :: "u64 \<Rightarrow> u64 \<Rightarrow> bool" where
  "quic_cwnd_app_limited in_flight cwnd \<longleftrightarrow> in_flight < cwnd"

definition quic_ecn_ce_increased :: "u64 \<Rightarrow> u64 \<Rightarrow> bool" where
  "quic_ecn_ce_increased prev_ce new_ce \<longleftrightarrow> new_ce > prev_ce"

definition quic_ecn_counts_valid :: "u64 \<Rightarrow> u64 \<Rightarrow> u64 \<Rightarrow> u64 \<Rightarrow> bool" where
  "quic_ecn_counts_valid prev_ce new_ce prev_ect0 new_ect0 \<longleftrightarrow> new_ce \<ge> prev_ce \<and> new_ect0 \<ge> prev_ect0"

definition quic_pacing_interval :: "u64 \<Rightarrow> u64 \<Rightarrow> u64 \<Rightarrow> u64" where
  "quic_pacing_interval srtt cwnd packet_size = (if cwnd = 0 then 0 else 5 * packet_size * srtt div (4 * cwnd))"

definition quic_cc_persistent :: "u64 \<Rightarrow> u64 \<Rightarrow> bool" where
  "quic_cc_persistent loss_period pto \<longleftrightarrow> loss_period \<ge> 3 * pto"

definition quic_cc_persistent_cwnd :: "u64 \<Rightarrow> u64" where
  "quic_cc_persistent_cwnd max_datagram = 2 * max_datagram"

definition quic_cwndctl_can_send :: "u64 \<Rightarrow> u64 \<Rightarrow> usz \<Rightarrow> bool" where
  "quic_cwndctl_can_send bytes_in_flight cwnd next_packet_size =
     quic_cwnd_can_send bytes_in_flight cwnd (of_nat next_packet_size)"

definition quic_cwndctl_pacing_interval :: "u64 \<Rightarrow> u64 \<Rightarrow> usz \<Rightarrow> u64" where
  "quic_cwndctl_pacing_interval smoothed_rtt cwnd mtu = quic_pacing_interval smoothed_rtt cwnd (of_nat mtu)"

section \<open>sent.c\<close>

definition QUIC_SENT_CAP :: usz where "QUIC_SENT_CAP = 256"

definition QUIC_PACKET_THRESHOLD :: u64 where "QUIC_PACKET_THRESHOLD = 3"

datatype pkt_state = QUIC_PKT_INFLIGHT | QUIC_PKT_ACKED | QUIC_PKT_LOST

record quic_sent_pkt =
  sp_pn :: u64
  sp_size :: u64
  sp_time_sent :: u64
  sp_state :: pkt_state
  sp_used :: bool

record quic_sent =
  sn_pkts :: "quic_sent_pkt list"
  sn_bytes_in_flight :: u64
  sn_largest_acked :: u64
  sn_have_acked :: bool

definition quic_sent_init :: "quic_sent \<Rightarrow> quic_sent" where
  "quic_sent_init s =
     s\<lparr>sn_pkts := map (\<lambda>p. p\<lparr>sp_used := False\<rparr>) (sn_pkts s), sn_bytes_in_flight := 0,
       sn_largest_acked := 0, sn_have_acked := False\<rparr>"

definition free_slot :: "quic_sent \<Rightarrow> usz" where
  "free_slot s = find_idx (\<lambda>i. \<not> sp_used (sn_pkts s ! i)) 0 QUIC_SENT_CAP"

definition quic_sent_on_send :: "quic_sent \<Rightarrow> u64 \<Rightarrow> u64 \<Rightarrow> u64 \<Rightarrow> bool \<times> quic_sent" where
  "quic_sent_on_send s pn sz time_sent =
     (let i = free_slot s
      in if i = QUIC_SENT_CAP then (False, s)
         else (True, s\<lparr>sn_pkts := (sn_pkts s)[i := \<lparr>sp_pn = pn, sp_size = sz, sp_time_sent = time_sent,
                                    sp_state = QUIC_PKT_INFLIGHT, sp_used = True\<rparr>],
                       sn_bytes_in_flight := sn_bytes_in_flight s + sz\<rparr>))"

definition slot_has_pn :: "quic_sent \<Rightarrow> usz \<Rightarrow> u64 \<Rightarrow> bool" where
  "slot_has_pn s i pn \<longleftrightarrow> sp_used (sn_pkts s ! i) \<and> sp_pn (sn_pkts s ! i) = pn"

definition find_pn :: "quic_sent \<Rightarrow> u64 \<Rightarrow> usz" where
  "find_pn s pn = find_idx (\<lambda>i. slot_has_pn s i pn) 0 QUIC_SENT_CAP"

definition note_acked :: "quic_sent \<Rightarrow> u64 \<Rightarrow> quic_sent" where
  "note_acked s pn =
     (let s = (if \<not> sn_have_acked s \<or> pn > sn_largest_acked s then s\<lparr>sn_largest_acked := pn\<rparr> else s)
      in s\<lparr>sn_have_acked := True\<rparr>)"

definition quic_sent_on_ack :: "quic_sent \<Rightarrow> u64 \<Rightarrow> bool \<times> quic_sent" where
  "quic_sent_on_ack s pn =
     (let i = find_pn s pn;
          s = note_acked s pn
      in if i = QUIC_SENT_CAP \<or> sp_state (sn_pkts s ! i) \<noteq> QUIC_PKT_INFLIGHT then (False, s)
         else (True, s\<lparr>sn_bytes_in_flight := sn_bytes_in_flight s - sp_size (sn_pkts s ! i),
                       sn_pkts := (sn_pkts s)[i := (sn_pkts s ! i)\<lparr>sp_state := QUIC_PKT_ACKED\<rparr>]\<rparr>))"

definition is_lost :: "quic_sent \<Rightarrow> usz \<Rightarrow> bool" where
  "is_lost s i \<longleftrightarrow> sp_used (sn_pkts s ! i) \<and> sp_state (sn_pkts s ! i) = QUIC_PKT_INFLIGHT \<and>
     sn_largest_acked s \<ge> sp_pn (sn_pkts s ! i) + QUIC_PACKET_THRESHOLD"

definition lose_one :: "quic_sent \<Rightarrow> usz \<Rightarrow> quic_sent" where
  "lose_one s i =
     s\<lparr>sn_bytes_in_flight := sn_bytes_in_flight s - sp_size (sn_pkts s ! i),
       sn_pkts := (sn_pkts s)[i := (sn_pkts s ! i)\<lparr>sp_state := QUIC_PKT_LOST\<rparr>]\<rparr>"

definition sweep_losses :: "quic_sent \<Rightarrow> usz \<times> quic_sent" where
  "sweep_losses s =
     fold (\<lambda>i (lost, s). if is_lost s i then (lost + 1, lose_one s i) else (lost, s)) [0..<QUIC_SENT_CAP] (0, s)"

definition quic_sent_detect_loss :: "quic_sent \<Rightarrow> usz \<times> quic_sent" where
  "quic_sent_detect_loss s = (if \<not> sn_have_acked s then (0, s) else sweep_losses s)"

section \<open>sentmeta\<close>

definition QUIC_SENTMETA_CAP :: usz where "QUIC_SENTMETA_CAP = 256"

definition QUIC_SENTMETA_PACKET_THRESHOLD :: u64 where "QUIC_SENTMETA_PACKET_THRESHOLD = 3"

record quic_sentmeta_pkt =
  sm_pn :: u64
  sm_time_sent :: u64
  sm_sent_bytes :: usz
  sm_ack_eliciting :: bool
  sm_in_flight :: bool
  sm_used :: bool

record quic_sentmeta =
  sm_pkts :: "quic_sentmeta_pkt list"
  sm_count :: usz
  sm_total_in_flight :: usz

definition quic_sentmeta_init :: "quic_sentmeta \<Rightarrow> quic_sentmeta" where
  "quic_sentmeta_init m =
     m\<lparr>sm_pkts := map (\<lambda>p. p\<lparr>sm_used := False\<rparr>) (sm_pkts m), sm_count := 0, sm_total_in_flight := 0\<rparr>"

definition sentmeta_free_slot :: "quic_sentmeta \<Rightarrow> usz" where
  "sentmeta_free_slot m = find_idx (\<lambda>i. \<not> sm_used (sm_pkts m ! i)) 0 QUIC_SENTMETA_CAP"

definition sentmeta_store :: "u64 \<Rightarrow> u64 \<Rightarrow> bool \<Rightarrow> bool \<Rightarrow> usz \<Rightarrow> quic_sentmeta_pkt" where
  "sentmeta_store pn time_sent ack_eliciting in_flight sent_bytes =
     \<lparr>sm_pn = pn, sm_time_sent = time_sent, sm_sent_bytes = sent_bytes,
      sm_ack_eliciting = ack_eliciting, sm_in_flight = in_flight, sm_used = True\<rparr>"

definition quic_sentmeta_on_sent ::
  "quic_sentmeta \<Rightarrow> u64 \<Rightarrow> u64 \<Rightarrow> bool \<Rightarrow> bool \<Rightarrow> usz \<Rightarrow> bool \<times> quic_sentmeta" where
  "quic_sentmeta_on_sent m pn time_sent ack_eliciting in_flight sent_bytes =
     (let i = sentmeta_free_slot m
      in if i = QUIC_SENTMETA_CAP then (False, m)
         else let m = m\<lparr>sm_pkts := (sm_pkts m)[i := sentmeta_store pn time_sent ack_eliciting in_flight sent_bytes],
                        sm_count := usz_add (sm_count m) 1\<rparr>
              in (True, if in_flight then m\<lparr>sm_total_in_flight := usz_add (sm_total_in_flight m) sent_bytes\<rparr> else m))"

definition quic_sentmeta_reclaim :: "quic_sentmeta \<Rightarrow> usz \<Rightarrow> quic_sentmeta" where
  "quic_sentmeta_reclaim m i =
     (let m = (if sm_in_flight (sm_pkts m ! i)
               then m\<lparr>sm_total_in_flight := usz_sub (sm_total_in_flight m) (sm_sent_bytes (sm_pkts m ! i))\<rparr> else m)
      in m\<lparr>sm_pkts := (sm_pkts m)[i := (sm_pkts m ! i)\<lparr>sm_used := False\<rparr>], sm_count := usz_sub (sm_count m) 1\<rparr>)"

definition sentmeta_holds :: "quic_sentmeta_pkt \<Rightarrow> u64 \<Rightarrow> bool" where
  "sentmeta_holds p pn \<longleftrightarrow> sm_used p \<and> sm_pn p = pn"

definition quic_sentmeta_find :: "quic_sentmeta \<Rightarrow> u64 \<Rightarrow> usz" where
  "quic_sentmeta_find m pn = find_idx (\<lambda>i. sentmeta_holds (sm_pkts m ! i) pn) 0 QUIC_SENTMETA_CAP"

definition quic_sentmeta_on_ack :: "quic_sentmeta \<Rightarrow> u64 \<Rightarrow> (u64 \<times> bool) option \<times> quic_sentmeta" where
  "quic_sentmeta_on_ack m acked_pn =
     (let i = quic_sentmeta_find m acked_pn
      in if i = QUIC_SENTMETA_CAP then (None, m)
         else (Some (sm_time_sent (sm_pkts m ! i), sm_ack_eliciting (sm_pkts m ! i)), quic_sentmeta_reclaim m i))"

definition sentmeta_by_packet :: "u64 \<Rightarrow> u64 \<Rightarrow> bool" where
  "sentmeta_by_packet largest_acked pn \<longleftrightarrow> largest_acked \<ge> pn + QUIC_SENTMETA_PACKET_THRESHOLD"

definition sentmeta_by_time :: "u64 \<Rightarrow> u64 \<Rightarrow> u64 \<Rightarrow> bool" where
  "sentmeta_by_time now sent loss_delay \<longleftrightarrow> now \<ge> sent + loss_delay"

definition sentmeta_is_lost :: "quic_sentmeta_pkt \<Rightarrow> u64 \<Rightarrow> u64 \<Rightarrow> u64 \<Rightarrow> bool" where
  "sentmeta_is_lost p largest_acked now loss_delay \<longleftrightarrow>
     sentmeta_by_packet largest_acked (sm_pn p) \<or> sentmeta_by_time now (sm_time_sent p) loss_delay"

definition sentmeta_lost_slot :: "quic_sentmeta \<Rightarrow> usz \<Rightarrow> u64 \<Rightarrow> u64 \<Rightarrow> u64 \<Rightarrow> bool" where
  "sentmeta_lost_slot m i largest_acked now loss_delay \<longleftrightarrow>
     sm_used (sm_pkts m ! i) \<and> sentmeta_is_lost (sm_pkts m ! i) largest_acked now loss_delay"

definition quic_sentmeta_detect_loss ::
  "quic_sentmeta \<Rightarrow> u64 \<Rightarrow> u64 \<Rightarrow> u64 \<Rightarrow> u64 list \<times> quic_sentmeta" where
  "quic_sentmeta_detect_loss m largest_acked now loss_delay =
     fold (\<lambda>i (lost, m). if \<not> sentmeta_lost_slot m i largest_acked now loss_delay then (lost, m)
                         else (lost @ [sm_pn (sm_pkts m ! i)], quic_sentmeta_reclaim m i))
       [0..<QUIC_SENTMETA_CAP] ([], m)"

section \<open>RTT estimation\<close>

definition rtt_run :: "(u64 \<times> u64) list \<Rightarrow> quic_rtt" where
  "rtt_run samples = foldl (\<lambda>r (latest, delay). quic_rtt_sample r latest delay) quic_rtt_init samples"

lemmas word_cmp = word_le_nat_alt word_less_nat_alt

lemma adjust_between:
  assumes "unat (rt_min_rtt r) \<le> unat latest" "unat (rt_min_rtt r) + unat delay < 2 ^ 64"
  shows "unat (rt_min_rtt r) \<le> unat (adjust r latest delay) \<and> unat (adjust r latest delay) \<le> unat latest"
  using assms by (auto simp: adjust_def word_le_nat_alt unat_add_lem[THEN iffD1] unat_sub)

text \<open>When \<open>min_rtt + delay\<close> wraps, the subtraction wraps as well and adds up to \<open>min_rtt\<close> to the sample.\<close>

lemma adjust_wrapped:
  assumes "2 ^ 64 \<le> unat (rt_min_rtt r) + unat delay" "unat (rt_min_rtt r) < 2 ^ 60" "unat latest < 2 ^ 60"
  shows "unat latest \<le> unat (adjust r latest delay) \<and> unat (adjust r latest delay) \<le> unat latest + unat (rt_min_rtt r)"
proof -
  have "unat delay < 2 ^ 64" using unsigned_less[of delay] by simp
  moreover have "unat (latest - delay) = unat latest + 2 ^ 64 - unat delay" using assms by (simp add: unat_sub_if')
  ultimately show ?thesis using assms by (auto simp: adjust_def)
qed

lemma absdiff_between:
  "lo \<le> unat a \<Longrightarrow> unat a \<le> hi \<Longrightarrow> lo \<le> unat b \<Longrightarrow> unat b \<le> hi \<Longrightarrow> unat (quic_u64_absdiff a b) \<le> hi - lo"
  by (auto simp: quic_u64_absdiff_def word_cmp unat_sub)

lemma unat_mix:
  assumes "k * unat (a :: u64) + unat b < 2 ^ 64" "m < 2 ^ 64"
  shows "unat ((of_nat k * a + b) div of_nat m) = (k * unat a + unat b) div m"
proof -
  have "of_nat k * a + b = of_nat (k * unat a + unat b)" by simp
  then have "unat (of_nat k * a + b) = k * unat a + unat b" using assms(1) 
    by (simp only: unat_of_nat) simp
  then show ?thesis using assms(2) by (simp add: unat_div unat_of_nat)
qed

text \<open>The samples are between \<open>lo\<close> and \<open>hi\<close>, the smoothed RTT between \<open>lo\<close> and \<open>peak\<close>.\<close>

definition rtt_in :: "nat \<Rightarrow> nat \<Rightarrow> nat \<Rightarrow> quic_rtt \<Rightarrow> bool" where
  "rtt_in lo hi peak r \<longleftrightarrow> rt_have_sample r \<and> lo \<le> unat (rt_min_rtt r) \<and> unat (rt_min_rtt r) \<le> hi
     \<and> lo \<le> unat (rt_smoothed_rtt r) \<and> unat (rt_smoothed_rtt r) \<le> peak \<and> unat (rt_rttvar r) \<le> max (peak div 2) (peak - lo)"

lemma unat_min: "unat (quic_u64_min a b) = min (unat a) (unat b)"
  by (simp add: quic_u64_min_def word_less_nat_alt)

lemma unat_max: "unat (quic_u64_max a b) = max (unat a) (unat b)"
  by (simp add: quic_u64_max_def word_less_nat_alt)

lemma first_sample_in:
  "\<not> rt_have_sample r \<Longrightarrow> lo \<le> unat latest \<Longrightarrow> unat latest \<le> hi \<Longrightarrow> hi \<le> peak \<Longrightarrow>
   rtt_in lo hi peak (quic_rtt_sample r latest delay) \<and> rt_min_rtt (quic_rtt_sample r latest delay) = latest"
  by (simp add: quic_rtt_sample_def first_sample_def rtt_in_def unat_div max.coboundedI1 div_le_mono)

lemma next_sample_in:
  assumes r: "rtt_in lo hi peak r" and l: "lo \<le> unat latest" "unat latest \<le> hi"
    and b: "hi \<le> peak" "peak < 2 ^ 60" "unat delay < 2 ^ 63 \<or> 2 * hi \<le> peak"
  shows "rtt_in lo hi peak (quic_rtt_sample r latest delay)
    \<and> unat (rt_min_rtt (quic_rtt_sample r latest delay)) = min (unat (rt_min_rtt r)) (unat latest)"
proof -
  define a where "a = adjust r latest delay"
  have "lo \<le> unat a \<and> unat a \<le> peak"
  proof (cases "unat (rt_min_rtt r) + unat delay < 2 ^ 64")
    case True
    then show ?thesis
      using adjust_between[of r latest delay] r l b(1)
      by (auto simp: a_def rtt_in_def adjust_def word_le_nat_alt unat_add_lem[THEN iffD1] unat_sub)
  next
    case False
    then have "2 * hi \<le> peak" using r b by (auto simp: rtt_in_def)
    moreover have "unat latest \<le> unat a \<and> unat a \<le> unat latest + unat (rt_min_rtt r)"
      unfolding a_def using False r l b by (intro adjust_wrapped) (auto simp: rtt_in_def)
    ultimately show ?thesis using r l by (auto simp: rtt_in_def)
  qed
  then have a: "lo \<le> unat a" "unat a \<le> peak" by simp_all
  define v where "v = quic_u64_absdiff (rt_smoothed_rtt r) a"
  have v: "unat v \<le> peak - lo" unfolding v_def using absdiff_between r a by (simp add: rtt_in_def)
  have eq: "quic_rtt_sample r latest delay = r\<lparr>rt_min_rtt := quic_u64_min (rt_min_rtt r) latest,
      rt_rttvar := (3 * rt_rttvar r + v) div 4, rt_smoothed_rtt := (7 * rt_smoothed_rtt r + a) div 8\<rparr>"
    using r by (simp add: quic_rtt_sample_def next_sample_def Let_def a_def v_def rtt_in_def)
  have var: "unat ((3 * rt_rttvar r + v) div 4) = (3 * unat (rt_rttvar r) + unat v) div 4"
    using unat_mix[of 3 "rt_rttvar r" v 4] r v b by (auto simp: rtt_in_def max_def split: if_splits)
  have sm: "unat ((7 * rt_smoothed_rtt r + a) div 8) = (7 * unat (rt_smoothed_rtt r) + unat a) div 8"
    using unat_mix[of 7 "rt_smoothed_rtt r" a 8] r a b by (simp add: rtt_in_def)
  show ?thesis using r l a v unfolding eq by (auto simp: rtt_in_def unat_min var sm max_def)
qed

lemma rtt_run_in:
  assumes "samples \<noteq> []" "\<forall>(latest, delay) \<in> set samples. lo \<le> unat latest \<and> unat latest \<le> hi \<and> (unat delay < 2 ^ 63 \<or> 2 * hi \<le> peak)"
    "hi \<le> peak" "peak < 2 ^ 60"
  shows "rtt_in lo hi peak (rtt_run samples) \<and> unat (rt_min_rtt (rtt_run samples)) = Min ((unat \<circ> fst) ` set samples)"
  using assms
proof (induction samples rule: rev_nonempty_induct)
  case (single s)
  then show ?case
    using first_sample_in[of quic_rtt_init lo "fst s" hi peak "snd s"]
    by (cases s) (simp add: rtt_run_def quic_rtt_init_def)
next
  case (snoc s ss)
  obtain l d where s: "s = (l, d)" by fastforce
  have "Min ((unat \<circ> fst) ` set (ss @ [s])) = min (Min ((unat \<circ> fst) ` set ss)) (unat l)"
    using snoc.hyps by (simp add: s min.commute)
  then show ?case
    using snoc next_sample_in[of lo hi peak "rtt_run ss" l d] by (simp add: s rtt_run_def)
qed

text \<open>The largest ACK delay that a varint and the exponent 3 give makes \<open>min_rtt + ack_delay\<close> wrap: the smoothed RTT of two equal
  samples then exceeds them.\<close>

lemma rtt_delay_wraps: "rt_smoothed_rtt (rtt_run [(40000, 0), (40000, 0xfffffffffffffff8)]) = 40001"
  by (simp add: rtt_run_def quic_rtt_init_def quic_rtt_sample_def first_sample_def next_sample_def adjust_def Let_def)

text \<open>C27: After any sequence of RTT samples that all lie between \<open>lo\<close> and \<open>hi\<close>, whatever 64-bit ACK delays come with
  them, \<open>min_rtt\<close> is the least sample, the smoothed RTT lies between \<open>lo\<close> and twice \<open>hi\<close>, the variation is at most \<open>2 * hi\<close>, and
  the probe timeout computed from them is the formula of RFC 9002 without wrap-around. When all delays are below 2^63, so that
  no \<open>min_rtt + ack_delay\<close> wraps, the smoothed RTT is at most \<open>hi\<close> and the variation at most the larger of \<open>hi / 2\<close> and \<open>hi - lo\<close>.\<close>

theorem rtt_estimator_bounded:
  assumes "samples \<noteq> []" "hi < 2 ^ 59" "unat mad < 2 ^ 60"
    and "\<forall>(latest, delay) \<in> set samples. lo \<le> unat latest \<and> unat latest \<le> hi"
    and "r = rtt_run samples"
  shows "unat (rt_min_rtt r) = Min ((unat \<circ> fst) ` set samples)
    \<and> lo \<le> unat (rt_smoothed_rtt r) \<and> unat (rt_smoothed_rtt r) \<le> 2 * hi \<and> unat (rt_rttvar r) \<le> 2 * hi
    \<and> unat (quic_rtt_pto r mad) = unat (rt_smoothed_rtt r) + max (4 * unat (rt_rttvar r)) 1000 + unat mad
    \<and> ((\<forall>(latest, delay) \<in> set samples. unat delay < 2 ^ 63) \<longrightarrow>
        unat (rt_smoothed_rtt r) \<le> hi \<and> unat (rt_rttvar r) \<le> max (hi div 2) (hi - lo))"
proof -
  have i: "rtt_in lo hi (2 * hi) r" and m: "unat (rt_min_rtt r) = Min ((unat \<circ> fst) ` set samples)"
    using rtt_run_in[of samples lo hi "2 * hi"] assms by simp_all
  have n: "rtt_in lo hi hi r" if "\<forall>(latest, delay) \<in> set samples. unat delay < 2 ^ 63"
  proof -
    have "\<forall>(latest, delay) \<in> set samples. lo \<le> unat latest \<and> unat latest \<le> hi \<and> (unat delay < 2 ^ 63 \<or> 2 * hi \<le> hi)"
      using that assms(4) by fastforce
    from rtt_run_in[OF assms(1) this] assms show ?thesis by simp
  qed
  have v: "unat (4 * rt_rttvar r) = 4 * unat (rt_rttvar r)"
    using unat_mix[of 4 "rt_rttvar r" 0 1] i assms(2) by (auto simp: rtt_in_def)
  have p: "unat (quic_rtt_pto r mad) = unat (rt_smoothed_rtt r) + max (4 * unat (rt_rttvar r)) 1000 + unat mad"
    using i assms(2,3) by (auto simp: rtt_in_def quic_rtt_pto_def unat_word_ariths(1) unat_max v QUIC_RTT_GRANULARITY_def)
  have w: "unat (rt_rttvar r) \<le> 2 * hi" using i by (auto simp: rtt_in_def)
  show ?thesis using i m p w n by (simp add: rtt_in_def)
qed

theorem rtt_estimator_bounded_witness:
  "unat (rt_min_rtt (rtt_run [(40000, 0), (52000, 5000), (38000, 2000)])) = 38000"
proof -
  have "\<forall>(latest, delay) \<in> set [(40000 :: u64, 0 :: u64), (52000, 5000), (38000, 2000)].
      38000 \<le> unat latest \<and> unat latest \<le> 52000" by simp
  from rtt_estimator_bounded[OF _ _ _ this refl, of 0] show ?thesis by simp
qed

section \<open>Probe timeouts\<close>

lemma backoff_val: "unat (quic_pto_backoff n) = 2 ^ min (unat n) 16"
proof -
  have "unat (push_bit k (1 :: u64)) = 2 ^ k" if "k \<le> 16" for k
  proof -
    have "(2 :: nat) ^ k < 2 ^ 64" using that by (intro power_strict_increasing) auto
    moreover have "push_bit k (1 :: u64) = of_nat (2 ^ k)" by (simp add: push_bit_eq_mult)
    ultimately show ?thesis by (simp only: unat_of_nat) simp
  qed
  then show ?thesis by (simp add: quic_pto_backoff_def QUIC_PTO_BACKOFF_MAX_def Let_def word_less_nat_alt min_def)
qed

text \<open>For times below \<open>2 ^ 44\<close> microseconds (about 200 days) the four probe timeout routines
  agree: each is \<open>(srtt + max (4 * rttvar) 1000 + max_ack_delay) * 2 ^ min count 16\<close> computed without
  wrap-around, the handshake variant leaves \<open>max_ack_delay\<close> out until the handshake is confirmed, and the
  estimator's own timeout is the one of backoff count 0.\<close>

theorem pto_routines_agree:
  assumes "unat srtt < 2 ^ 44" "unat rttvar < 2 ^ 44" "unat mad < 2 ^ 44"
    and "T = (unat srtt + max (4 * unat rttvar) 1000 + unat mad) * 2 ^ min (unat n) 16"
  shows "unat (quic_pto_duration srtt rttvar mad n) = T
    \<and> quic_lossdrive_pto srtt rttvar mad n QUIC_PTO_GRANULARITY = quic_pto_duration srtt rttvar mad n
    \<and> quic_hspto_duration srtt rttvar n QUIC_PTO_GRANULARITY c mad =
        quic_pto_duration srtt rttvar (if c then mad else 0) n
    \<and> quic_rtt_pto \<lparr>rt_min_rtt = m, rt_smoothed_rtt = srtt, rt_rttvar = rttvar, rt_have_sample = h\<rparr> mad =
        quic_pto_duration srtt rttvar mad 0"
proof -
  have v: "unat (4 * rttvar) = 4 * unat rttvar" using unat_mix[of 4 rttvar 0 1] assms(2) by simp
  have b: "unat (base_pto srtt rttvar mad) = unat srtt + max (4 * unat rttvar) 1000 + unat mad"
    using assms(1-3) by (auto simp: base_pto_def unat_word_ariths(1) unat_max v QUIC_PTO_GRANULARITY_def)
  have p: "(2 :: nat) ^ min (unat n) 16 \<le> 2 ^ 16" by (intro power_increasing) auto
  have "unat srtt + max (4 * unat rttvar) 1000 + unat mad < 2 ^ 47" using assms(1-3) by auto
  then have "T < 2 ^ 47 * 2 ^ 16" using p unfolding assms(4) by (intro mult_less_le_imp_less) auto
  then have "unat (quic_pto_duration srtt rttvar mad n) = T"
    by (simp add: quic_pto_duration_def unat_word_ariths(2) b backoff_val assms(4))
  moreover have "quic_pto_backoff 0 = 1" by (simp add: quic_pto_backoff_def QUIC_PTO_BACKOFF_MAX_def)
  ultimately show ?thesis
    by (simp add: quic_lossdrive_pto_def quic_hspto_duration_def quic_rtt_pto_def quic_pto_duration_def base_pto_def
        ack_delay_term_def Let_def QUIC_PTO_GRANULARITY_def QUIC_RTT_GRANULARITY_def)
qed

theorem pto_routines_agree_witness:
  "unat (quic_pto_duration 40000 5000 25000 3) = (40000 + 20000 + 25000) * 8"
  using pto_routines_agree[of 40000 5000 25000 _ 3, OF _ _ _ refl] by simp

section \<open>The congestion window\<close>

datatype cc_event = CcAck u64 u64 | CcLoss u64 u64 | CcPersistent

fun cc_step :: "quic_cc \<Rightarrow> cc_event \<Rightarrow> quic_cc" where
  "cc_step c (CcAck acked sent_time) = quic_cc_on_ack c acked sent_time"
| "cc_step c (CcLoss sent_time now) = quic_cc_on_loss c sent_time now"
| "cc_step c CcPersistent = quic_cc_on_persistent c"

fun cc_acked :: "cc_event \<Rightarrow> nat" where
  "cc_acked (CcAck acked _) = unat acked"
| "cc_acked _ = 0"

definition cc_inv :: "nat \<Rightarrow> quic_cc \<Rightarrow> bool" where
  "cc_inv bound c \<longleftrightarrow> 2400 \<le> unat (cc_cwnd c) \<and> unat (cc_cwnd c) \<le> bound \<and> 2400 \<le> unat (cc_ssthresh c)"

lemmas cc_consts = QUIC_CC_INIT_WINDOW_def QUIC_CC_MIN_WINDOW_def QUIC_MAX_DATAGRAM_def

lemma avoid_inc_le: "2400 \<le> unat (cwnd :: u64) \<Longrightarrow> unat (1200 * acked div cwnd) \<le> unat acked"
proof -
  assume c: "2400 \<le> unat cwnd"
  have "unat (1200 * acked div cwnd) \<le> 1200 * unat acked div unat cwnd"
    by (simp add: unat_div unat_word_ariths(2) div_le_mono)
  also have "\<dots> \<le> 1200 * unat acked div 1200" using c by (intro div_le_mono2) auto
  finally show ?thesis by simp
qed

lemma grow_inv:
  assumes "cc_inv b c" "b + unat acked < 2 ^ 64" shows "cc_inv (b + unat acked) (grow c acked)"
proof -
  define inc where "inc = (if cc_cwnd c < cc_ssthresh c then acked else QUIC_MAX_DATAGRAM * acked div cc_cwnd c)"
  have "unat inc \<le> unat acked"
    using avoid_inc_le[of "cc_cwnd c" acked] assms(1) by (simp add: inc_def cc_inv_def QUIC_MAX_DATAGRAM_def)
  then show ?thesis using assms unfolding grow_def inc_def[symmetric] Let_def
    by (simp add: cc_inv_def unat_word_ariths(1))
qed

lemma cc_step_inv:
  assumes i: "cc_inv b c" and b: "b + cc_acked e < 2 ^ 64" shows "cc_inv (b + cc_acked e) (cc_step c e)"
proof (cases e)
  case (CcAck acked t)
  have "cc_inv b (maybe_exit_recovery c t)" using i by (simp add: maybe_exit_recovery_def cc_inv_def)
  then show ?thesis using grow_inv[of b "maybe_exit_recovery c t" acked] b
    by (auto simp: CcAck quic_cc_on_ack_def Let_def cc_inv_def)
next
  case (CcLoss t now)
  then show ?thesis using i by (auto simp: quic_cc_on_loss_def Let_def cc_inv_def unat_max unat_div cc_consts)
next
  case CcPersistent
  then show ?thesis using i by (auto simp: quic_cc_on_persistent_def cc_inv_def cc_consts)
qed

lemma cc_run_inv:
  "cc_inv b c \<Longrightarrow> b + sum_list (map cc_acked es) < 2 ^ 64 \<Longrightarrow>
   cc_inv (b + sum_list (map cc_acked es)) (foldl cc_step c es)"
proof (induction es arbitrary: b c)
  case (Cons e es)
  then show ?case using cc_step_inv[of b c e] Cons.IH[of "b + cc_acked e" "cc_step c e"] by (simp add: add.assoc)
qed simp

text \<open>The boundary of a recovery period: for \<^verbatim>\<open>quic_cc_in_recovery\<close> a packet sent at the time the period began is inside
  it, for \<^verbatim>\<open>quic_cc_on_loss\<close> it is not. A second loss of such a packet halves the window a second time for one period.\<close>

lemma recovery_boundary_halved_again:
  "quic_cc_in_recovery 100 100
   \<and> map (\<lambda>es. cc_cwnd (foldl cc_step quic_cc_init es))
       [[CcLoss 5 100], [CcLoss 5 100, CcAck 0 101, CcLoss 99 200], [CcLoss 5 100, CcAck 0 101, CcLoss 100 200]] = [6000, 6000, 3000]"
  by (simp add: quic_cc_in_recovery_def quic_cc_init_def quic_cc_on_loss_def quic_cc_on_ack_def maybe_exit_recovery_def grow_def
      quic_u64_max_def cc_consts Let_def)

text \<open>C26: Under every sequence of acknowledgements, losses and persistent congestion, the congestion
  window never falls below two datagrams and never exceeds the initial window by more than the bytes
  acknowledged. A loss changes nothing in a recovery period, or when the packet was sent before the last period began;
  otherwise it halves the window down to that minimum, and
  further losses, however many, leave it alone until a packet sent after the period began is
  acknowledged. A packet sent at the very time the last period began is on the halving side, although \<^verbatim>\<open>quic_cc_in_recovery\<close>
  counts it as inside that period.\<close>

theorem congestion_window_bounded:
  assumes "12000 + sum_list (map cc_acked es) < 2 ^ 64" "c = foldl cc_step quic_cc_init es"
  shows "2400 \<le> unat (cc_cwnd c) \<and> unat (cc_cwnd c) \<le> 12000 + sum_list (map cc_acked es) \<and> 2400 \<le> unat (cc_ssthresh c)
    \<and> (cc_in_recovery c \<or> (quic_cc_in_recovery sent (cc_recovery_start c) \<and> sent \<noteq> cc_recovery_start c) \<longrightarrow> quic_cc_on_loss c sent now = c)
    \<and> (\<not> cc_in_recovery c \<and> (\<not> quic_cc_in_recovery sent (cc_recovery_start c) \<or> sent = cc_recovery_start c) \<longrightarrow>
        unat (cc_cwnd (quic_cc_on_loss c sent now)) = max (unat (cc_cwnd c) div 2) 2400
        \<and> foldl cc_step (quic_cc_on_loss c sent now) (map (\<lambda>(s, n). CcLoss s n) losses) = quic_cc_on_loss c sent now
        \<and> (\<forall>acked t. t \<le> now \<longrightarrow> quic_cc_on_ack (quic_cc_on_loss c sent now) acked t = quic_cc_on_loss c sent now))"
proof -
  have "cc_inv (12000 + sum_list (map cc_acked es)) c"
    using cc_run_inv[of 12000 quic_cc_init es] assms by (simp add: cc_inv_def quic_cc_init_def cc_consts unsigned_minus_1_eq_mask mask_eq_exp_minus_1)
  moreover have "foldl cc_step d (map (\<lambda>(s, n). CcLoss s n) losses) = d" if "cc_in_recovery d" for d
    using that by (induction losses) (auto simp: quic_cc_on_loss_def)
  ultimately show ?thesis
    by (auto simp: cc_inv_def quic_cc_in_recovery_def quic_cc_on_loss_def quic_cc_on_ack_def maybe_exit_recovery_def Let_def unat_max unat_div cc_consts)
qed

theorem congestion_window_bounded_witness:
  "2400 \<le> unat (cc_cwnd (foldl cc_step quic_cc_init [CcAck 1200 5, CcLoss 7 9, CcAck 1200 8]))"
  using congestion_window_bounded[of "[CcAck 1200 5, CcLoss 7 9, CcAck 1200 8]", OF _ refl, of 0 0 "[]"] by simp

section \<open>The table of sent packets: byte accounting\<close>

datatype sent_op = SentSend u64 u64 u64 | SentAck u64 | SentDetect

fun sent_step :: "quic_sent \<Rightarrow> sent_op \<Rightarrow> quic_sent" where
  "sent_step s (SentSend pn sz t) = snd (quic_sent_on_send s pn sz t)"
| "sent_step s (SentAck pn) = snd (quic_sent_on_ack s pn)"
| "sent_step s SentDetect = snd (quic_sent_detect_loss s)"

definition flight_size :: "quic_sent_pkt \<Rightarrow> u64" where
  "flight_size p = (if sp_used p \<and> sp_state p = QUIC_PKT_INFLIGHT then sp_size p else 0)"

definition used_slots :: "quic_sent \<Rightarrow> nat" where
  "used_slots s = length (filter sp_used (sn_pkts s))"

fun send_count :: "sent_op \<Rightarrow> nat" where
  "send_count (SentSend _ _ _) = 1"
| "send_count _ = 0"

fun acks_of :: "sent_op \<Rightarrow> u64 list" where
  "acks_of (SentAck pn) = [pn]"
| "acks_of _ = []"

definition sent_inv :: "nat \<Rightarrow> u64 set \<Rightarrow> quic_sent \<Rightarrow> bool" where
  "sent_inv sends A s \<longleftrightarrow> length (sn_pkts s) = QUIC_SENT_CAP
     \<and> sn_bytes_in_flight s = sum_list (map flight_size (sn_pkts s))
     \<and> used_slots s = min QUIC_SENT_CAP sends
     \<and> finite A \<and> sn_have_acked s = (A \<noteq> {}) \<and> (A \<noteq> {} \<longrightarrow> sn_largest_acked s = Max A)"

lemma sum_list_map_update:
  fixes f :: "'a \<Rightarrow> 'b :: ab_group_add"
  shows "i < length xs \<Longrightarrow> sum_list (map f (xs[i := x])) = sum_list (map f xs) + f x - f (xs ! i)"
proof (induction xs arbitrary: i)
  case (Cons a xs) then show ?case by (cases i) (auto simp: algebra_simps)
qed simp

lemma length_filter_update:
  "i < length xs \<Longrightarrow> length (filter P (xs[i := x])) + (if P (xs ! i) then 1 else 0) =
     length (filter P xs) + (if P x then 1 else 0)"
proof (induction xs arbitrary: i)
  case (Cons a xs) then show ?case by (cases i) (fastforce split: if_splits)+
qed simp

lemma sent_free_slot:
  assumes "length (sn_pkts s) = QUIC_SENT_CAP"
  shows "free_slot s = QUIC_SENT_CAP \<longleftrightarrow> used_slots s = QUIC_SENT_CAP"
    and "free_slot s \<noteq> QUIC_SENT_CAP \<Longrightarrow> free_slot s < QUIC_SENT_CAP \<and> \<not> sp_used (sn_pkts s ! free_slot s)"
proof -
  have "free_slot s = QUIC_SENT_CAP \<longleftrightarrow> (\<forall>p \<in> set (sn_pkts s). sp_used p)"
    unfolding free_slot_def find_idx_full using assms by (simp add: all_set_conv_all_nth)
  also have "\<dots> \<longleftrightarrow> used_slots s = length (sn_pkts s)"
    unfolding used_slots_def by (metis filter_True length_filter_less less_irrefl)
  finally show "free_slot s = QUIC_SENT_CAP \<longleftrightarrow> used_slots s = QUIC_SENT_CAP" using assms by simp
  assume "free_slot s \<noteq> QUIC_SENT_CAP"
  then have "free_slot s < QUIC_SENT_CAP"
    using find_idx_bounds[of 0 _ QUIC_SENT_CAP] unfolding free_slot_def by (simp add: le_neq_implies_less)
  then show "free_slot s < QUIC_SENT_CAP \<and> \<not> sp_used (sn_pkts s ! free_slot s)"
    using find_idx_stop[of _ 0 QUIC_SENT_CAP] unfolding free_slot_def by fastforce
qed

lemma on_send_inv:
  assumes i: "sent_inv k A s" shows "sent_inv (Suc k) A (snd (quic_sent_on_send s pn sz t))"
proof (cases "free_slot s = QUIC_SENT_CAP")
  case True
  then have "used_slots s = QUIC_SENT_CAP" using sent_free_slot(1) i by (simp add: sent_inv_def)
  then show ?thesis using True i by (auto simp: quic_sent_on_send_def sent_inv_def)
next
  case False
  note f = sent_free_slot[of s]
  have l: "length (sn_pkts s) = QUIC_SENT_CAP" using i by (simp add: sent_inv_def)
  have "used_slots s < QUIC_SENT_CAP" using f(1)[OF l] False i by (auto simp: sent_inv_def)
  then show ?thesis
    using f(2)[OF l False] False i l length_filter_update[of "free_slot s" "sn_pkts s" sp_used]
    by (auto simp: quic_sent_on_send_def Let_def sent_inv_def used_slots_def sum_list_map_update flight_size_def)
qed

lemma sent_leave_inv:
  assumes "sent_inv k A s" "j < QUIC_SENT_CAP" "sp_used (sn_pkts s ! j)" "sp_state (sn_pkts s ! j) = QUIC_PKT_INFLIGHT"
    and "st \<noteq> QUIC_PKT_INFLIGHT"
  shows "sent_inv k A (s\<lparr>sn_bytes_in_flight := sn_bytes_in_flight s - sp_size (sn_pkts s ! j),
      sn_pkts := (sn_pkts s)[j := (sn_pkts s ! j)\<lparr>sp_state := st\<rparr>]\<rparr>)"
  using assms length_filter_update[of j "sn_pkts s" sp_used "(sn_pkts s ! j)\<lparr>sp_state := st\<rparr>"]
  by (simp add: sent_inv_def used_slots_def sum_list_map_update flight_size_def)

lemma note_acked_inv: "sent_inv k A s \<Longrightarrow> sent_inv k (insert pn A) (note_acked s pn)"
proof (cases "A = {}")
  case False
  have "finite A" by simp
  then have "Max (insert pn A) = (if pn > Max A then pn else Max A)" using False by (auto simp add: max_def not_le simp del: Max_less_iff)
  then show "sent_inv k A s \<Longrightarrow> ?thesis" using False
    by (simp only: note_acked_def sent_inv_def used_slots_def Let_def) (simp del: Max_less_iff)
qed (simp add: note_acked_def sent_inv_def used_slots_def Let_def)

lemma on_ack_inv:
  assumes i: "sent_inv k A s" shows "sent_inv k (insert pn A) (snd (quic_sent_on_ack s pn))"
proof -
  note n = note_acked_inv[OF i, of pn]
  have p: "sn_pkts (note_acked s pn) = sn_pkts s" by (simp add: note_acked_def Let_def)
  have "find_pn s pn < QUIC_SENT_CAP \<and> sp_used (sn_pkts s ! find_pn s pn)" if "find_pn s pn \<noteq> QUIC_SENT_CAP"
    using find_idx_bounds[of 0 "\<lambda>i. slot_has_pn s i pn" QUIC_SENT_CAP] find_idx_stop[of "\<lambda>i. slot_has_pn s i pn" 0 QUIC_SENT_CAP] that
    unfolding find_pn_def by (auto simp: slot_has_pn_def)
  then show ?thesis
    using n sent_leave_inv[OF n, of "find_pn s pn" QUIC_PKT_ACKED]
    by (auto simp: quic_sent_on_ack_def Let_def p)
qed

text \<open>The sweep visits the slots in order; \<open>swept\<close> is what it does to one slot.\<close>

definition lost_pkt :: "u64 \<Rightarrow> quic_sent_pkt \<Rightarrow> bool" where
  "lost_pkt la p \<longleftrightarrow> sp_used p \<and> sp_state p = QUIC_PKT_INFLIGHT \<and> la \<ge> sp_pn p + 3"

definition swept :: "u64 \<Rightarrow> quic_sent_pkt \<Rightarrow> quic_sent_pkt" where
  "swept la p = (if lost_pkt la p then p\<lparr>sp_state := QUIC_PKT_LOST\<rparr> else p)"

definition sweep_upto :: "nat \<Rightarrow> quic_sent \<Rightarrow> usz \<times> quic_sent" where
  "sweep_upto j s = fold (\<lambda>i (lost, s). if is_lost s i then (lost + 1, lose_one s i) else (lost, s)) [0..<j] (0, s)"

lemma sweep_upto_Suc:
  "sweep_upto (Suc j) s = (case sweep_upto j s of (lost, s) \<Rightarrow> if is_lost s j then (lost + 1, lose_one s j) else (lost, s))"
  by (simp add: sweep_upto_def)

lemma sweep_upto_eq:
  assumes "sent_inv k A s" "j \<le> QUIC_SENT_CAP" "sweep_upto j s = (lost, s')"
  shows "sent_inv k A s' \<and> sn_pkts s' = map (swept (sn_largest_acked s)) (take j (sn_pkts s)) @ drop j (sn_pkts s)
    \<and> sn_largest_acked s' = sn_largest_acked s \<and> sn_have_acked s' = sn_have_acked s
    \<and> lost = length (filter (lost_pkt (sn_largest_acked s)) (take j (sn_pkts s)))"
  using assms(2,3)
proof (induction j arbitrary: lost s')
  case 0 then show ?case using assms(1) by (simp add: sweep_upto_def)
next
  case (Suc j)
  obtain l t where e: "sweep_upto j s = (l, t)" by fastforce
  note IH = Suc.IH[OF _ e]
  have len: "length (sn_pkts s) = QUIC_SENT_CAP" using assms(1) by (simp add: sent_inv_def)
  have j: "j < length (sn_pkts s)" using Suc.prems len by simp
  have tj: "sn_pkts t ! j = sn_pkts s ! j" using IH Suc.prems(1) j by (simp add: nth_append)
  have lj: "is_lost t j = lost_pkt (sn_largest_acked s) (sn_pkts s ! j)"
    unfolding is_lost_def lost_pkt_def tj QUIC_PACKET_THRESHOLD_def using IH Suc.prems(1) by simp
  have tk: "take (Suc j) (sn_pkts s) = take j (sn_pkts s) @ [sn_pkts s ! j]"
    "drop j (sn_pkts s) = sn_pkts s ! j # drop (Suc j) (sn_pkts s)"
    using j by (simp_all add: take_Suc_conv_app_nth Cons_nth_drop_Suc)
  have up: "(sn_pkts t)[j := x] = map (swept (sn_largest_acked s)) (take j (sn_pkts s)) @ x # drop (Suc j) (sn_pkts s)" for x
    using IH Suc.prems(1) j by (simp add: tk(2) list_update_append)
  show ?case
  proof (cases "is_lost t j")
    case False
    then show ?thesis using IH Suc.prems lj by (simp add: sweep_upto_Suc e tk swept_def)
  next
    case True
    have inv: "sent_inv k A (lose_one t j)" unfolding lose_one_def
      using sent_leave_inv[of k A t j QUIC_PKT_LOST] IH Suc.prems(1) True by (simp add: is_lost_def)
    have s': "s' = lose_one t j" "lost = l + 1" using Suc.prems(2) True by (simp_all add: sweep_upto_Suc e)
    have "sn_pkts (lose_one t j) = map (swept (sn_largest_acked s)) (take (Suc j) (sn_pkts s)) @ drop (Suc j) (sn_pkts s)"
      using lj True by (simp add: lose_one_def up tj tk(1) swept_def)
    moreover have "sn_largest_acked (lose_one t j) = sn_largest_acked t" "sn_have_acked (lose_one t j) = sn_have_acked t"
      by (simp_all add: lose_one_def)
    ultimately show ?thesis using IH Suc.prems(1) True lj inv by (simp add: s' tk(1))
  qed
qed

lemma detect_loss_eq:
  assumes "sent_inv k A s" "quic_sent_detect_loss s = (lost, s')" "A \<noteq> {}"
  shows "sent_inv k A s' \<and> sn_pkts s' = map (swept (Max A)) (sn_pkts s) \<and> lost = length (filter (lost_pkt (Max A)) (sn_pkts s))"
proof -
  have "sweep_upto QUIC_SENT_CAP s = (lost, s')" "length (sn_pkts s) = QUIC_SENT_CAP" "sn_largest_acked s = Max A"
    using assms by (simp_all add: quic_sent_detect_loss_def sent_inv_def sweep_losses_def sweep_upto_def)
  then show ?thesis using sweep_upto_eq[OF assms(1) order_refl, of lost s'] by simp
qed

lemma sent_step_inv:
  "sent_inv k A s \<Longrightarrow> sent_inv (k + send_count e) (A \<union> set (acks_of e)) (sent_step s e)"
proof (cases e)
  case SentDetect
  assume i: "sent_inv k A s"
  obtain l t where d: "quic_sent_detect_loss s = (l, t)" by fastforce
  show ?thesis
  proof (cases "A = {}")
    case True then show ?thesis using i by (simp add: SentDetect quic_sent_detect_loss_def sent_inv_def)
  next
    case False then show ?thesis using detect_loss_eq[OF i d] by (simp add: SentDetect d)
  qed
qed (simp_all add: on_send_inv on_ack_inv)

lemma sent_run_inv:
  "sent_inv k A s \<Longrightarrow>
   sent_inv (k + sum_list (map send_count es)) (A \<union> set (concat (map acks_of es))) (foldl sent_step s es)"
proof (induction es arbitrary: k A s)
  case (Cons e es) then show ?case using Cons.IH[OF sent_step_inv] by (simp add: Un_assoc add.assoc)
qed simp

lemma sent_init_inv: "length (sn_pkts s) = QUIC_SENT_CAP \<Longrightarrow> sent_inv 0 {} (quic_sent_init s)"
  by (simp add: sent_inv_def quic_sent_init_def used_slots_def filter_map comp_def flight_size_def)

text \<open>C25: Under every sequence of sends, acknowledgements and loss sweeps, \<open>bytes_in_flight\<close> is exactly the
  sum of the sizes of the packets in flight, and \<open>largest_acked\<close> the greatest packet number
  acknowledged. A loss sweep then turns exactly the packets in flight that are three or more below it
  into lost ones and returns their number. No operation frees a slot: after 256 sends every
  further send is refused, although acknowledged packets fill the table.\<close>

theorem sent_table_accounting:
  assumes "length (sn_pkts s0) = QUIC_SENT_CAP" "s = foldl sent_step (quic_sent_init s0) es"
    and "A = set (concat (map acks_of es))" "quic_sent_detect_loss s = (lost, s')"
  shows "sn_bytes_in_flight s = (\<Sum>p\<leftarrow>sn_pkts s. if sp_used p \<and> sp_state p = QUIC_PKT_INFLIGHT then sp_size p else 0)
    \<and> (A \<noteq> {} \<longrightarrow> sn_largest_acked s = Max A
        \<and> sn_pkts s' = map (swept (Max A)) (sn_pkts s) \<and> lost = length (filter (lost_pkt (Max A)) (sn_pkts s)))
    \<and> (fst (quic_sent_on_send s pn sz t) \<longleftrightarrow> sum_list (map send_count es) < 256)"
proof -
  have i: "sent_inv (sum_list (map send_count es)) A s"
    using sent_run_inv[OF sent_init_inv[OF assms(1)], of es] assms(2,3) by simp
  have "fst (quic_sent_on_send s pn sz t) \<longleftrightarrow> used_slots s \<noteq> QUIC_SENT_CAP"
  proof -
    have "free_slot s = QUIC_SENT_CAP \<longleftrightarrow> used_slots s = QUIC_SENT_CAP" using sent_free_slot(1) i by (simp add: sent_inv_def)
    then show ?thesis by (simp add: quic_sent_on_send_def Let_def)
  qed
  moreover have "used_slots s = min 256 (sum_list (map send_count es))" using i by (simp add: sent_inv_def QUIC_SENT_CAP_def)
  ultimately have f: "fst (quic_sent_on_send s pn sz t) \<longleftrightarrow> sum_list (map send_count es) < 256"
    by (auto simp: QUIC_SENT_CAP_def)
  have "sn_bytes_in_flight s = sum_list (map flight_size (sn_pkts s))" using i by (simp add: sent_inv_def)
  moreover have "flight_size = (\<lambda>p. if sp_used p \<and> sp_state p = QUIC_PKT_INFLIGHT then sp_size p else 0)"
    by (rule ext) (simp add: flight_size_def)
  ultimately show ?thesis using f detect_loss_eq[OF i assms(4)] i by (auto simp: sent_inv_def)
qed

theorem sent_table_accounting_witness:
  "fst (quic_sent_on_send (foldl sent_step
     (quic_sent_init \<lparr>sn_pkts = replicate 256 \<lparr>sp_pn = 0, sp_size = 0, sp_time_sent = 0, sp_state = QUIC_PKT_INFLIGHT,
        sp_used = False\<rparr>, sn_bytes_in_flight = 0, sn_largest_acked = 0, sn_have_acked = False\<rparr>)
     [SentSend 0 1200 5, SentAck 0]) 1 1200 9)"
  using sent_table_accounting[OF _ refl refl prod.collapse[symmetric], of "\<lparr>sn_pkts = replicate 256 \<lparr>sp_pn = 0,
      sp_size = 0, sp_time_sent = 0, sp_state = QUIC_PKT_INFLIGHT, sp_used = False\<rparr>, sn_bytes_in_flight = 0,
      sn_largest_acked = 0, sn_have_acked = False\<rparr>" "[SentSend 0 1200 5, SentAck 0]" 1 1200 9]
  by (simp add: QUIC_SENT_CAP_def)

section \<open>Sent-packet metadata: refinement of a multiset\<close>

datatype meta_op = MetaSent u64 u64 bool bool usz | MetaAck u64 | MetaDetect u64 u64 u64
datatype meta_out = SentOk bool | AckInfo "(u64 \<times> bool) option" | LostPns "u64 list"

fun meta_step :: "meta_op \<Rightarrow> quic_sentmeta \<Rightarrow> meta_out \<times> quic_sentmeta" where
  "meta_step (MetaSent pn t ae infl n) m = map_prod SentOk (\<lambda>m. m) (quic_sentmeta_on_sent m pn t ae infl n)"
| "meta_step (MetaAck pn) m = map_prod AckInfo (\<lambda>m. m) (quic_sentmeta_on_ack m pn)"
| "meta_step (MetaDetect la now ld) m = map_prod LostPns (\<lambda>m. m) (quic_sentmeta_detect_loss m la now ld)"

fun meta_run :: "meta_op list \<Rightarrow> quic_sentmeta \<Rightarrow> meta_out list \<times> quic_sentmeta" where
  "meta_run [] m = ([], m)"
| "meta_run (e # es) m = (case meta_step e m of (out, m) \<Rightarrow> case meta_run es m of (outs, m) \<Rightarrow> (out # outs, m))"

definition meta_lost :: "u64 \<Rightarrow> u64 \<Rightarrow> u64 \<Rightarrow> quic_sentmeta_pkt \<Rightarrow> bool" where
  "meta_lost la now ld p \<longleftrightarrow> sm_pn p + 3 \<le> la \<or> sm_time_sent p + ld \<le> now"

text \<open>The specification: a bag of outstanding packets, of at most 256.\<close>

inductive meta_spec :: "quic_sentmeta_pkt multiset \<Rightarrow> meta_op \<Rightarrow> meta_out \<Rightarrow> quic_sentmeta_pkt multiset \<Rightarrow> bool" where
  sent_ok: "size M < 256 \<Longrightarrow> meta_spec M (MetaSent pn t ae infl n) (SentOk True)
     (add_mset \<lparr>sm_pn = pn, sm_time_sent = t, sm_sent_bytes = n, sm_ack_eliciting = ae, sm_in_flight = infl, sm_used = True\<rparr> M)"
| sent_full: "size M = 256 \<Longrightarrow> meta_spec M (MetaSent pn t ae infl n) (SentOk False) M"
| ack_hit: "p \<in># M \<Longrightarrow> meta_spec M (MetaAck (sm_pn p)) (AckInfo (Some (sm_time_sent p, sm_ack_eliciting p))) (M - {#p#})"
| ack_miss: "\<forall>p \<in># M. sm_pn p \<noteq> pn \<Longrightarrow> meta_spec M (MetaAck pn) (AckInfo None) M"
| detect: "mset lost = image_mset sm_pn (filter_mset (meta_lost la now ld) M) \<Longrightarrow>
     meta_spec M (MetaDetect la now ld) (LostPns lost) (filter_mset (\<lambda>p. \<not> meta_lost la now ld p) M)"

inductive meta_trace :: "quic_sentmeta_pkt multiset \<Rightarrow> meta_op list \<Rightarrow> meta_out list \<Rightarrow> quic_sentmeta_pkt multiset \<Rightarrow> bool" where
  trace_nil: "meta_trace M [] [] M"
| trace_step: "meta_spec M e out M' \<Longrightarrow> meta_trace M' es outs M'' \<Longrightarrow> meta_trace M (e # es) (out # outs) M''"

definition meta_abs :: "quic_sentmeta \<Rightarrow> quic_sentmeta_pkt multiset" where
  "meta_abs m = filter_mset sm_used (mset (sm_pkts m))"

definition meta_bytes :: "quic_sentmeta_pkt multiset \<Rightarrow> nat" where
  "meta_bytes M = (\<Sum>p \<in># M. if sm_in_flight p then sm_sent_bytes p else 0)"

definition meta_inv :: "quic_sentmeta \<Rightarrow> bool" where
  "meta_inv m \<longleftrightarrow> length (sm_pkts m) = QUIC_SENTMETA_CAP \<and> sm_count m = size (meta_abs m)
     \<and> sm_total_in_flight m = meta_bytes (meta_abs m) mod 2 ^ 64"

lemma usz_sub_mod: "b \<le> a \<Longrightarrow> usz_sub (a mod 2 ^ 64) b = (a - b) mod 2 ^ 64"
proof -
  assume "b \<le> a"
  have "(a mod 2 ^ 64 + (2 ^ 64 - b mod 2 ^ 64)) mod 2 ^ 64 = (a + (2 ^ 64 - b mod 2 ^ 64)) mod 2 ^ 64"
    by (rule mod_add_left_eq)
  also have "a + (2 ^ 64 - b mod 2 ^ 64) = (a - b) + (b div 2 ^ 64 + 1) * 2 ^ 64"
  proof -
    have "b = b div 2 ^ 64 * 2 ^ 64 + b mod 2 ^ 64" "b mod 2 ^ 64 < 2 ^ 64" by (simp_all add: div_mult_mod_eq)
    then show ?thesis using \<open>b \<le> a\<close> by (simp only: distrib_right)
  qed
  also have "\<dots> mod 2 ^ 64 = (a - b) mod 2 ^ 64" by (rule mod_mult_self1)
  finally show ?thesis unfolding usz_sub_def .
qed

lemma size_abs_le: "length (sm_pkts m) = QUIC_SENTMETA_CAP \<Longrightarrow> size (meta_abs m) \<le> 256"
  unfolding meta_abs_def mset_filter[symmetric] size_mset by (metis QUIC_SENTMETA_CAP_def length_filter_le)

lemma abs_update:
  "i < length (sm_pkts m) \<Longrightarrow>
   filter_mset sm_used (mset ((sm_pkts m)[i := x])) =
     (if sm_used x then add_mset x else (\<lambda>M. M)) (meta_abs m - (if sm_used (sm_pkts m ! i) then {#sm_pkts m ! i#} else {#}))"
  by (auto simp: mset_update meta_abs_def)

lemma reclaim_abs:
  assumes inv: "meta_inv m" and i: "i < QUIC_SENTMETA_CAP" "sm_used (sm_pkts m ! i)"
  shows "meta_inv (quic_sentmeta_reclaim m i) \<and> meta_abs (quic_sentmeta_reclaim m i) = meta_abs m - {#sm_pkts m ! i#}
    \<and> sm_pkts (quic_sentmeta_reclaim m i) = (sm_pkts m)[i := (sm_pkts m ! i)\<lparr>sm_used := False\<rparr>]"
proof -
  let ?p = "sm_pkts m ! i" and ?m = "quic_sentmeta_reclaim m i"
  have len: "i < length (sm_pkts m)" using inv i by (simp add: meta_inv_def)
  have pk: "sm_pkts ?m = (sm_pkts m)[i := ?p\<lparr>sm_used := False\<rparr>]"
    by (simp add: quic_sentmeta_reclaim_def Let_def)
  have ab: "meta_abs ?m = meta_abs m - {#?p#}" unfolding meta_abs_def[of ?m] pk using abs_update[OF len] i by simp
  have mem: "?p \<in># meta_abs m" using len i by (simp add: meta_abs_def)
  then obtain N where N: "meta_abs m = add_mset ?p N" by (metis insert_DiffM)
  have abN: "meta_abs ?m = N" using ab N by simp
  have len': "length (sm_pkts m) = QUIC_SENTMETA_CAP" using inv by (simp add: meta_inv_def)
  have "sm_count ?m = usz_sub (sm_count m) 1" by (simp add: quic_sentmeta_reclaim_def Let_def)
  then have "sm_count ?m = size (meta_abs ?m)"
    using inv size_abs_le[OF len'] by (simp add: abN meta_inv_def N)
  moreover have "sm_total_in_flight ?m = meta_bytes (meta_abs ?m) mod 2 ^ 64"
  proof -
    have "sm_total_in_flight ?m = (if sm_in_flight ?p then usz_sub (sm_total_in_flight m) (sm_sent_bytes ?p)
        else sm_total_in_flight m)" by (simp add: quic_sentmeta_reclaim_def Let_def)
    moreover have "meta_bytes (meta_abs m) = (if sm_in_flight ?p then sm_sent_bytes ?p else 0) + meta_bytes N"
      by (simp add: N meta_bytes_def)
    ultimately show ?thesis using inv usz_sub_mod[of "sm_sent_bytes ?p" "sm_sent_bytes ?p + meta_bytes N"]
      by (simp add: meta_inv_def abN)
  qed
  ultimately show ?thesis using inv ab pk by (simp add: meta_inv_def)
qed

lemma on_sent_refines:
  assumes inv: "meta_inv m" and st: "quic_sentmeta_on_sent m pn t ae infl n = (ok, m')"
  shows "meta_spec (meta_abs m) (MetaSent pn t ae infl n) (SentOk ok) (meta_abs m') \<and> meta_inv m'"
proof -
  let ?i = "sentmeta_free_slot m" and ?p = "sentmeta_store pn t ae infl n"
  have len: "length (sm_pkts m) = QUIC_SENTMETA_CAP" using inv by (simp add: meta_inv_def)
  have full: "?i = QUIC_SENTMETA_CAP \<longleftrightarrow> size (meta_abs m) = 256"
  proof -
    have "?i = QUIC_SENTMETA_CAP \<longleftrightarrow> (\<forall>p \<in> set (sm_pkts m). sm_used p)"
      unfolding sentmeta_free_slot_def find_idx_full using len by (simp add: all_set_conv_all_nth)
    also have "\<dots> \<longleftrightarrow> length (filter sm_used (sm_pkts m)) = length (sm_pkts m)"
      by (metis filter_True length_filter_less less_irrefl)
    finally show ?thesis unfolding meta_abs_def mset_filter[symmetric] size_mset using len by (simp add: QUIC_SENTMETA_CAP_def)
  qed
  show ?thesis
  proof (cases "?i = QUIC_SENTMETA_CAP")
    case True
    then show ?thesis using st inv full by (auto simp: quic_sentmeta_on_sent_def intro: meta_spec.intros)
  next
    case False
    have i: "?i < length (sm_pkts m) \<and> \<not> sm_used (sm_pkts m ! ?i)"
      using False len find_idx_bounds[of 0 "\<lambda>i. \<not> sm_used (sm_pkts m ! i)" QUIC_SENTMETA_CAP]
        find_idx_stop[of "\<lambda>i. \<not> sm_used (sm_pkts m ! i)" 0 QUIC_SENTMETA_CAP]
      unfolding sentmeta_free_slot_def by simp
    have u: "sm_used ?p" "sm_in_flight ?p = infl" "sm_sent_bytes ?p = n" by (simp_all add: sentmeta_store_def)
    have m': "ok" "sm_pkts m' = (sm_pkts m)[?i := ?p]" "sm_count m' = usz_add (sm_count m) 1"
      "sm_total_in_flight m' = (if infl then usz_add (sm_total_in_flight m) n else sm_total_in_flight m)"
      using st False by (auto simp: quic_sentmeta_on_sent_def Let_def)
    have ab: "meta_abs m' = add_mset ?p (meta_abs m)"
      unfolding meta_abs_def[of m'] m'(2) using abs_update[of ?i m ?p] i u by simp
    have lt: "size (meta_abs m) < 256" using size_abs_le[OF len] full False by simp
    have "meta_bytes (meta_abs m') = (if infl then n else 0) + meta_bytes (meta_abs m)" by (simp add: ab meta_bytes_def sentmeta_store_def)
    then have "sm_total_in_flight m' = meta_bytes (meta_abs m') mod 2 ^ 64"
      using inv unfolding m'(4) by (simp add: meta_inv_def usz_add_def mod_simps add.commute)
    moreover have "sm_count m' = size (meta_abs m')" using inv lt by (simp add: m'(3) meta_inv_def ab)
    ultimately have "meta_inv m'" using m'(2) len by (simp add: meta_inv_def)
    then show ?thesis using meta_spec.sent_ok[OF lt] m'(1) by (simp add: ab sentmeta_store_def)
  qed
qed

lemma on_ack_refines:
  assumes inv: "meta_inv m" and st: "quic_sentmeta_on_ack m pn = (r, m')"
  shows "meta_spec (meta_abs m) (MetaAck pn) (AckInfo r) (meta_abs m') \<and> meta_inv m'"
proof -
  let ?i = "quic_sentmeta_find m pn"
  have len: "length (sm_pkts m) = QUIC_SENTMETA_CAP" using inv by (simp add: meta_inv_def)
  show ?thesis
  proof (cases "?i = QUIC_SENTMETA_CAP")
    case True
    then have "\<forall>p \<in> set (sm_pkts m). \<not> sentmeta_holds p pn"
      unfolding quic_sentmeta_find_def find_idx_full using len by (simp add: all_set_conv_all_nth)
    then have "\<forall>p \<in># meta_abs m. sm_pn p \<noteq> pn" by (auto simp: meta_abs_def sentmeta_holds_def)
    then show ?thesis using st True inv by (auto simp: quic_sentmeta_on_ack_def intro: meta_spec.intros)
  next
    case False
    have i: "?i < QUIC_SENTMETA_CAP" "sm_used (sm_pkts m ! ?i)" "sm_pn (sm_pkts m ! ?i) = pn"
      using False find_idx_bounds[of 0 "\<lambda>i. sentmeta_holds (sm_pkts m ! i) pn" QUIC_SENTMETA_CAP]
        find_idx_stop[of "\<lambda>i. sentmeta_holds (sm_pkts m ! i) pn" 0 QUIC_SENTMETA_CAP]
      unfolding quic_sentmeta_find_def by (auto simp: sentmeta_holds_def)
    have "sm_pkts m ! ?i \<in># meta_abs m" using i len by (simp add: meta_abs_def)
    from meta_spec.ack_hit[OF this] show ?thesis
      using st False reclaim_abs[OF inv i(1,2)] i(3) by (auto simp: quic_sentmeta_on_ack_def Let_def)
  qed
qed

definition meta_upto :: "nat \<Rightarrow> u64 \<Rightarrow> u64 \<Rightarrow> u64 \<Rightarrow> quic_sentmeta \<Rightarrow> u64 list \<times> quic_sentmeta" where
  "meta_upto j la now ld m =
     fold (\<lambda>i (lost, m). if \<not> sentmeta_lost_slot m i la now ld then (lost, m)
                         else (lost @ [sm_pn (sm_pkts m ! i)], quic_sentmeta_reclaim m i)) [0..<j] ([], m)"

lemma meta_upto_Suc:
  "meta_upto (Suc j) la now ld m = (case meta_upto j la now ld m of (lost, m) \<Rightarrow>
     if \<not> sentmeta_lost_slot m j la now ld then (lost, m)
     else (lost @ [sm_pn (sm_pkts m ! j)], quic_sentmeta_reclaim m j))"
  by (simp add: meta_upto_def)

lemma filter_take_Suc:
  "j < length xs \<Longrightarrow> filter P (take (Suc j) xs) = filter P (take j xs) @ (if P (xs ! j) then [xs ! j] else [])"
  by (simp add: take_Suc_conv_app_nth)

lemma meta_upto_eq:
  fixes m defines "lostp \<equiv> \<lambda>la now ld p. sm_used p \<and> meta_lost la now ld p"
  assumes "meta_inv m" "j \<le> QUIC_SENTMETA_CAP" "meta_upto j la now ld m = (lost, m')"
  shows "meta_inv m' \<and> lost = map sm_pn (filter (lostp la now ld) (take j (sm_pkts m)))
    \<and> meta_abs m' + mset (filter (lostp la now ld) (take j (sm_pkts m))) = meta_abs m
    \<and> drop j (sm_pkts m') = drop j (sm_pkts m)"
  using assms(3,4)
proof (induction j arbitrary: lost m')
  case 0 then show ?case using assms(2) by (simp add: meta_upto_def)
next
  case (Suc j)
  obtain l t where e: "meta_upto j la now ld m = (l, t)" by fastforce
  have j: "j < QUIC_SENTMETA_CAP" using Suc.prems(1) by simp
  have IH: "meta_inv t" "l = map sm_pn (filter (lostp la now ld) (take j (sm_pkts m)))"
    "meta_abs t + mset (filter (lostp la now ld) (take j (sm_pkts m))) = meta_abs m"
    "drop j (sm_pkts t) = drop j (sm_pkts m)"
    using Suc.IH[OF less_imp_le[OF j] e] by blast+
  have len: "length (sm_pkts m) = QUIC_SENTMETA_CAP" "length (sm_pkts t) = QUIC_SENTMETA_CAP"
    using assms(2) IH(1) by (simp_all add: meta_inv_def)
  have nth: "sm_pkts t ! j = sm_pkts m ! j"
    using IH(4) j len by (metis Cons_nth_drop_Suc list.inject)
  have dr: "drop (Suc j) (sm_pkts t) = drop (Suc j) (sm_pkts m)"
    using IH(4) j len by (metis Cons_nth_drop_Suc list.inject)
  have lj: "sentmeta_lost_slot t j la now ld = lostp la now ld (sm_pkts m ! j)"
    by (simp add: sentmeta_lost_slot_def sentmeta_is_lost_def sentmeta_by_packet_def sentmeta_by_time_def lostp_def meta_lost_def
        QUIC_SENTMETA_PACKET_THRESHOLD_def nth)
  show ?case
  proof (cases "lostp la now ld (sm_pkts m ! j)")
    case False
    then have "lost = l" "m' = t" using Suc.prems(2) lj by (simp_all add: meta_upto_Suc e)
    then show ?thesis using IH dr False j len by (simp add: filter_take_Suc)
  next
    case True
    then have eq: "lost = l @ [sm_pn (sm_pkts m ! j)]" "m' = quic_sentmeta_reclaim t j"
      using Suc.prems(2) lj by (simp_all add: meta_upto_Suc e nth)
    have u: "sm_used (sm_pkts t ! j)" using True by (simp add: lostp_def nth)
    note r = reclaim_abs[OF IH(1) j u]
    have "sm_pkts m ! j \<in># meta_abs t" using u j len nth[symmetric] by (simp add: meta_abs_def)
    then have "meta_abs m' + {#sm_pkts m ! j#} = meta_abs t" using r by (simp add: eq nth)
    then have "meta_abs m' + mset (filter (lostp la now ld) (take (Suc j) (sm_pkts m))) = meta_abs m"
      using True j len unfolding IH(3)[symmetric] by (simp add: filter_take_Suc flip: union_mset_add_mset_left)
    then show ?thesis using r dr IH(2) True j len by (simp add: eq(1) eq(2) filter_take_Suc)
  qed
qed

lemma detect_refines:
  assumes "meta_inv m" "quic_sentmeta_detect_loss m la now ld = (lost, m')"
  shows "meta_spec (meta_abs m) (MetaDetect la now ld) (LostPns lost) (meta_abs m') \<and> meta_inv m'"
proof -
  let ?L = "filter (\<lambda>p. sm_used p \<and> meta_lost la now ld p) (sm_pkts m)"
  have "length (sm_pkts m) = QUIC_SENTMETA_CAP" using assms(1) by (simp add: meta_inv_def)
  then have e: "meta_inv m'" "lost = map sm_pn ?L" "meta_abs m' + mset ?L = meta_abs m"
    using meta_upto_eq[OF assms(1) order_refl, of la now ld lost m'] assms(2)
    by (simp_all add: quic_sentmeta_detect_loss_def meta_upto_def)
  have L: "mset ?L = filter_mset (meta_lost la now ld) (meta_abs m)"
    by (simp add: meta_abs_def filter_filter_mset conj_commute)
  have "meta_abs m' + mset ?L = filter_mset (\<lambda>p. \<not> meta_lost la now ld p) (meta_abs m) + mset ?L"
    using e(3) multiset_partition[of "meta_abs m" "meta_lost la now ld"] unfolding L by (metis add.commute)
  then have "meta_abs m' = filter_mset (\<lambda>p. \<not> meta_lost la now ld p) (meta_abs m)" by (rule add_right_imp_eq)
  then show ?thesis using e(1,2) L by (auto intro!: meta_spec.detect)
qed

lemma meta_step_refines:
  "meta_inv m \<Longrightarrow> meta_step e m = (out, m') \<Longrightarrow> meta_spec (meta_abs m) e out (meta_abs m') \<and> meta_inv m'"
  by (cases e) (auto simp: map_prod_def split: prod.splits dest: on_sent_refines on_ack_refines detect_refines)

lemma meta_run_refines:
  "meta_inv m \<Longrightarrow> meta_run es m = (outs, m') \<Longrightarrow> meta_trace (meta_abs m) es outs (meta_abs m') \<and> meta_inv m'"
proof (induction es arbitrary: m outs)
  case (Cons e es)
  obtain out t where s: "meta_step e m = (out, t)" by fastforce
  obtain os where r: "meta_run es t = (os, m')" "outs = out # os" using Cons.prems(2) s by (auto split: prod.splits)
  show ?case using meta_step_refines[OF Cons.prems(1) s] Cons.IH[OF _ r(1)] r(2) by (auto intro: meta_trace.intros)
qed (simp add: meta_trace.intros)

text \<open>C24: The metadata ring implements a bag of outstanding packets of at most 256: from an initialised
  ring, every sequence of sends, acknowledgements and loss sweeps answers as the bag does. A send is
  refused only when 256 packets are outstanding, an acknowledgement removes one packet of that number and
  returns its send time, a sweep removes and reports exactly the packets past a threshold. The
  counters stay equal to the number of packets and to the bytes in flight (modulo \<open>2 ^ 64\<close>).\<close>

theorem sentmeta_refines_bag:
  assumes "length (sm_pkts m0) = QUIC_SENTMETA_CAP" "meta_run es (quic_sentmeta_init m0) = (outs, m)"
  shows "meta_trace {#} es outs (meta_abs m) \<and> sm_count m = size (meta_abs m)
    \<and> sm_total_in_flight m = (\<Sum>p \<in># meta_abs m. if sm_in_flight p then sm_sent_bytes p else 0) mod 2 ^ 64"
proof -
  have "meta_abs (quic_sentmeta_init m0) = {#}" by (simp add: meta_abs_def quic_sentmeta_init_def filter_mset_image_mset)
  moreover from this have "meta_inv (quic_sentmeta_init m0)"
    using assms(1) by (simp add: meta_inv_def meta_bytes_def) (simp add: quic_sentmeta_init_def)
  ultimately show ?thesis using meta_run_refines[OF _ assms(2)] by (simp add: meta_inv_def meta_bytes_def)
qed

theorem sentmeta_refines_bag_witness:
  "\<exists>outs m. meta_run [MetaSent 7 100 True True 1200, MetaAck 7] (quic_sentmeta_init \<lparr>sm_pkts = replicate 256
      \<lparr>sm_pn = 0, sm_time_sent = 0, sm_sent_bytes = 0, sm_ack_eliciting = False, sm_in_flight = False, sm_used = False\<rparr>,
      sm_count = 0, sm_total_in_flight = 0\<rparr>) = (outs, m)
    \<and> meta_trace {#} [MetaSent 7 100 True True 1200, MetaAck 7] outs (meta_abs m)"
proof -
  let ?m0 = "\<lparr>sm_pkts = replicate 256 \<lparr>sm_pn = 0, sm_time_sent = 0, sm_sent_bytes = 0, sm_ack_eliciting = False,
      sm_in_flight = False, sm_used = False\<rparr>, sm_count = 0, sm_total_in_flight = 0\<rparr>"
  obtain outs m where r: "meta_run [MetaSent 7 100 True True 1200, MetaAck 7] (quic_sentmeta_init ?m0) = (outs, m)" by fastforce
  have "length (sm_pkts ?m0) = QUIC_SENTMETA_CAP" by (simp add: QUIC_SENTMETA_CAP_def)
  from sentmeta_refines_bag[OF this r] r show ?thesis by blast
qed

end
