(* ===== verification/Retransmit.thy ===== *)
theory Retransmit
  imports Ack_Tracking
begin

text \<open>
  Retransmission, \<^verbatim>\<open>src/transport/recovery/rtx/rtxbytes/\<close> and \<^verbatim>\<open>rtxdrive/\<close>: the ring of frame bytes
  kept per packet number, the decision which frames are sent again, and the two
  routines that gather the frames of lost packets for a new packet.
\<close>

section \<open>rtxstore.c\<close>

definition QUIC_RTXBYTES_SLOTS :: usz where "QUIC_RTXBYTES_SLOTS = 64"

definition QUIC_RTXBYTES_FRAME :: usz where "QUIC_RTXBYTES_FRAME = 1200"

record quic_rtxbytes_slot =
  rs_pn :: u64
  rs_data :: bytes
  rs_len :: usz
  rs_used :: bool

record quic_rtxbytes =
  rb_s :: "quic_rtxbytes_slot list"
  rb_next :: usz

definition quic_rtxbytes_init :: "quic_rtxbytes \<Rightarrow> quic_rtxbytes" where
  "quic_rtxbytes_init st = st\<lparr>rb_next := 0, rb_s := map (\<lambda>s. s\<lparr>rs_used := False\<rparr>) (rb_s st)\<rparr>"

definition quic_rtxbytes_store :: "quic_rtxbytes \<Rightarrow> u64 \<Rightarrow> bytes \<Rightarrow> usz \<Rightarrow> bool \<times> quic_rtxbytes" where
  "quic_rtxbytes_store st pn frame_bytes len =
     (if len > QUIC_RTXBYTES_FRAME then (False, st)
      else let slot = rb_s st ! rb_next st
           in case quic_put_bytes (rs_data slot) QUIC_RTXBYTES_FRAME 0 frame_bytes len of (ok, data, off) \<Rightarrow>
                if \<not> ok then (False, st)
                else (True, st\<lparr>rb_s := (rb_s st)[rb_next st := slot\<lparr>rs_data := data, rs_pn := pn, rs_len := len, rs_used := True\<rparr>],
                               rb_next := (rb_next st + 1) mod QUIC_RTXBYTES_SLOTS\<rparr>))"

definition slot_holds :: "quic_rtxbytes_slot \<Rightarrow> u64 \<Rightarrow> bool" where
  "slot_holds slot pn \<longleftrightarrow> rs_used slot \<and> rs_pn slot = pn"

definition quic_rtxbytes_get :: "quic_rtxbytes \<Rightarrow> u64 \<Rightarrow> (bytes \<times> usz) option" where
  "quic_rtxbytes_get st pn =
     (let i = find_idx (\<lambda>i. slot_holds (rb_s st ! i) pn) 0 QUIC_RTXBYTES_SLOTS
      in if i = QUIC_RTXBYTES_SLOTS then None else Some (rs_data (rb_s st ! i), rs_len (rb_s st ! i)))"

section \<open>rebuild.c\<close>

definition is_ack_or_padding :: "u64 \<Rightarrow> bool" where
  "is_ack_or_padding type \<longleftrightarrow> type = 0x00 \<or> type = 0x02 \<or> type = 0x03"

text \<open>\<open>None\<close> is the result \<open>-1\<close> of a malformed type.\<close>

definition quic_rtxbytes_retransmittable :: "bytes \<Rightarrow> usz \<Rightarrow> bool option" where
  "quic_rtxbytes_retransmittable buf len =
     (case quic_varint_decode buf len of None \<Rightarrow> None | Some (type, _) \<Rightarrow> Some (\<not> is_ack_or_padding type))"

text \<open>The result of a routine that fills \<^verbatim>\<open>out\<close>: success, the buffer, and the length stored through
  \<^verbatim>\<open>out_len\<close>. On failure nothing is stored through it and the length is 0 here; no caller reads it.\<close>

definition rebuild_copy :: "bytes \<Rightarrow> usz \<Rightarrow> bytes \<Rightarrow> usz \<Rightarrow> bool \<times> bytes \<times> usz" where
  "rebuild_copy lost_frame len out cap =
     (case quic_put_bytes out cap 0 lost_frame len of (ok, out, off) \<Rightarrow> if \<not> ok then (False, out, 0) else (True, out, len))"

definition quic_rtxbytes_rebuild :: "bytes \<Rightarrow> usz \<Rightarrow> bytes \<Rightarrow> usz \<Rightarrow> bool \<times> bytes \<times> usz" where
  "quic_rtxbytes_rebuild lost_frame len out cap =
     (case quic_rtxbytes_retransmittable lost_frame len of
        None \<Rightarrow> (False, out, 0)
      | Some False \<Rightarrow> (True, out, 0)
      | Some True \<Rightarrow> rebuild_copy lost_frame len out cap)"

section \<open>collect.c\<close>

definition collect_one :: "quic_rtxbytes \<Rightarrow> u64 \<Rightarrow> bytes \<Rightarrow> usz \<Rightarrow> usz \<Rightarrow> bool \<times> bytes \<times> usz" where
  "collect_one st pn out cap off =
     (case quic_rtxbytes_get st pn of
        None \<Rightarrow> (True, out, off)
      | Some (data, len) \<Rightarrow>
          (case quic_rtxbytes_rebuild data len (drop off out) (usz_sub cap off) of (ok, rest, wrote) \<Rightarrow>
             if \<not> ok then (False, take off out @ rest, off) else (True, take off out @ rest, usz_add off wrote)))"

fun collect_loop :: "quic_rtxbytes \<Rightarrow> u64 list \<Rightarrow> bytes \<Rightarrow> usz \<Rightarrow> usz \<Rightarrow> bool \<times> bytes \<times> usz" where
  "collect_loop st [] out cap off = (True, out, off)"
| "collect_loop st (pn # pns) out cap off =
     (case collect_one st pn out cap off of (ok, out, off) \<Rightarrow>
        if \<not> ok then (False, out, off) else collect_loop st pns out cap off)"

definition quic_rtxbytes_collect :: "quic_rtxbytes \<Rightarrow> u64 list \<Rightarrow> bytes \<Rightarrow> usz \<Rightarrow> bool \<times> bytes \<times> usz" where
  "quic_rtxbytes_collect st lost_pns out cap = collect_loop st lost_pns out cap 0"

section \<open>rtxdrive: build.c, batch.c, select.c\<close>

definition quic_rtxdrive_build :: "quic_rtxbytes \<Rightarrow> u64 \<Rightarrow> bytes \<Rightarrow> usz \<Rightarrow> bool \<times> bytes \<times> usz" where
  "quic_rtxdrive_build store lost_pn out cap =
     (case quic_rtxbytes_get store lost_pn of
        None \<Rightarrow> (True, out, 0)
      | Some (data, len) \<Rightarrow> quic_rtxbytes_rebuild data len out cap)"

definition batch_one :: "quic_rtxbytes \<Rightarrow> u64 \<Rightarrow> bytes \<Rightarrow> usz \<Rightarrow> usz \<Rightarrow> bool \<times> bytes \<times> usz" where
  "batch_one store pn out cap off =
     (case quic_rtxdrive_build store pn (drop off out) (usz_sub cap off) of (ok, rest, wrote) \<Rightarrow>
        if \<not> ok then (False, take off out @ rest, off) else (True, take off out @ rest, usz_add off wrote))"

fun batch_loop :: "quic_rtxbytes \<Rightarrow> u64 list \<Rightarrow> bytes \<Rightarrow> usz \<Rightarrow> usz \<Rightarrow> bytes \<times> usz" where
  "batch_loop store [] out cap off = (out, off)"
| "batch_loop store (pn # pns) out cap off =
     (case batch_one store pn out cap off of (ok, out, off) \<Rightarrow>
        if \<not> ok then (out, off) else batch_loop store pns out cap off)"

definition quic_rtxdrive_batch :: "quic_rtxbytes \<Rightarrow> u64 list \<Rightarrow> bytes \<Rightarrow> usz \<Rightarrow> bytes \<times> usz" where
  "quic_rtxdrive_batch store lost_pns out cap = batch_loop store lost_pns out cap 0"

definition quic_rtxdrive_select :: "quic_rtxbytes \<Rightarrow> u64 \<Rightarrow> bool option" where
  "quic_rtxdrive_select store lost_pn =
     (case quic_rtxbytes_get store lost_pn of
        None \<Rightarrow> None
      | Some (data, len) \<Rightarrow> Some (quic_rtxbytes_retransmittable data len = Some True))"

section \<open>The ring holds the last 64 frames\<close>

definition rtx_store_all :: "quic_rtxbytes \<Rightarrow> (u64 \<times> bytes) list \<Rightarrow> quic_rtxbytes" where
  "rtx_store_all st hist = foldl (\<lambda>st (pn, f). snd (quic_rtxbytes_store st pn f (length f))) st hist"

definition rtx_kept :: "(u64 \<times> bytes) list \<Rightarrow> (u64 \<times> bytes) list" where
  "rtx_kept hist = drop (length hist - 64) hist"

definition slot_is :: "quic_rtxbytes_slot \<Rightarrow> u64 \<times> bytes \<Rightarrow> bool" where
  "slot_is s e \<longleftrightarrow> rs_used s \<and> rs_pn s = fst e \<and> rs_len s = length (snd e) \<and> take (length (snd e)) (rs_data s) = snd e"

text \<open>Slot \<open>i\<close> holds the last entry whose position is \<open>i\<close> modulo 64.\<close>

definition rtx_inv :: "(u64 \<times> bytes) list \<Rightarrow> quic_rtxbytes \<Rightarrow> bool" where
  "rtx_inv hist st \<longleftrightarrow> length (rb_s st) = 64 \<and> (\<forall>s \<in> set (rb_s st). length (rs_data s) = 1200)
     \<and> rb_next st = length hist mod 64
     \<and> (\<forall>i < 64. if rs_used (rb_s st ! i)
          then \<exists>j < length hist. length hist - 64 \<le> j \<and> j mod 64 = i \<and> slot_is (rb_s st ! i) (hist ! j)
          else length hist \<le> i)"

lemma rtx_store_eq:
  assumes "rtx_inv hist st" "length f \<le> 1200"
  shows "quic_rtxbytes_store st pn f (length f) =
    (True, st\<lparr>rb_s := (rb_s st)[rb_next st := (rb_s st ! rb_next st)\<lparr>rs_data := overwrite (rs_data (rb_s st ! rb_next st)) 0 f,
        rs_pn := pn, rs_len := length f, rs_used := True\<rparr>], rb_next := (rb_next st + 1) mod 64\<rparr>)"
  using assms by (simp add: quic_rtxbytes_store_def quic_put_bytes_def QUIC_RTXBYTES_FRAME_def QUIC_RTXBYTES_SLOTS_def Let_def)

lemma mod_window:
  assumes "a \<le> j" "j < a + 64" "a \<le> k" "k < a + 64" "j mod 64 = (k :: nat) mod 64" shows "j = k"
proof -
  have aux: "x = y" if "x \<le> y" "x mod 64 = (y :: nat) mod 64" "y - x < 64" for x y
  proof -
    have "64 dvd y - x" using that(1,2) mod_eq_dvd_iff_nat[of x y 64] by simp
    then have "y - x = 0" using that(3) by (meson dvd_imp_le not_le neq0_conv)
    then show ?thesis using that(1) by simp
  qed
  show ?thesis using aux[of j k] aux[of k j] assms by (cases "j \<le> k") (simp_all add: less_diff_conv2)
qed

lemma rtx_store_inv:
  assumes inv: "rtx_inv hist st" and f: "length f \<le> 1200"
  shows "rtx_inv (hist @ [(pn, f)]) (snd (quic_rtxbytes_store st pn f (length f)))"
proof -
  let ?L = "length hist" and ?n = "rb_next st"
  let ?slot = "(rb_s st ! ?n)\<lparr>rs_data := overwrite (rs_data (rb_s st ! ?n)) 0 f, rs_pn := pn, rs_len := length f, rs_used := True\<rparr>"
  have n: "?n = ?L mod 64" "?n < 64" "length (rb_s st) = 64" using inv by (simp_all add: rtx_inv_def)
  have d: "length (rs_data (rb_s st ! ?n)) = 1200" using inv n by (simp add: rtx_inv_def)
  have new: "slot_is ?slot ((hist @ [(pn, f)]) ! ?L)" by (simp add: slot_is_def overwrite_0)
  have old: "if rs_used (rb_s st ! i)
      then \<exists>j < Suc ?L. Suc ?L - 64 \<le> j \<and> j mod 64 = i \<and> slot_is (rb_s st ! i) ((hist @ [(pn, f)]) ! j)
      else Suc ?L \<le> i" if i: "i < 64" "i \<noteq> ?n" for i
  proof (cases "rs_used (rb_s st ! i)")
    case True
    then obtain j where j: "j < ?L" "?L - 64 \<le> j" "j mod 64 = i" "slot_is (rb_s st ! i) (hist ! j)"
      using inv i(1) unfolding rtx_inv_def by (metis (full_types))
    have "Suc ?L - 64 \<le> j"
    proof (rule ccontr)
      assume "\<not> Suc ?L - 64 \<le> j"
      then have "j + 64 = ?L" using j by linarith
      then have "j mod 64 = ?L mod 64" by (metis mod_add_self2)
      then show False using j(3) i(2) n(1) by simp
    qed
    moreover have "(hist @ [(pn, f)]) ! j = hist ! j" using j(1) by (simp add: nth_append)
    ultimately show ?thesis using True j by (auto intro!: exI[of _ j])
  next
    case False
    then have "?L \<le> i" using inv i(1) unfolding rtx_inv_def by (metis (full_types))
    then show ?thesis using False i n by (cases "?L = i") auto
  qed
  have slots: "\<forall>i < 64. if rs_used ((rb_s st)[?n := ?slot] ! i)
      then \<exists>j < Suc ?L. Suc ?L - 64 \<le> j \<and> j mod 64 = i \<and> slot_is ((rb_s st)[?n := ?slot] ! i) ((hist @ [(pn, f)]) ! j)
      else Suc ?L \<le> i"
  proof (intro allI impI)
    fix i :: nat assume i: "i < 64"
    show "if rs_used ((rb_s st)[?n := ?slot] ! i)
      then \<exists>j < Suc ?L. Suc ?L - 64 \<le> j \<and> j mod 64 = i \<and> slot_is ((rb_s st)[?n := ?slot] ! i) ((hist @ [(pn, f)]) ! j)
      else Suc ?L \<le> i"
    proof (cases "i = ?n")
      case True
      then show ?thesis using n new by (auto intro!: exI[of _ ?L])
    next
      case False
      then have eq: "(rb_s st)[?n := ?slot] ! i = rb_s st ! i" by simp
      show ?thesis unfolding eq by (rule old[OF i False])
    qed
  qed
  have data: "\<forall>s \<in> set ((rb_s st)[?n := ?slot]). length (rs_data s) = 1200"
    using inv f d unfolding rtx_inv_def by (auto dest!: set_update_subset_insert[THEN subsetD])
  have nx: "(?n + 1) mod 64 = Suc ?L mod 64" unfolding n(1) by (simp add: mod_Suc_eq)
  let ?st = "snd (quic_rtxbytes_store st pn f (length f))"
  have st: "rb_s ?st = (rb_s st)[?n := ?slot]" "rb_next ?st = (?n + 1) mod 64" by (simp_all add: rtx_store_eq[OF inv f])
  have len: "length (hist @ [(pn, f)]) = Suc ?L" "length ((rb_s st)[?n := ?slot]) = 64" using n(3) by simp_all
  show ?thesis unfolding rtx_inv_def st len by (intro conjI; rule refl data nx slots)
qed

lemma rtx_init_inv:
  "length (rb_s st) = 64 \<Longrightarrow> \<forall>s \<in> set (rb_s st). length (rs_data s) = 1200 \<Longrightarrow> rtx_inv [] (quic_rtxbytes_init st)"
  by (auto simp: rtx_inv_def quic_rtxbytes_init_def)

lemma rtx_store_all_inv:
  "rtx_inv h st \<Longrightarrow> \<forall>(pn, f) \<in> set hist. length f \<le> 1200 \<Longrightarrow> rtx_inv (h @ hist) (rtx_store_all st hist)"
proof (induction hist arbitrary: h st)
  case (Cons e hist)
  obtain pn f where e: "e = (pn, f)" by fastforce
  have "rtx_inv (h @ [e]) (snd (quic_rtxbytes_store st pn f (length f)))" using rtx_store_inv Cons.prems by (simp add: e)
  from Cons.IH[OF this] Cons.prems(2) show ?case by (simp add: rtx_store_all_def e)
qed (simp add: rtx_store_all_def)

lemma rtx_kept_nth: "j < length hist \<Longrightarrow> length hist - 64 \<le> j \<Longrightarrow> hist ! j \<in> set (rtx_kept hist)"
  unfolding rtx_kept_def in_set_conv_nth by (intro exI[of _ "j - (length hist - 64)"]) auto

lemma rtx_get:
  assumes inv: "rtx_inv hist st" and dist: "distinct (map fst (rtx_kept hist))"
  shows "case map_of (rtx_kept hist) pn of
      None \<Rightarrow> quic_rtxbytes_get st pn = None
    | Some f \<Rightarrow> \<exists>data. quic_rtxbytes_get st pn = Some (data, length f) \<and> take (length f) data = f"
proof -
  let ?i = "find_idx (\<lambda>i. slot_holds (rb_s st ! i) pn) 0 QUIC_RTXBYTES_SLOTS"
  have i64: "QUIC_RTXBYTES_SLOTS = 64" by (simp add: QUIC_RTXBYTES_SLOTS_def)
  have bound: "?i \<le> 64" using find_idx_bounds[of 0 _ QUIC_RTXBYTES_SLOTS] i64 by simp
  have sl: "if rs_used (rb_s st ! i)
      then \<exists>j < length hist. length hist - 64 \<le> j \<and> j mod 64 = i \<and> slot_is (rb_s st ! i) (hist ! j)
      else length hist \<le> i" if "i < 64" for i using inv that unfolding rtx_inv_def by blast
  show ?thesis
  proof (cases "map_of (rtx_kept hist) pn")
    case None
    have "\<not> slot_holds (rb_s st ! i) pn" if i: "i < 64" for i
    proof
      assume h: "slot_holds (rb_s st ! i) pn"
      then obtain j where j: "j < length hist" "length hist - 64 \<le> j" "slot_is (rb_s st ! i) (hist ! j)"
        using sl[OF i] unfolding slot_holds_def by auto
      then have "(pn, snd (hist ! j)) \<in> set (rtx_kept hist)"
        using rtx_kept_nth[of j hist] h unfolding slot_is_def slot_holds_def by (metis prod.collapse)
      then show False using None by (metis map_of_eq_None_iff fst_conv image_eqI)
    qed
    then show ?thesis using find_idx_full[of _ QUIC_RTXBYTES_SLOTS] by (simp add: quic_rtxbytes_get_def i64 None)
  next
    case (Some f)
    then have "(pn, f) \<in> set (rtx_kept hist)" by (rule map_of_SomeD)
    then obtain k where k: "k < length (rtx_kept hist)" "rtx_kept hist ! k = (pn, f)" by (auto simp: in_set_conv_nth)
    define j where "j = length hist - 64 + k"
    have j: "j < length hist" "length hist - 64 \<le> j" "hist ! j = (pn, f)"
      using k by (auto simp: rtx_kept_def j_def)
    have m: "j mod 64 < 64" by simp
    have u: "rs_used (rb_s st ! (j mod 64))"
    proof (rule ccontr)
      assume "\<not> rs_used (rb_s st ! (j mod 64))"
      then have "length hist \<le> j mod 64" using sl[OF m] by simp
      then show False using j(1) mod_less_eq_dividend[of j 64] by linarith
    qed
    then obtain j' where j': "j' < length hist" "length hist - 64 \<le> j'" "j' mod 64 = j mod 64" "slot_is (rb_s st ! (j mod 64)) (hist ! j')"
      using sl[OF m] by auto
    have "j' = j" using mod_window[of "length hist - 64" j' j] j j' by linarith
    then have hold: "slot_holds (rb_s st ! (j mod 64)) pn" using j' j(3) u by (simp add: slot_is_def slot_holds_def)
    then have "?i \<noteq> 64" using find_idx_full[of "\<lambda>i. slot_holds (rb_s st ! i) pn" QUIC_RTXBYTES_SLOTS] m i64 by metis
    then have lt: "?i < 64" using bound by simp
    then have hi: "slot_holds (rb_s st ! ?i) pn"
      using find_idx_stop[of "\<lambda>i. slot_holds (rb_s st ! i) pn" 0 QUIC_RTXBYTES_SLOTS] i64 by simp
    then obtain l where l: "l < length hist" "length hist - 64 \<le> l" "slot_is (rb_s st ! ?i) (hist ! l)"
      using sl[OF lt] unfolding slot_holds_def by auto
    have "hist ! l \<in> set (rtx_kept hist)" using rtx_kept_nth l by blast
    moreover have "fst (hist ! l) = pn" using l(3) hi by (simp add: slot_is_def slot_holds_def)
    ultimately have "map_of (rtx_kept hist) pn = Some (snd (hist ! l))"
      using dist by (metis map_of_is_SomeI prod.collapse)
    then have "snd (hist ! l) = f" using Some by simp
    then show ?thesis using lt l(3) by (simp add: quic_rtxbytes_get_def i64 Let_def Some slot_is_def)
  qed
qed

section \<open>What is sent again\<close>

text \<open>The type that a stored frame starts with, and what is sent again for a packet: its stored bytes, unless they start with
  PADDING (type 0x00) or ACK (types 0x02 and 0x03). Bytes without a complete type are malformed.\<close>

definition frame_type :: "bytes \<Rightarrow> u64 option" where
  "frame_type f = map_option fst (quic_varint_decode f (length f))"

definition rtx_frame :: "(u64 \<times> bytes) list \<Rightarrow> u64 \<Rightarrow> bytes" where
  "rtx_frame hist pn =
     (case map_of (rtx_kept hist) pn of
        None \<Rightarrow> []
      | Some f \<Rightarrow> if frame_type f \<in> {Some 0x00, Some 0x02, Some 0x03} then [] else f)"

definition rtx_malformed :: "(u64 \<times> bytes) list \<Rightarrow> u64 \<Rightarrow> bool" where
  "rtx_malformed hist pn \<longleftrightarrow> (case map_of (rtx_kept hist) pn of None \<Rightarrow> False | Some f \<Rightarrow> frame_type f = None)"

definition rtx_frames_ok :: "(u64 \<times> bytes) list \<Rightarrow> bool" where
  "rtx_frames_ok hist \<longleftrightarrow> distinct (map fst (rtx_kept hist)) \<and> (\<forall>(pn, f) \<in> set hist. length f \<le> 1200)"

lemma retransmittable_type:
  "quic_rtxbytes_retransmittable f (length f) = map_option (\<lambda>t. t \<notin> {0x00, 0x02, 0x03}) (frame_type f)"
  by (auto simp: quic_rtxbytes_retransmittable_def frame_type_def is_ack_or_padding_def split: option.splits)

lemma retransmittable_take:
  "length f \<le> length data \<Longrightarrow> take (length f) data = f \<Longrightarrow>
   quic_rtxbytes_retransmittable data (length f) = quic_rtxbytes_retransmittable f (length f)"
proof -
  assume a: "length f \<le> length data" "take (length f) data = f"
  have r: "rd data i = rd f i" if "i < length f" for i using a that by (metis rd_nth nth_take order_less_le_trans)
  have "quic_varint_decode data (length f) = quic_varint_decode f (length f)"
  proof (cases "length f = 0")
    case False
    then have "rd data 0 = rd f 0" using r by simp
    moreover have "get_be data need = get_be f need" if "need \<le> length f" for need
    proof -
      have "map (rd data) [1..<need] = map (rd f) [1..<need]" by (rule map_cong) (use r that in simp_all)
      then show ?thesis using \<open>rd data 0 = rd f 0\<close> by (simp only: get_be_def)
    qed
    ultimately show ?thesis by (simp add: quic_varint_decode_def Let_def)
  qed (simp add: quic_varint_decode_def)
  then show ?thesis by (simp add: quic_rtxbytes_retransmittable_def)
qed

lemma rebuild_frame:
  assumes inv: "rtx_inv hist st" and ok: "rtx_frames_ok hist" and b: "off \<le> cap" "cap \<le> length out" "cap < 2 ^ 63"
  shows "collect_one st pn out cap off =
      (if \<not> rtx_malformed hist pn \<and> off + length (rtx_frame hist pn) \<le> cap
       then (True, overwrite out off (rtx_frame hist pn), off + length (rtx_frame hist pn)) else (False, out, off))"
    and "batch_one st pn out cap off = collect_one st pn out cap off"
proof -
  have sub: "usz_sub cap off = cap - off" using b by simp
  have g: "case map_of (rtx_kept hist) pn of None \<Rightarrow> quic_rtxbytes_get st pn = None
    | Some f \<Rightarrow> \<exists>data. quic_rtxbytes_get st pn = Some (data, length f) \<and> take (length f) data = f"
    using rtx_get[OF inv, of pn] ok by (simp add: rtx_frames_ok_def)
  show "batch_one st pn out cap off = collect_one st pn out cap off"
    using b by (auto simp: batch_one_def collect_one_def quic_rtxdrive_build_def split: option.splits prod.splits)
  show "collect_one st pn out cap off =
      (if \<not> rtx_malformed hist pn \<and> off + length (rtx_frame hist pn) \<le> cap
       then (True, overwrite out off (rtx_frame hist pn), off + length (rtx_frame hist pn)) else (False, out, off))"
  proof (cases "map_of (rtx_kept hist) pn")
    case None
    then show ?thesis using g b by (simp add: collect_one_def rtx_frame_def rtx_malformed_def)
  next
    case (Some f)
    then obtain data where d: "quic_rtxbytes_get st pn = Some (data, length f)" "take (length f) data = f" using g by auto
    have "(pn, f) \<in> set hist" using map_of_SomeD[OF Some] by (auto simp: rtx_kept_def dest: in_set_dropD)
    then have f: "length f \<le> 1200" using ok by (auto simp: rtx_frames_ok_def)
    have "length f \<le> length data" using arg_cong[OF d(2), of length] by simp
    note r = retransmittable_take[OF this d(2), unfolded retransmittable_type]
    show ?thesis
      using f b d r
      by (auto simp: collect_one_def Some rtx_frame_def rtx_malformed_def sub quic_rtxbytes_rebuild_def rebuild_copy_def quic_put_bytes_def
          overwrite_def add.commute split: option.splits bool.splits)
  qed
qed

definition rtx_cat :: "(u64 \<times> bytes) list \<Rightarrow> u64 list \<Rightarrow> bytes" where
  "rtx_cat hist pns = concat (map (rtx_frame hist) pns)"

definition rtx_fits :: "(u64 \<times> bytes) list \<Rightarrow> u64 list \<Rightarrow> nat \<Rightarrow> bool" where
  "rtx_fits hist pns room \<longleftrightarrow> list_all (\<lambda>pn. \<not> rtx_malformed hist pn) pns \<and> length (rtx_cat hist pns) \<le> room"

lemma rtx_fits_Cons:
  "\<not> rtx_malformed hist pn \<and> off + length (rtx_frame hist pn) \<le> cap \<Longrightarrow>
   rtx_fits hist (pn # pns) (cap - off) \<longleftrightarrow> rtx_fits hist pns (cap - (off + length (rtx_frame hist pn)))"
  by (auto simp: rtx_fits_def rtx_cat_def)

lemma collect_loop_eq:
  assumes "rtx_inv hist st" "rtx_frames_ok hist" "off \<le> cap" "cap \<le> length out" "cap < 2 ^ 63"
  shows "if rtx_fits hist pns (cap - off)
     then collect_loop st pns out cap off = (True, overwrite out off (rtx_cat hist pns), off + length (rtx_cat hist pns))
     else \<not> fst (collect_loop st pns out cap off)"
  using assms(3,4)
proof (induction pns arbitrary: out off)
  case (Cons pn pns)
  note one = rebuild_frame(1)[OF assms(1,2) Cons.prems assms(5), of pn]
  show ?case
  proof (cases "\<not> rtx_malformed hist pn \<and> off + length (rtx_frame hist pn) \<le> cap")
    case True
    then have "off + length (rtx_frame hist pn) \<le> cap" "cap \<le> length (overwrite out off (rtx_frame hist pn))" using Cons.prems(2) by simp_all
    from Cons.IH[OF this] show ?thesis
      using one True Cons.prems overwrite_overwrite[of off "rtx_frame hist pn" out]
      by (simp add: rtx_fits_Cons rtx_cat_def add.assoc)
  next
    case False
    then show ?thesis using one Cons.prems by (auto simp: rtx_cat_def rtx_fits_def)
  qed
qed (simp add: rtx_cat_def rtx_fits_def)

lemma batch_loop_eq:
  assumes "rtx_inv hist st" "rtx_frames_ok hist" "off \<le> cap" "cap \<le> length out" "cap < 2 ^ 63"
  shows "\<exists>k \<le> length pns. rtx_fits hist (take k pns) (cap - off)
     \<and> batch_loop st pns out cap off = (overwrite out off (rtx_cat hist (take k pns)), off + length (rtx_cat hist (take k pns)))
     \<and> (k < length pns \<longrightarrow> \<not> rtx_fits hist (take (Suc k) pns) (cap - off))"
  using assms(3,4)
proof (induction pns arbitrary: out off)
  case (Cons pn pns)
  note one = rebuild_frame[OF assms(1,2) Cons.prems assms(5), of pn]
  let ?o = "off + length (rtx_frame hist pn)"
  show ?case
  proof (cases "\<not> rtx_malformed hist pn \<and> ?o \<le> cap")
    case True
    then have le: "?o \<le> cap" "cap \<le> length (overwrite out off (rtx_frame hist pn))" using Cons.prems(2) by simp_all
    from Cons.IH[OF this] obtain k where k: "k \<le> length pns" "rtx_fits hist (take k pns) (cap - ?o)"
      "batch_loop st pns (overwrite out off (rtx_frame hist pn)) cap ?o =
        (overwrite (overwrite out off (rtx_frame hist pn)) ?o (rtx_cat hist (take k pns)), ?o + length (rtx_cat hist (take k pns)))"
      "k < length pns \<longrightarrow> \<not> rtx_fits hist (take (Suc k) pns) (cap - ?o)" by blast
    from k show ?thesis
      using one True Cons.prems overwrite_overwrite[of off "rtx_frame hist pn" out]
      by (intro exI[of _ "Suc k"]) (auto simp: rtx_fits_Cons rtx_cat_def add.assoc)
  next
    case False
    then show ?thesis using one Cons.prems by (intro exI[of _ 0]) (auto simp: rtx_cat_def rtx_fits_def)
  qed
qed (simp add: rtx_cat_def rtx_fits_def)

text \<open>C28: Retransmission is exact. After byte strings have been stored for packet numbers (distinct among the last
  64), the bytes gathered for a list of lost packets are those stored for the last 64
  packets, unchanged and in the order of the list, without the ones that start with PADDING (type 0x00) or ACK (0x02, 0x03) and
  without forgotten packets. Collecting fails exactly when they do not fit or a lost packet's bytes do not start with a
  complete frame type; the batch routine takes the longest leading part of the list without these two failures.\<close>

theorem retransmission_exact:
  assumes "length (rb_s st0) = 64" "\<forall>s \<in> set (rb_s st0). length (rs_data s) = 1200" "rtx_frames_ok hist"
    and "st = rtx_store_all (quic_rtxbytes_init st0) hist" "cap \<le> length out" "cap < 2 ^ 63"
  shows "(if rtx_fits hist lost cap
      then quic_rtxbytes_collect st lost out cap = (True, overwrite out 0 (rtx_cat hist lost), length (rtx_cat hist lost))
      else \<not> fst (quic_rtxbytes_collect st lost out cap))
    \<and> (\<exists>k \<le> length lost. rtx_fits hist (take k lost) cap
        \<and> quic_rtxdrive_batch st lost out cap = (overwrite out 0 (rtx_cat hist (take k lost)), length (rtx_cat hist (take k lost)))
        \<and> (k < length lost \<longrightarrow> \<not> rtx_fits hist (take (Suc k) lost) cap))"
proof -
  have "\<forall>(pn, f) \<in> set hist. length f \<le> 1200" using assms(3) by (auto simp: rtx_frames_ok_def)
  from rtx_store_all_inv[OF rtx_init_inv[OF assms(1,2)] this] have i: "rtx_inv hist st" using assms(4) by simp
  show ?thesis
    using collect_loop_eq[OF i assms(3) le0 assms(5,6), of lost] batch_loop_eq[OF i assms(3) le0 assms(5,6), of lost]
    by (simp add: quic_rtxbytes_collect_def quic_rtxdrive_batch_def)
qed

theorem retransmission_exact_witness:
  "\<exists>st. take 3 (fst (snd (quic_rtxbytes_collect st [7, 8, 9] (replicate 10 0) 10))) = [0x08, 1, 2]
     \<and> st = rtx_store_all (quic_rtxbytes_init \<lparr>rb_s = replicate 64 \<lparr>rs_pn = 0, rs_data = replicate 1200 0, rs_len = 0, rs_used = False\<rparr>,
         rb_next = 5\<rparr>) [(7, [0x08, 1, 2]), (8, [0x02, 9])]"
proof -
  let ?st0 = "\<lparr>rb_s = replicate 64 \<lparr>rs_pn = 0, rs_data = replicate 1200 0, rs_len = 0, rs_used = False\<rparr>, rb_next = 5\<rparr>"
  let ?h = "[(7 :: u64, [0x08, 1, 2 :: u8]), (8, [0x02, 9])]"
  have t: "frame_type [8, 1, 2] = Some 8" "frame_type [2, 9] = Some 2"
    by (simp_all add: frame_type_def quic_varint_decode_def get_be_def load_be_def)
  have ok: "rtx_frames_ok ?h" by (auto simp: rtx_frames_ok_def rtx_kept_def)
  have cat: "rtx_cat ?h [7, 8, 9] = [8, 1, 2]" "rtx_fits ?h [7, 8, 9] 10"
    by (simp_all add: rtx_fits_def rtx_malformed_def rtx_cat_def rtx_frame_def rtx_kept_def t)
  from retransmission_exact[OF _ _ ok refl, of ?st0 10 "replicate 10 0" "[7, 8, 9]"] show ?thesis
    by (intro exI[of _ "rtx_store_all (quic_rtxbytes_init ?st0) ?h"]) (simp add: cat overwrite_0)
qed

end
