(* ===== verification/Crypto_Stream.thy ===== *)
theory Crypto_Stream
  imports Streams Frame_Dispatch
begin

text \<open>
  The CRYPTO stream that carries the TLS handshake, \<^verbatim>\<open>src/transport/conn/pnspace/crypto_stream/\<close>: splitting
  the TLS bytes into CRYPTO frames (\<^verbatim>\<open>crypto_tx.c\<close>) and reassembling them (\<^verbatim>\<open>crypto_rx.c\<close>). The X25519
  wrapper \<^verbatim>\<open>ecdhe.c\<close> is not part of this theory.
\<close>

section \<open>crypto\_tx.c\<close>

definition crypto_tx_min_usz :: "usz \<Rightarrow> usz \<Rightarrow> usz" where
  "crypto_tx_min_usz a b = (if a < b then a else b)"

text \<open>The frame's data pointer is \<^verbatim>\<open>tls_bytes + *pos\<close> with \<open>chunk\<close> bytes to read.\<close>

definition emit_one :: "bytes \<Rightarrow> u64 \<Rightarrow> usz \<Rightarrow> bytes \<Rightarrow> usz \<Rightarrow> usz \<Rightarrow> usz \<Rightarrow> bool \<times> bytes \<times> usz \<times> usz" where
  "emit_one tls_bytes base_offset chunk out cap pos written =
     (let f = \<lparr>cr_offset = base_offset + of_nat pos, cr_length = of_nat chunk, cr_data = take chunk (drop pos tls_bytes)\<rparr>
      in case quic_frame_put_crypto (drop written out) (usz_sub cap written) f of (n, rest) \<Rightarrow>
        if n = 0 then (False, take written out @ rest, pos, written)
        else (True, take written out @ rest, pos + chunk, usz_add written n))"

text \<open>The loop is only entered with \<open>max_frame \<noteq> 0\<close>, the initial value of \<^verbatim>\<open>ok\<close>; the conjunct makes
  that visible.\<close>

function emit_loop :: "bytes \<Rightarrow> usz \<Rightarrow> u64 \<Rightarrow> usz \<Rightarrow> bool \<Rightarrow> bytes \<Rightarrow> usz \<Rightarrow> usz \<Rightarrow> usz \<Rightarrow> bool \<times> bytes \<times> usz" where
  "emit_loop tls_bytes len base_offset max_frame ok out cap pos written =
     (if ok \<and> pos < len \<and> max_frame \<noteq> 0
      then let chunk = crypto_tx_min_usz (len - pos) max_frame
           in case emit_one tls_bytes base_offset chunk out cap pos written of (ok, out, pos, written) \<Rightarrow>
                emit_loop tls_bytes len base_offset max_frame ok out cap pos written
      else (ok, out, written))"
  by pat_completeness auto
termination
  by (relation "measure (\<lambda>(_, len, _, _, ok, _, _, pos, _). (len - pos) + (if ok then 1 else 0))")
    (auto simp: emit_one_def Let_def crypto_tx_min_usz_def split: prod.splits if_splits)

declare emit_loop.simps [simp del]

definition quic_crypto_stream_emit :: "bytes \<Rightarrow> usz \<Rightarrow> u64 \<Rightarrow> usz \<Rightarrow> bytes \<Rightarrow> usz \<Rightarrow> bool \<times> bytes \<times> usz" where
  "quic_crypto_stream_emit tls_bytes len base_offset max_frame out cap =
     emit_loop tls_bytes len base_offset max_frame (max_frame \<noteq> 0) out cap 0 0"

section \<open>crypto\_rx.c\<close>

record quic_crypto_rx =
  cx_reasm :: quic_reasm
  cx_read_upto :: u64

definition quic_crypto_stream_rx_init :: "quic_crypto_rx \<Rightarrow> quic_crypto_rx" where
  "quic_crypto_stream_rx_init r = r\<lparr>cx_reasm := quic_reasm_init (cx_reasm r), cx_read_upto := 0\<rparr>"

definition quic_crypto_stream_recv :: "quic_crypto_rx \<Rightarrow> u64 \<Rightarrow> bytes \<Rightarrow> usz \<Rightarrow> bool \<times> quic_crypto_rx" where
  "quic_crypto_stream_recv r offset data len =
     (case quic_reasm_insert (cx_reasm r) offset data len of (ok, q) \<Rightarrow> (ok, r\<lparr>cx_reasm := q\<rparr>))"

text \<open>\<open>Some\<close> of the bytes copied to \<^verbatim>\<open>out\<close>, or \<open>None\<close> for the result 0.\<close>

definition quic_crypto_stream_read :: "quic_crypto_rx \<Rightarrow> usz \<Rightarrow> bytes option \<times> quic_crypto_rx" where
  "quic_crypto_stream_read r cap =
     (case quic_reasm_deliver (cx_reasm r) of (d, q) \<Rightarrow>
        let avail = d - cx_read_upto r
        in if unat avail > cap then (None, r\<lparr>cx_reasm := q\<rparr>)
           else (Some (map (\<lambda>i. rd (ra_buf q) (unat (cx_read_upto r + of_nat i))) [0..<unat avail]),
                 r\<lparr>cx_reasm := q, cx_read_upto := cx_read_upto r + avail\<rparr>))"

section \<open>The frames that are emitted\<close>

function crypto_frames :: "u64 \<Rightarrow> nat \<Rightarrow> bytes \<Rightarrow> quic_crypto_frame list" where
  "crypto_frames base m tls =
     (if tls = [] \<or> m = 0 then []
      else \<lparr>cr_offset = base, cr_length = of_nat (length (take m tls)), cr_data = take m tls\<rparr>
           # crypto_frames (base + of_nat (length (take m tls))) m (drop m tls))"
  by pat_completeness auto
termination by (relation "measure (\<lambda>(_, _, tls). length tls)") auto

declare crypto_frames.simps [simp del]

lemma crypto_frames_Nil [simp]: "crypto_frames base m [] = []"
  by (subst crypto_frames.simps) simp

definition crypto_bytes :: "quic_crypto_frame list \<Rightarrow> bytes" where
  "crypto_bytes fs = concat (map crypto_wire fs)"

lemma emit_loop_eq:
  assumes "0 < m" "length tls = len" "len + unat base < 2 ^ 62" "cap < 2 ^ 63" "pos \<le> len" "written \<le> cap"
    "cap \<le> length out" "length out < 2 ^ 63"
    and "W = crypto_bytes (crypto_frames (base + of_nat pos) m (drop pos tls))"
  shows "if written + length W \<le> cap
     then emit_loop tls len base m True out cap pos written = (True, overwrite out written W, written + length W)
     else \<not> fst (emit_loop tls len base m True out cap pos written)"
  using assms(5-)
proof (induction "len - pos" arbitrary: pos written out W rule: less_induct)
  case less
  show ?case
  proof (cases "pos < len")
    case False
    then have "drop pos tls = []" using less.prems(1) assms(2) by simp
    then have "W = []" using less.prems(5) by (simp add: crypto_bytes_def)
    then show ?thesis using False less.prems by (subst emit_loop.simps) (simp add: overwrite_def)
  next
    case True
    define c where "c = crypto_tx_min_usz (len - pos) m"
    have c: "0 < c" "c = length (take m (drop pos tls))" "pos + c \<le> len"
      using True assms(1,2) by (auto simp: c_def crypto_tx_min_usz_def min_def)
    define f where "f = \<lparr>cr_offset = base + of_nat pos, cr_length = of_nat c, cr_data = take c (drop pos tls)\<rparr>"
    have tk: "take c (drop pos tls) = take m (drop pos tls)"
      using assms(2) by (auto simp: c_def crypto_tx_min_usz_def)
    have dr: "drop m (drop pos tls) = drop (pos + c) tls" using True assms(1,2) by (auto simp: c_def crypto_tx_min_usz_def add.commute)
    have off: "unat (base + of_nat pos) = unat base + pos"
      using assms(3) less.prems(1) by (simp add: unat_word_ariths unat_of_nat)
    have uc: "unat (of_nat c :: u64) = c" using c(3) assms(3) by (simp add: unat_of_nat)
    have wf: "crypto_wf f" using c uc assms(2) by (simp add: crypto_wf_def f_def)
    have ok: "crypto_ok f" using off uc c(3) assms(3) less.prems(1)
      by (simp add: crypto_ok_def f_def QUIC_VARINT_MAX_def word_le_nat_alt)
    define W' where "W' = crypto_bytes (crypto_frames (base + of_nat (pos + c)) m (drop (pos + c) tls))"
    have W: "W = crypto_wire f @ W'"
    proof -
      have "crypto_frames (base + of_nat pos) m (drop pos tls) = f # crypto_frames (base + of_nat (pos + c)) m (drop (pos + c) tls)"
        using True assms(1,2) unfolding crypto_frames.simps[of _ m "drop pos tls"] c(2)[symmetric] dr
        by (simp add: f_def tk add.assoc)
      then show ?thesis using less.prems(5) by (simp add: crypto_bytes_def W'_def)
    qed
    have sub: "usz_sub cap written = cap - written" using less.prems(2) assms(4) by simp
    have room: "cap - written \<le> length (drop written out)" "length (drop written out) < 2 ^ 63" using less.prems(3,4) by simp_all
    note step = emit_loop.simps[of tls len base m True out cap pos written]
    show ?thesis
    proof (cases "written + length (crypto_wire f) \<le> cap")
      case False
      have "fst (quic_frame_put_crypto (drop written out) (cap - written) f) = 0"
        using False less.prems(2) by (intro crypto.enc_fails[OF wf _ room]) linarith
      then have "fst (emit_one tls base c out cap pos written) = False"
        by (auto simp: emit_one_def Let_def sub f_def split: prod.splits)
      moreover have "\<not> fst (emit_loop tls len base m False o' cap p w)" for o' p w by (subst emit_loop.simps) simp
      ultimately show ?thesis using step True assms(1) False
        by (auto simp: c_def[symmetric] W split: prod.splits)
    next
      case fits: True
      have "quic_frame_put_crypto (drop written out) (cap - written) f = (length (crypto_wire f), overwrite (drop written out) 0 (crypto_wire f))"
        using crypto.enc_fits[OF wf ok _ room] fits by simp
      moreover have "length (crypto_wire f) \<noteq> 0" using crypto.wire_nonempty[OF ok] by simp
      moreover have "take written out @ overwrite (drop written out) 0 (crypto_wire f) = overwrite out written (crypto_wire f)"
        by (simp add: overwrite_def add.commute)
      ultimately have one: "emit_one tls base c out cap pos written =
          (True, overwrite out written (crypto_wire f), pos + c, written + length (crypto_wire f))"
        using fits assms(4) by (simp add: emit_one_def Let_def sub f_def[symmetric])
      have go: "emit_loop tls len base m True out cap pos written =
          emit_loop tls len base m True (overwrite out written (crypto_wire f)) cap (pos + c) (written + length (crypto_wire f))"
        using step True assms(1) by (simp add: c_def[symmetric] one)
      have "length (overwrite out written (crypto_wire f)) = length out" using fits less.prems(3) by simp
      then have ih: "if written + length (crypto_wire f) + length W' \<le> cap
          then emit_loop tls len base m True (overwrite out written (crypto_wire f)) cap (pos + c) (written + length (crypto_wire f)) =
            (True, overwrite (overwrite out written (crypto_wire f)) (written + length (crypto_wire f)) W',
             written + length (crypto_wire f) + length W')
          else \<not> fst (emit_loop tls len base m True (overwrite out written (crypto_wire f)) cap (pos + c) (written + length (crypto_wire f)))"
        using c(1,3) fits less.prems(3,4) by (intro less.hyps[OF _ _ _ _ _ W'_def]) linarith+
      have o2: "overwrite (overwrite out written (crypto_wire f)) (written + length (crypto_wire f)) W' = overwrite out written W"
        unfolding W using fits less.prems(3) by (intro overwrite_overwrite) simp
      have l: "length W = length (crypto_wire f) + length W'" unfolding W by simp
      show ?thesis using ih unfolding go o2 l add.assoc .
    qed
  qed
qed

lemma crypto_frames_ok:
  "length tls + unat base < 2 ^ 62 \<Longrightarrow> f \<in> set (crypto_frames base m tls) \<Longrightarrow> crypto_wf f \<and> crypto_ok f"
proof (induction base m tls rule: crypto_frames.induct)
  case (1 base m tls)
  define c where "c = length (take m tls)"
  have u: "unat (of_nat c :: u64) = c" "unat (base + of_nat c) = unat base + c"
    using "1.prems"(1) by (simp_all add: c_def unat_of_nat unat_word_ariths)
  have ih: "crypto_wf f \<and> crypto_ok f" if "f \<in> set (crypto_frames (base + of_nat c) m (drop m tls))" "tls \<noteq> []" "m \<noteq> 0"
    using "1.IH"[OF _ _ that(1)[unfolded c_def]] that u "1.prems"(1) by (auto simp: c_def)
  have hd: "crypto_wf \<lparr>cr_offset = base, cr_length = of_nat c, cr_data = take m tls\<rparr>
      \<and> crypto_ok \<lparr>cr_offset = base, cr_length = of_nat c, cr_data = take m tls\<rparr>"
    using "1.prems"(1) u(1) by (simp add: crypto_wf_def crypto_ok_def c_def QUIC_VARINT_MAX_def word_le_nat_alt)
  show ?case using "1.prems"(2) hd ih unfolding crypto_frames.simps[of base m tls] c_def[symmetric]
    by (auto split: if_splits)
qed

lemma crypto_frames_pieces:
  "length (pre @ tls) < 2 ^ 62 \<Longrightarrow> 0 < m \<Longrightarrow> d = pre @ tls \<Longrightarrow> base = of_nat (length pre) \<Longrightarrow>
   (\<forall>f \<in> set (crypto_frames base m tls). op_of d (Push (cr_offset f) (cr_data f)))
   \<and> (\<forall>i. length pre \<le> i \<and> i < length d \<longrightarrow>
        (\<exists>f \<in> set (crypto_frames base m tls). unat (cr_offset f) \<le> i \<and> i < unat (cr_offset f) + length (cr_data f)))"
proof (induction base m tls arbitrary: pre rule: crypto_frames.induct)
  case (1 base m tls)
  show ?case
  proof (cases "tls = []")
    case True then show ?thesis using "1.prems" by simp
  next
    case False
    define f where "f = \<lparr>cr_offset = base, cr_length = of_nat (length (take m tls)), cr_data = take m tls\<rparr>"
    let ?r = "crypto_frames (base + of_nat (length (take m tls))) m (drop m tls)"
    have fs: "crypto_frames base m tls = f # ?r"
      using False "1.prems"(2) by (subst crypto_frames.simps) (simp add: f_def)
    have ub: "unat base = length pre" using "1.prems"(1,4) by (simp add: unat_of_nat)
    have ih: "(\<forall>f \<in> set ?r. op_of d (Push (cr_offset f) (cr_data f)))
      \<and> (\<forall>i. length (pre @ take m tls) \<le> i \<and> i < length d \<longrightarrow>
          (\<exists>f \<in> set ?r. unat (cr_offset f) \<le> i \<and> i < unat (cr_offset f) + length (cr_data f)))"
      by (rule "1.IH") (use False "1.prems" in simp_all)
    have hd: "op_of d (Push (cr_offset f) (cr_data f))" using ub "1.prems"(3) by (simp add: f_def min_def)
    have cov: "unat (cr_offset f) \<le> i \<and> i < unat (cr_offset f) + length (cr_data f)"
      if "length pre \<le> i" "i < length (pre @ take m tls)" for i using that ub by (simp add: f_def)
    show ?thesis unfolding fs
    proof (intro conjI ballI allI impI)
      fix g assume "g \<in> set (f # ?r)"
      then show "op_of d (Push (cr_offset g) (cr_data g))" using hd ih by auto
    next
      fix i assume i: "length pre \<le> i \<and> i < length d"
      show "\<exists>g \<in> set (f # ?r). unat (cr_offset g) \<le> i \<and> i < unat (cr_offset g) + length (cr_data g)"
      proof (cases "i < length (pre @ take m tls)")
        case True then show ?thesis using cov i by auto
      next
        case False then show ?thesis using ih i by auto
      qed
    qed
  qed
qed

section \<open>Receiving\<close>

definition as_read :: "quic_crypto_rx \<Rightarrow> quic_stream_read" where
  "as_read r = \<lparr>sr_r = cx_reasm r, sr_read_off = cx_read_upto r\<rparr>"

definition recv_frame :: "quic_crypto_rx \<Rightarrow> quic_crypto_frame \<Rightarrow> quic_crypto_rx" where
  "recv_frame r f = snd (quic_crypto_stream_recv r (cr_offset f) (cr_data f) (unat (cr_length f)))"

lemma as_read_recv:
  "crypto_wf f \<Longrightarrow> as_read (recv_frame r f) = snd (quic_stream_read_push (as_read r) (cr_offset f) (cr_data f) (length (cr_data f)))"
  by (simp add: as_read_def recv_frame_def quic_crypto_stream_recv_def quic_stream_read_push_def crypto_wf_def split: prod.splits)

lemma as_read_init: "as_read (quic_crypto_stream_rx_init r) = quic_stream_read_init (as_read r)"
  by (simp add: as_read_def quic_crypto_stream_rx_init_def quic_stream_read_init_def)

lemma recv_frames_inv:
  assumes "read_inv d R (as_read r)" "length d < 2 ^ 63" "\<forall>f \<in> set fs. crypto_wf f \<and> op_of d (Push (cr_offset f) (cr_data f))"
  shows "read_inv d (R \<union> {i. \<exists>f \<in> set fs. op_covers (Push (cr_offset f) (cr_data f)) i}) (as_read (foldl recv_frame r fs))
    \<and> cx_read_upto (foldl recv_frame r fs) = cx_read_upto r"
  using assms
proof (induction fs arbitrary: R r)
  case (Cons f fs)
  have f: "crypto_wf f" "op_of d (Push (cr_offset f) (cr_data f))" using Cons.prems(3) by auto
  note p = read_inv_push[OF Cons.prems(1) f(2) Cons.prems(2), folded as_read_recv[OF f(1)]]
  have R: "R \<union> {i. \<exists>g \<in> set (f # fs). op_covers (Push (cr_offset g) (cr_data g)) i} =
      R \<union> {i. op_covers (Push (cr_offset f) (cr_data f)) i} \<union> {i. \<exists>g \<in> set fs. op_covers (Push (cr_offset g) (cr_data g)) i}" by auto
  have u: "cx_read_upto (recv_frame r f) = cx_read_upto r" using conjunct2[OF p] by (simp add: as_read_def)
  have "read_inv d (R \<union> {i. op_covers (Push (cr_offset f) (cr_data f)) i} \<union> {i. \<exists>g \<in> set fs. op_covers (Push (cr_offset g) (cr_data g)) i})
      (as_read (foldl recv_frame (recv_frame r f) fs)) \<and> cx_read_upto (foldl recv_frame (recv_frame r f) fs) = cx_read_upto (recv_frame r f)"
    by (rule Cons.IH[OF conjunct1[OF p] Cons.prems(2)]) (use Cons.prems(3) in simp)
  then show ?case unfolding R foldl.simps u .
qed (simp del: op_covers.simps)

lemma crypto_read_all:
  assumes inv: "read_inv d R (as_read r)" "cx_read_upto r = 0" and R: "\<forall>i < length d. i \<in> R" and cap: "length d \<le> cap" "length d < 2 ^ 63"
  shows "fst (quic_crypto_stream_read r cap) = Some d"
proof -
  obtain o1 s1 where p: "quic_stream_read_pull (as_read r) (Suc cap) = (o1, s1)" by fastforce
  note q = read_inv_pull[OF inv(1) p]
  have z: "sr_read_off (as_read r) = 0" using inv(2) by (simp add: as_read_def)
  have le: "length o1 \<le> length d" using q(3,4) z by simp
  have full: "length o1 = length d"
  proof (rule ccontr)
    assume "length o1 \<noteq> length d"
    then have "unat (sr_read_off s1) < length d" using q(3) z le by simp
    then show False using q(5) R le cap by auto
  qed
  then have o1: "o1 = d" using q(2) z by simp
  obtain e g where dv: "quic_reasm_deliver (cx_reasm r) = (e, g)" by fastforce
  have pull: "o1 = map (\<lambda>i. rd (ra_buf g) (unat (0 + of_nat i :: u64))) [0..<(if unat e < Suc cap then unat e else Suc cap)]"
    using p by (auto simp: quic_stream_read_pull_def readable_def as_read_def dv inv(2))
  then have "unat e = length d" using full cap by (auto split: if_splits)
  then show ?thesis using pull o1 cap by (simp add: quic_crypto_stream_read_def dv inv(2))
qed

section \<open>From the sender's TLS bytes to the receiver's\<close>

definition crypto_frames_of :: "(u64 \<times> bytes \<times> usz) list \<Rightarrow> quic_crypto_frame list" where
  "crypto_frames_of xs = List.map_filter (\<lambda>(t, b, rem). map_option fst (quic_frame_get_crypto b rem)) xs"

lemma crypto_frames_of_walk:
  "\<forall>f \<in> set fs. crypto_wf f \<and> crypto_ok f \<Longrightarrow> length (crypto_bytes fs) < 2 ^ 63 \<Longrightarrow>
   crypto_frames_of (walk_spec (map W_CRYPTO fs)) = fs"
proof (induction fs)
  case (Cons f fs)
  have cb: "concat (map fwire (map W_CRYPTO fs)) = crypto_bytes fs" by (simp add: crypto_bytes_def comp_def)
  have "quic_frame_get_crypto (crypto_wire f @ crypto_bytes fs) (length (crypto_wire f @ crypto_bytes fs)) = Some (f, length (crypto_wire f))"
    using Cons.prems by (intro crypto.dec_wire) (simp_all add: crypto_bytes_def)
  moreover have "crypto_frames_of (walk_spec (map W_CRYPTO fs)) = fs" using Cons by (simp add: crypto_bytes_def)
  ultimately show ?case using cb by (simp add: crypto_frames_of_def Let_def List.map_filter_simps del: map_map)
qed (simp add: crypto_frames_of_def List.map_filter_simps)

text \<open>C29: The handshake bytes arrive. When \<^verbatim>\<open>quic_crypto_stream_emit\<close> succeeds on TLS bytes that fit the
  receiver's buffer, the bytes it wrote form a payload that the frame walk consumes
  completely; and however its CRYPTO frames are reordered and duplicated on the way, once each
  has arrived the receiver reads exactly the TLS bytes. It succeeds exactly when
  the maximal frame size is not 0 and the frames fit.\<close>

theorem handshake_bytes_delivered:
  assumes "0 < m" "length tls \<le> 4096" "cap \<le> length out" "length out < 2 ^ 63"
    and "quic_crypto_stream_emit tls (length tls) 0 m out cap = (ok, out', n)"
    and "framewalk_all (quic_framewalk_init (take n out') n) = (xs, fin)"
    and "length (ra_buf (cx_reasm r0)) = QUIC_REASM_CAP"
  shows "(ok \<longleftrightarrow> length (crypto_bytes (crypto_frames 0 m tls)) \<le> cap)
    \<and> (ok \<longrightarrow> n \<le> cap \<and> fw_remaining fin = 0
      \<and> (\<forall>fs. set fs = set (crypto_frames_of xs) \<longrightarrow> length tls \<le> rcap \<longrightarrow>
          fst (quic_crypto_stream_read (foldl recv_frame (quic_crypto_stream_rx_init r0) fs) rcap) = Some tls))"
proof -
  let ?fs = "crypto_frames 0 m tls"
  have cap: "cap < 2 ^ 63" using assms(3,4) by simp
  have e: "if length (crypto_bytes ?fs) \<le> cap
      then (ok, out', n) = (True, overwrite out 0 (crypto_bytes ?fs), length (crypto_bytes ?fs)) else \<not> ok"
    using emit_loop_eq[OF assms(1) refl _ cap, of tls 0 0 0 out "crypto_bytes ?fs"] assms
    by (simp add: quic_crypto_stream_emit_def split: if_splits)
  have iff: "ok \<longleftrightarrow> length (crypto_bytes ?fs) \<le> cap" using e by (auto split: if_splits)
  have "n \<le> cap \<and> fw_remaining fin = 0 \<and> (\<forall>fs. set fs = set (crypto_frames_of xs) \<longrightarrow> length tls \<le> rcap \<longrightarrow>
      fst (quic_crypto_stream_read (foldl recv_frame (quic_crypto_stream_rx_init r0) fs) rcap) = Some tls)" if ok
  proof -
    have fit: "length (crypto_bytes ?fs) \<le> cap" using iff that by simp
    then have o: "out' = overwrite out 0 (crypto_bytes ?fs)" "n = length (crypto_bytes ?fs)" using e by auto
    have tk: "take n out' = crypto_bytes ?fs" using o by (simp add: overwrite_0)
    have ok_fs: "\<forall>f \<in> set ?fs. crypto_wf f \<and> crypto_ok f" using crypto_frames_ok[of tls 0 _ m] assms(2) by simp
    have cb: "concat (map fwire (map W_CRYPTO ?fs)) = crypto_bytes ?fs" by (simp add: crypto_bytes_def comp_def)
    have "framewalk_all \<lparr>fw_cur = crypto_bytes ?fs, fw_remaining = length (crypto_bytes ?fs)\<rparr> =
        (walk_spec (map W_CRYPTO ?fs), \<lparr>fw_cur = [], fw_remaining = 0\<rparr>)"
      using framewalk_all_wire[of "map W_CRYPTO ?fs" "[]"] ok_fs fit cap unfolding cb by (simp add: list_all_iff)
    then have w: "xs = walk_spec (map W_CRYPTO ?fs)" "fw_remaining fin = 0"
      using assms(6) unfolding quic_framewalk_init_def tk unfolding o(2) by simp_all
    have xs: "crypto_frames_of xs = ?fs" unfolding w using crypto_frames_of_walk[OF ok_fs] fit cap by simp
    have "fst (quic_crypto_stream_read (foldl recv_frame (quic_crypto_stream_rx_init r0) fs) rcap) = Some tls"
      if fs: "set fs = set (crypto_frames_of xs)" and rc: "length tls \<le> rcap" for fs
    proof -
      have d: "length tls < 2 ^ 63" using assms(2) by simp
      have pieces: "(\<forall>f \<in> set ?fs. op_of tls (Push (cr_offset f) (cr_data f)))
         \<and> (\<forall>i. length ([] :: bytes) \<le> i \<and> i < length tls \<longrightarrow>
             (\<exists>f \<in> set ?fs. unat (cr_offset f) \<le> i \<and> i < unat (cr_offset f) + length (cr_data f)))"
        by (rule crypto_frames_pieces) (use assms(1,2) in simp_all)
      have i0: "read_inv tls {} (as_read (quic_crypto_stream_rx_init r0))"
        unfolding as_read_init by (rule read_inv_init) (simp add: as_read_def assms(7))
      have inv: "read_inv tls ({} \<union> {i. \<exists>f \<in> set fs. op_covers (Push (cr_offset f) (cr_data f)) i})
          (as_read (foldl recv_frame (quic_crypto_stream_rx_init r0) fs))
        \<and> cx_read_upto (foldl recv_frame (quic_crypto_stream_rx_init r0) fs) = cx_read_upto (quic_crypto_stream_rx_init r0)"
        by (rule recv_frames_inv[OF i0 d]) (use ok_fs pieces in \<open>simp add: fs xs del: op_of.simps\<close>)
      have cov: "\<forall>i < length tls. i \<in> {} \<union> {i. \<exists>f \<in> set fs. op_covers (Push (cr_offset f) (cr_data f)) i}"
      proof (intro allI impI)
        fix i assume "i < length tls"
        then obtain f where f: "f \<in> set ?fs" "unat (cr_offset f) \<le> i" "i < unat (cr_offset f) + length (cr_data f)"
          using pieces by auto
        moreover have "unat (cr_offset f) + length (cr_data f) \<le> QUIC_REASM_CAP"
          using pieces f(1) assms(2) by (auto simp: QUIC_REASM_CAP_def)
        ultimately show "i \<in> {} \<union> {i. \<exists>f \<in> set fs. op_covers (Push (cr_offset f) (cr_data f)) i}" using fs xs by auto
      qed
      show ?thesis
        by (rule crypto_read_all[OF conjunct1[OF inv] _ cov rc d]) (use inv in \<open>simp add: quic_crypto_stream_rx_init_def\<close>)
    qed
    then show ?thesis using fit o w(2) by blast
  qed
  then show ?thesis using iff by blast
qed

theorem handshake_bytes_delivered_witness:
  "\<exists>out n. quic_crypto_stream_emit [1, 2, 3] 3 0 2 (replicate 20 0) 20 = (True, out, n)
     \<and> fst (quic_crypto_stream_read (foldl recv_frame (quic_crypto_stream_rx_init
          \<lparr>cx_reasm = \<lparr>ra_buf = replicate 4096 0, ra_have = [], ra_delivered = 7, ra_final_size = 0, ra_have_final = False\<rparr>, cx_read_upto = 9\<rparr>)
        (rev (crypto_frames_of (fst (framewalk_all (quic_framewalk_init (take n out) n)))))) 5) = Some [1, 2, 3]"
proof -
  let ?r = "\<lparr>cx_reasm = \<lparr>ra_buf = replicate 4096 0, ra_have = [], ra_delivered = 7, ra_final_size = 0, ra_have_final = False\<rparr>, cx_read_upto = 9\<rparr>"
  obtain ok out n where e: "quic_crypto_stream_emit [1, 2, 3] 3 0 2 (replicate 20 0) 20 = (ok, out, n)"
    by (cases "quic_crypto_stream_emit [1, 2, 3] 3 0 2 (replicate 20 0) 20") auto
  obtain xs fin where w: "framewalk_all (quic_framewalk_init (take n out) n) = (xs, fin)" by fastforce
  have l: "length [1, 2, 3 :: u8] = 3" by simp
  have cf: "crypto_frames 0 2 [1, 2, 3] = [\<lparr>cr_offset = 0, cr_length = 2, cr_data = [1, 2]\<rparr>, \<lparr>cr_offset = 2, cr_length = 1, cr_data = [3]\<rparr>]"
    by (simp add: crypto_frames.simps)
  have fit: "length (crypto_bytes (crypto_frames 0 2 [1, 2, 3])) \<le> 20"
    unfolding cf by (simp add: crypto_bytes_def crypto_wire_def varint_wire_small)
  have t: "(ok \<longleftrightarrow> length (crypto_bytes (crypto_frames 0 2 [1, 2, 3])) \<le> 20)
    \<and> (ok \<longrightarrow> n \<le> 20 \<and> fw_remaining fin = 0
      \<and> (\<forall>fs. set fs = set (crypto_frames_of xs) \<longrightarrow> length [1, 2, 3 :: u8] \<le> 5 \<longrightarrow>
          fst (quic_crypto_stream_read (foldl recv_frame (quic_crypto_stream_rx_init ?r) fs) 5) = Some [1, 2, 3]))"
    by (rule handshake_bytes_delivered[OF _ _ _ _ e[folded l] w]) (simp_all add: QUIC_REASM_CAP_def)
  then have "ok" using fit by blast
  moreover have "fst (quic_crypto_stream_read (foldl recv_frame (quic_crypto_stream_rx_init ?r) (rev (crypto_frames_of xs))) 5) = Some [1, 2, 3]"
    using t \<open>ok\<close> by (simp only: set_rev l)
  ultimately show ?thesis using e w by (intro exI[of _ out] exI[of _ n]) simp
qed

end
