(* ===== verification/Conn_Lifecycle.thy ===== *)
theory Conn_Lifecycle
  imports Fsm
begin

text \<open>
  The life of a connection, \<^verbatim>\<open>src/transport/conn/lifecycle/\<close>: phases and packet number counters
  (\<^verbatim>\<open>conn/conn.c\<close>), connection ID comparison (\<^verbatim>\<open>conn/cidnego.c\<close>, \<^verbatim>\<open>conn/demux.c\<close>), idle and close timers
  (\<^verbatim>\<open>closelife/\<close>, \<^verbatim>\<open>idledrive/\<close>).
\<close>

section \<open>conn.c\<close>

datatype quic_phase = QUIC_PHASE_INITIAL | QUIC_PHASE_HANDSHAKE | QUIC_PHASE_CONFIRMED
  | QUIC_PHASE_CLOSING | QUIC_PHASE_DRAINING | QUIC_PHASE_CLOSED

datatype quic_conn_event = QUIC_CONN_EV_HS_PROGRESS | QUIC_CONN_EV_HS_CONFIRMED | QUIC_CONN_EV_CLOSE
  | QUIC_CONN_EV_DRAIN | QUIC_CONN_EV_CLOSED

datatype quic_pn_space = QUIC_PN_INITIAL | QUIC_PN_HANDSHAKE | QUIC_PN_APPLICATION

record quic_conn =
  cn_phase :: quic_phase
  cn_next_pn :: "quic_pn_space \<Rightarrow> u64"

definition phase_rows :: "(quic_phase, quic_conn_event) quic_fsm_row list" where
  "phase_rows =
     [(QUIC_PHASE_INITIAL, QUIC_CONN_EV_HS_PROGRESS, QUIC_PHASE_HANDSHAKE),
      (QUIC_PHASE_HANDSHAKE, QUIC_CONN_EV_HS_CONFIRMED, QUIC_PHASE_CONFIRMED),
      (QUIC_PHASE_INITIAL, QUIC_CONN_EV_CLOSE, QUIC_PHASE_CLOSING),
      (QUIC_PHASE_HANDSHAKE, QUIC_CONN_EV_CLOSE, QUIC_PHASE_CLOSING),
      (QUIC_PHASE_CONFIRMED, QUIC_CONN_EV_CLOSE, QUIC_PHASE_CLOSING),
      (QUIC_PHASE_INITIAL, QUIC_CONN_EV_DRAIN, QUIC_PHASE_DRAINING),
      (QUIC_PHASE_HANDSHAKE, QUIC_CONN_EV_DRAIN, QUIC_PHASE_DRAINING),
      (QUIC_PHASE_CONFIRMED, QUIC_CONN_EV_DRAIN, QUIC_PHASE_DRAINING),
      (QUIC_PHASE_CLOSING, QUIC_CONN_EV_CLOSED, QUIC_PHASE_CLOSED),
      (QUIC_PHASE_DRAINING, QUIC_CONN_EV_CLOSED, QUIC_PHASE_CLOSED)]"

definition quic_conn_init :: quic_conn where
  "quic_conn_init = \<lparr>cn_phase = QUIC_PHASE_INITIAL, cn_next_pn = (\<lambda>_. 0)\<rparr>"

definition quic_conn_step :: "quic_conn \<Rightarrow> quic_conn_event \<Rightarrow> bool \<times> quic_conn" where
  "quic_conn_step c ev =
     (case quic_fsm_step (cn_phase c) phase_rows ev of (ok, st) \<Rightarrow> (ok, c\<lparr>cn_phase := st\<rparr>))"

definition app_space_allowed :: "quic_conn \<Rightarrow> quic_pn_space \<Rightarrow> bool" where
  "app_space_allowed c space =
     (if space \<noteq> QUIC_PN_APPLICATION then True else cn_phase c = QUIC_PHASE_CONFIRMED)"

definition quic_conn_next_pn :: "quic_conn \<Rightarrow> quic_pn_space \<Rightarrow> u64 option \<times> quic_conn" where
  "quic_conn_next_pn c space =
     (if \<not> app_space_allowed c space then (None, c)
      else (Some (cn_next_pn c space), c\<lparr>cn_next_pn := (cn_next_pn c)(space := cn_next_pn c space + 1)\<rparr>))"

section \<open>cidnego.c, demux.c\<close>

text \<open>\<open>Some\<close> of the destination buffer and its length, or \<open>None\<close> for the result 0.\<close>

definition quic_cidnego_peer_dcid :: "bytes \<Rightarrow> usz \<Rightarrow> bytes \<Rightarrow> (bytes \<times> usz) option" where
  "quic_cidnego_peer_dcid peer_scid scid_len our_dcid =
     (if scid_len > 20 then None else Some (overwrite our_dcid 0 (map (rd peer_scid) [0..<scid_len]), scid_len))"

definition quic_cidnego_match :: "bytes \<Rightarrow> usz \<Rightarrow> bytes \<Rightarrow> usz \<Rightarrow> bool" where
  "quic_cidnego_match a a_len b b_len =
     (let n = (if a_len < b_len then a_len else b_len);
          eq = (a_len = b_len)
      in foldl (\<lambda>eq i. eq \<and> rd a i = rd b i) eq [0..<n])"

definition quic_demux_match :: "bytes \<Rightarrow> usz \<Rightarrow> bytes \<Rightarrow> usz \<Rightarrow> bool" where
  "quic_demux_match dcid dcid_len conn_cid cid_len =
     (if dcid_len \<noteq> cid_len then False
      else foldl (\<lambda>d i. d OR (rd dcid i XOR rd conn_cid i)) (0 :: u8) [0..<dcid_len] = 0)"

section \<open>closelife.c, termgate.c\<close>

datatype quic_life_phase = QUIC_LIFE_OPEN | QUIC_LIFE_CLOSING | QUIC_LIFE_DRAINING | QUIC_LIFE_CLOSED

record quic_life =
  lf_phase :: quic_life_phase
  lf_idle_ticks :: u64
  lf_idle_max :: u64
  lf_close_ticks :: u64
  lf_close_max :: u64
  lf_sent_close :: bool
  lf_notified :: bool

definition quic_life_init :: "u64 \<Rightarrow> u64 \<Rightarrow> quic_life" where
  "quic_life_init idle_max close_max =
     \<lparr>lf_phase = QUIC_LIFE_OPEN, lf_idle_ticks = 0, lf_idle_max = idle_max, lf_close_ticks = 0,
      lf_close_max = close_max, lf_sent_close = False, lf_notified = False\<rparr>"

definition tick_open :: "quic_life \<Rightarrow> quic_life" where
  "tick_open l =
     (let l = l\<lparr>lf_idle_ticks := lf_idle_ticks l + 1\<rparr>
      in if lf_idle_ticks l \<ge> lf_idle_max l then l\<lparr>lf_phase := QUIC_LIFE_CLOSED\<rparr> else l)"

definition tick_closing :: "quic_life \<Rightarrow> quic_life" where
  "tick_closing l =
     (let l = l\<lparr>lf_close_ticks := lf_close_ticks l + 1\<rparr>
      in if lf_close_ticks l \<ge> lf_close_max l then l\<lparr>lf_phase := QUIC_LIFE_CLOSED\<rparr> else l)"

definition quic_life_tick :: "quic_life \<Rightarrow> quic_life" where
  "quic_life_tick l =
     (if lf_phase l = QUIC_LIFE_OPEN then tick_open l
      else if lf_phase l = QUIC_LIFE_CLOSED then l
      else tick_closing l)"

definition quic_life_on_recv :: "quic_life \<Rightarrow> quic_life" where
  "quic_life_on_recv l = (if lf_phase l = QUIC_LIFE_OPEN then l\<lparr>lf_idle_ticks := 0\<rparr> else l)"

definition quic_life_on_send :: "quic_life \<Rightarrow> quic_life" where
  "quic_life_on_send l = (if lf_phase l = QUIC_LIFE_OPEN then l\<lparr>lf_idle_ticks := 0\<rparr> else l)"

definition quic_life_close :: "quic_life \<Rightarrow> quic_life" where
  "quic_life_close l =
     (if lf_phase l \<noteq> QUIC_LIFE_OPEN then l
      else l\<lparr>lf_phase := QUIC_LIFE_CLOSING, lf_sent_close := True, lf_close_ticks := 0, lf_notified := True\<rparr>)"

definition quic_life_on_peer_close :: "quic_life \<Rightarrow> quic_life" where
  "quic_life_on_peer_close l =
     (if lf_phase l \<noteq> QUIC_LIFE_OPEN then l
      else l\<lparr>lf_phase := QUIC_LIFE_DRAINING, lf_close_ticks := 0, lf_notified := True\<rparr>)"

definition quic_life_on_reset :: "quic_life \<Rightarrow> quic_life" where
  "quic_life_on_reset l = (if lf_phase l \<noteq> QUIC_LIFE_CLOSED then l\<lparr>lf_phase := QUIC_LIFE_CLOSED\<rparr> else l)"

datatype quic_send_kind = QUIC_SEND_NONE | QUIC_SEND_CC | QUIC_SEND_APPDATA

fun send_by_phase :: "quic_life_phase \<Rightarrow> quic_send_kind" where
  "send_by_phase QUIC_LIFE_OPEN = QUIC_SEND_APPDATA"
| "send_by_phase QUIC_LIFE_CLOSING = QUIC_SEND_CC"
| "send_by_phase QUIC_LIFE_DRAINING = QUIC_SEND_NONE"
| "send_by_phase QUIC_LIFE_CLOSED = QUIC_SEND_NONE"

definition quic_life_send_kind :: "quic_life \<Rightarrow> quic_send_kind" where
  "quic_life_send_kind l = send_by_phase (lf_phase l)"

definition quic_life_close_due :: "quic_life \<Rightarrow> bool" where
  "quic_life_close_due l \<longleftrightarrow> lf_close_ticks l > 0 \<and> lf_close_ticks l \<ge> lf_close_max l"

definition quic_life_idle_due :: "quic_life \<Rightarrow> bool" where
  "quic_life_idle_due l \<longleftrightarrow> lf_phase l = QUIC_LIFE_OPEN \<and> lf_idle_ticks l \<ge> lf_idle_max l"

section \<open>draining.c, idlefloor.c, idletimeout.c, keepalive.c\<close>

definition quic_draining_period :: "u64 \<Rightarrow> u64" where
  "quic_draining_period pto = 3 * pto"

definition quic_draining_done :: "u64 \<Rightarrow> u64 \<Rightarrow> u64 \<Rightarrow> bool" where
  "quic_draining_done close_time now pto \<longleftrightarrow> now \<ge> close_time + quic_draining_period pto"

definition quic_draining_may_send :: "bool \<Rightarrow> bool" where
  "quic_draining_may_send in_draining = (\<not> in_draining)"

definition quic_idle_floor :: "u64 \<Rightarrow> u64 \<Rightarrow> u64" where
  "quic_idle_floor idle_timeout pto = quic_u64_max idle_timeout (3 * pto)"

definition quic_idle_should_close :: "u64 \<Rightarrow> u64 \<Rightarrow> bool" where
  "quic_idle_should_close elapsed effective_idle \<longleftrightarrow> elapsed \<ge> effective_idle"

definition as_limit :: "u64 \<Rightarrow> u64" where
  "as_limit v = (if v \<noteq> 0 then v else - 1)"

definition quic_idle_effective :: "u64 \<Rightarrow> u64 \<Rightarrow> u64" where
  "quic_idle_effective local peer =
     (let l = as_limit local; p = as_limit peer;
          m = (if l < p then l else p)
      in if m = - 1 then 0 else m)"

definition quic_idle_expired :: "u64 \<Rightarrow> u64 \<Rightarrow> u64 \<Rightarrow> bool" where
  "quic_idle_expired last_activity now effective \<longleftrightarrow> effective \<noteq> 0 \<and> now - last_activity \<ge> effective"

definition quic_keepalive_interval :: "u64 \<Rightarrow> u64" where
  "quic_keepalive_interval idle_timeout = idle_timeout div 2"

definition quic_keepalive_due :: "u64 \<Rightarrow> u64 \<Rightarrow> u64 \<Rightarrow> bool" where
  "quic_keepalive_due last_activity now idle_timeout \<longleftrightarrow> now - last_activity \<ge> quic_keepalive_interval idle_timeout"

section \<open>idledrive: closesend.c, idledrive.c, idlenego.c\<close>

definition quic_idledrive_should_close :: "bool \<Rightarrow> bool \<Rightarrow> bool" where
  "quic_idledrive_should_close error_occurred idle_expired \<longleftrightarrow> error_occurred \<or> idle_expired"

record quic_idledrive =
  id_idle_timeout :: u64
  id_last_activity :: u64

definition quic_idledrive_init :: "u64 \<Rightarrow> quic_idledrive" where
  "quic_idledrive_init idle_timeout = \<lparr>id_idle_timeout = idle_timeout, id_last_activity = 0\<rparr>"

definition quic_idledrive_on_activity :: "quic_idledrive \<Rightarrow> u64 \<Rightarrow> quic_idledrive" where
  "quic_idledrive_on_activity s now = s\<lparr>id_last_activity := now\<rparr>"

definition quic_idledrive_expired :: "quic_idledrive \<Rightarrow> u64 \<Rightarrow> bool" where
  "quic_idledrive_expired s now \<longleftrightarrow> id_idle_timeout s \<noteq> 0 \<and> now - id_last_activity s \<ge> id_idle_timeout s"

definition idlenego_as_limit :: "u64 \<Rightarrow> u64" where
  "idlenego_as_limit v = (if v \<noteq> 0 then v else - 1)"

definition quic_idledrive_effective :: "u64 \<Rightarrow> u64 \<Rightarrow> u64" where
  "quic_idledrive_effective local_timeout peer_timeout =
     (let l = idlenego_as_limit local_timeout; p = idlenego_as_limit peer_timeout;
          m = (if l < p then l else p)
      in if m = - 1 then 0 else m)"

section \<open>Phases and packet numbers\<close>

fun phase_rank :: "quic_phase \<Rightarrow> nat" where
  "phase_rank QUIC_PHASE_INITIAL = 0"
| "phase_rank QUIC_PHASE_HANDSHAKE = 1"
| "phase_rank QUIC_PHASE_CONFIRMED = 2"
| "phase_rank QUIC_PHASE_CLOSING = 3"
| "phase_rank QUIC_PHASE_DRAINING = 3"
| "phase_rank QUIC_PHASE_CLOSED = 4"

interpretation phase_fsm: ranked_fsm phase_rows phase_rank 4
proof unfold_locales
  fix s :: quic_phase show "phase_rank s \<le> 4" by (cases s) simp_all
qed (auto simp: phase_rows_def)

datatype conn_op = ConnEvent quic_conn_event | ConnNext quic_pn_space

text \<open>A run records the phase events accepted, and each packet number with the phase it was
  allocated in.\<close>

fun conn_run :: "quic_conn \<Rightarrow> conn_op list \<Rightarrow> nat \<times> (quic_pn_space \<times> u64 \<times> quic_phase) list \<times> quic_conn" where
  "conn_run c [] = (0, [], c)"
| "conn_run c (ConnEvent e # ops) =
     (case quic_conn_step c e of (ok, c') \<Rightarrow>
        case conn_run c' ops of (n, out, c'') \<Rightarrow> (if ok then Suc n else n, out, c''))"
| "conn_run c (ConnNext sp # ops) =
     (case quic_conn_next_pn c sp of (r, c') \<Rightarrow>
        case conn_run c' ops of (n, out, c'') \<Rightarrow>
          (n, (case r of None \<Rightarrow> out | Some pn \<Rightarrow> (sp, pn, cn_phase c) # out), c''))"

definition space_pns :: "quic_pn_space \<Rightarrow> (quic_pn_space \<times> u64 \<times> quic_phase) list \<Rightarrow> u64 list" where
  "space_pns sp out = map (\<lambda>(_, pn, _). pn) (filter (\<lambda>(s, _). s = sp) out)"

lemma conn_run_rank: "conn_run c ops = (n, out, c') \<Longrightarrow> phase_rank (cn_phase c) + n \<le> phase_rank (cn_phase c')"
proof (induction c ops arbitrary: n out rule: conn_run.induct)
  case (2 c e ops)
  obtain ok st where s: "quic_fsm_step (cn_phase c) phase_rows e = (ok, st)" by fastforce
  obtain n1 where r: "conn_run (c\<lparr>cn_phase := st\<rparr>) ops = (n1, out, c')" "n = (if ok then Suc n1 else n1)"
    using "2.prems" s by (auto simp: quic_conn_step_def split: prod.splits)
  have "phase_rank st + n1 \<le> phase_rank (cn_phase c')"
    using "2.IH"[OF _ r(1), of ok] s by (simp add: quic_conn_step_def)
  moreover have "phase_rank (cn_phase c) + (if ok then 1 else 0) \<le> phase_rank st"
    using s fsm_step_row[of "cn_phase c" phase_rows e st] phase_fsm.rank_rises[of "cn_phase c" e st]
      fsm_step_refused[of "cn_phase c" phase_rows e] by (cases ok) auto
  ultimately show ?case using r(2) by (cases ok) auto
next
  case (3 c sp ops)
  obtain r c1 where s: "quic_conn_next_pn c sp = (r, c1)" by fastforce
  then have "cn_phase c1 = cn_phase c" by (auto simp: quic_conn_next_pn_def split: if_splits)
  then show ?case using "3.prems" "3.IH"[OF s[symmetric]] s by (auto split: prod.splits)
qed simp

lemma conn_run_pns:
  "conn_run c ops = (n, out, c') \<Longrightarrow>
   space_pns sp out = map (\<lambda>i. cn_next_pn c sp + of_nat i) [0..<length (space_pns sp out)]
   \<and> (\<forall>(s, pn, ph) \<in> set out. s = QUIC_PN_APPLICATION \<longrightarrow> ph = QUIC_PHASE_CONFIRMED)"
proof (induction c ops arbitrary: n out rule: conn_run.induct)
  case (2 c e ops)
  obtain ok st where s: "quic_conn_step c e = (ok, st)" by fastforce
  then have "cn_next_pn st = cn_next_pn c" by (auto simp: quic_conn_step_def split: prod.splits)
  then show ?case using "2.prems" "2.IH"[OF s[symmetric]] s by (auto split: prod.splits)
next
  case (3 c sq ops)
  obtain r c1 where s: "quic_conn_next_pn c sq = (r, c1)" by fastforce
  obtain out1 where o: "conn_run c1 ops = (n, out1, c')" "out = (case r of None \<Rightarrow> out1 | Some pn \<Rightarrow> (sq, pn, cn_phase c) # out1)"
    using "3.prems" s by (auto split: prod.splits)
  note ih = "3.IH"[OF s[symmetric] o(1)]
  show ?case
  proof (cases r)
    case None
    then have "c1 = c" using s by (auto simp: quic_conn_next_pn_def split: if_splits)
    then show ?thesis using ih o None by simp
  next
    case (Some pn)
    then have c1: "pn = cn_next_pn c sq" "cn_next_pn c1 = (cn_next_pn c)(sq := cn_next_pn c sq + 1)" "app_space_allowed c sq"
      using s by (auto simp: quic_conn_next_pn_def split: if_splits)
    have shift: "map (\<lambda>i. (x + 1) + of_nat i) [0..<k] = map (\<lambda>i. x + of_nat i) [1..<Suc k]" for x :: u64 and k
      by (simp add: map_Suc_upt[symmetric] comp_def add.assoc del: map_Suc_upt upt_Suc)
    have "space_pns sp out = map (\<lambda>i. cn_next_pn c sp + of_nat i) [0..<length (space_pns sp out)]"
    proof (cases "sp = sq")
      case True
      have e: "space_pns sp out = pn # space_pns sp out1" using o(2) Some True by (simp add: space_pns_def)
      have "space_pns sp out1 = map (\<lambda>i. cn_next_pn c sp + of_nat i) [1..<Suc (length (space_pns sp out1))]"
        using conjunct1[OF ih] c1(2) True shift[of "cn_next_pn c sp" "length (space_pns sp out1)"] by (simp del: upt_Suc)
      then show ?thesis unfolding e using c1(1) True by (simp add: upt_conv_Cons del: upt_Suc)
    next
      case False
      then have "space_pns sp out = space_pns sp out1" using o(2) Some by (simp add: space_pns_def)
      then show ?thesis using conjunct1[OF ih] c1(2) False by simp
    qed
    then show ?thesis using ih o(2) Some c1(3) by (auto simp: app_space_allowed_def split: if_splits)
  qed
qed (simp add: space_pns_def)

text \<open>C30: A connection never reuses a packet number and never leaves its life cycle. Under every
  interleaving of phase events and allocations, each space hands out 0, 1, 2 and so on without a
  gap, the application space only while the handshake is confirmed and the connection
  open; at most four phase events are ever accepted, and none once the connection is closed.\<close>

theorem connection_packet_numbers:
  "case conn_run quic_conn_init ops of (n, out, c) \<Rightarrow>
     space_pns sp out = map of_nat [0..<length (space_pns sp out)]
     \<and> (\<forall>(s, pn, ph) \<in> set out. s = QUIC_PN_APPLICATION \<longrightarrow> ph = QUIC_PHASE_CONFIRMED)
     \<and> n \<le> 4 \<and> (cn_phase c = QUIC_PHASE_CLOSED \<longrightarrow> (\<forall>e. quic_conn_step c e = (False, c)))"
proof -
  obtain n out c where r: "conn_run quic_conn_init ops = (n, out, c)" by (cases "conn_run quic_conn_init ops")
  have "n \<le> 4" using conn_run_rank[OF r] phase_fsm.rank_top[of "cn_phase c"] by simp
  moreover have "cn_phase c = QUIC_PHASE_CLOSED \<longrightarrow> (\<forall>e. quic_conn_step c e = (False, c))"
    by (auto simp: quic_conn_step_def quic_fsm_step_def phase_rows_def row_matches_def)
  moreover have "space_pns sp out = map of_nat [0..<length (space_pns sp out)]"
    using conjunct1[OF conn_run_pns[OF r, of sp]] by (simp add: quic_conn_init_def)
  moreover have "\<forall>(s, pn, ph) \<in> set out. s = QUIC_PN_APPLICATION \<longrightarrow> ph = QUIC_PHASE_CONFIRMED"
    by (rule conjunct2[OF conn_run_pns[OF r]])
  ultimately show ?thesis using r by simp
qed

theorem connection_packet_numbers_witness:
  "fst (conn_run quic_conn_init [ConnNext QUIC_PN_INITIAL, ConnEvent QUIC_CONN_EV_HS_PROGRESS, ConnNext QUIC_PN_APPLICATION,
     ConnEvent QUIC_CONN_EV_CLOSE, ConnEvent QUIC_CONN_EV_CLOSED, ConnEvent QUIC_CONN_EV_HS_CONFIRMED]) = 3
   \<and> space_pns QUIC_PN_APPLICATION (fst (snd (conn_run quic_conn_init [ConnNext QUIC_PN_INITIAL,
       ConnEvent QUIC_CONN_EV_HS_PROGRESS, ConnNext QUIC_PN_APPLICATION, ConnEvent QUIC_CONN_EV_CLOSE,
       ConnEvent QUIC_CONN_EV_CLOSED, ConnEvent QUIC_CONN_EV_HS_CONFIRMED]))) = []"
  using connection_packet_numbers[of QUIC_PN_INITIAL "[ConnNext QUIC_PN_INITIAL, ConnEvent QUIC_CONN_EV_HS_PROGRESS, ConnNext QUIC_PN_APPLICATION,
     ConnEvent QUIC_CONN_EV_CLOSE, ConnEvent QUIC_CONN_EV_CLOSED, ConnEvent QUIC_CONN_EV_HS_CONFIRMED]"]
  by (simp add: quic_conn_step_def quic_fsm_step_def phase_rows_def row_matches_def quic_conn_next_pn_def
      quic_conn_init_def app_space_allowed_def space_pns_def)

section \<open>Closing\<close>

datatype life_op = LifeTick | LifeRecv | LifeSend | LifeClose | LifePeerClose | LifeReset

fun life_step :: "quic_life \<Rightarrow> life_op \<Rightarrow> quic_life" where
  "life_step l LifeTick = quic_life_tick l"
| "life_step l LifeRecv = quic_life_on_recv l"
| "life_step l LifeSend = quic_life_on_send l"
| "life_step l LifeClose = quic_life_close l"
| "life_step l LifePeerClose = quic_life_on_peer_close l"
| "life_step l LifeReset = quic_life_on_reset l"

lemmas life_defs = quic_life_tick_def tick_open_def tick_closing_def quic_life_on_recv_def quic_life_on_send_def
  quic_life_close_def quic_life_on_peer_close_def quic_life_on_reset_def Let_def

text \<open>The number of silent ticks after which the connection is closed.\<close>

fun ticks_left :: "quic_life \<Rightarrow> nat" where
  "ticks_left l =
     (case lf_phase l of
        QUIC_LIFE_OPEN \<Rightarrow> max 1 (unat (lf_idle_max l) - unat (lf_idle_ticks l))
      | QUIC_LIFE_CLOSED \<Rightarrow> 0
      | _ \<Rightarrow> max 1 (unat (lf_close_max l) - unat (lf_close_ticks l)))"

definition life_inv :: "u64 \<Rightarrow> u64 \<Rightarrow> quic_life \<Rightarrow> bool" where
  "life_inv im cm l \<longleftrightarrow> lf_idle_max l = im \<and> lf_close_max l = cm
     \<and> (lf_phase l = QUIC_LIFE_OPEN \<longrightarrow> (lf_idle_ticks l = 0 \<or> lf_idle_ticks l < im) \<and> \<not> lf_notified l)
     \<and> (lf_phase l = QUIC_LIFE_CLOSING \<or> lf_phase l = QUIC_LIFE_DRAINING \<longrightarrow>
          (lf_close_ticks l = 0 \<or> lf_close_ticks l < cm) \<and> lf_notified l)
     \<and> (lf_sent_close l \<longrightarrow> lf_notified l)"

lemma life_step_inv: "life_inv im cm l \<Longrightarrow> life_inv im cm (life_step l e)"
  by (cases e; cases "lf_phase l") (auto simp: life_inv_def life_defs not_le)

lemma life_run_inv: "life_inv im cm l \<Longrightarrow> life_inv im cm (foldl life_step l es)"
  by (induction es arbitrary: l) (simp_all add: life_step_inv)

lemma life_init_inv: "life_inv im cm (quic_life_init im cm)"
  by (simp add: life_inv_def quic_life_init_def)

lemma unat_suc_tick: "t = 0 \<or> t < (m :: u64) \<Longrightarrow> \<not> m \<le> t + 1 \<Longrightarrow> unat (t + 1) = Suc (unat t)"
  using unsigned_less[of m, where ?'a = nat] by (auto simp: unat_word_ariths word_less_nat_alt)

lemma tick_left:
  assumes "life_inv im cm l" shows "ticks_left (quic_life_tick l) \<le> ticks_left l - 1"
proof (cases "lf_phase l")
  case QUIC_LIFE_OPEN
  then show ?thesis using assms unat_suc_tick[of "lf_idle_ticks l" im]
    by (auto simp: life_inv_def life_defs word_le_nat_alt)
next
  case QUIC_LIFE_CLOSING
  then show ?thesis using assms unat_suc_tick[of "lf_close_ticks l" cm]
    by (auto simp: life_inv_def life_defs word_le_nat_alt)
next
  case QUIC_LIFE_DRAINING
  then show ?thesis using assms unat_suc_tick[of "lf_close_ticks l" cm]
    by (auto simp: life_inv_def life_defs word_le_nat_alt)
qed (simp add: life_defs)

lemma ticks_close:
  "life_inv im cm l \<Longrightarrow> ticks_left l \<le> n \<Longrightarrow> lf_phase ((quic_life_tick ^^ n) l) = QUIC_LIFE_CLOSED"
proof (induction n arbitrary: l)
  case 0
  then show ?case by (cases "lf_phase l") simp_all
next
  case (Suc n)
  have "life_inv im cm (quic_life_tick l)" using life_step_inv[OF Suc.prems(1), of LifeTick] by simp
  then show ?case using Suc.IH[of "quic_life_tick l"] tick_left[OF Suc.prems(1)] Suc.prems(2) by (simp add: funpow_swap1 del: ticks_left.simps)
qed

lemma not_open_stays:
  "lf_phase l \<noteq> QUIC_LIFE_OPEN \<Longrightarrow> lf_phase (foldl life_step l es) \<noteq> QUIC_LIFE_OPEN"
proof (induction es arbitrary: l)
  case (Cons e es)
  have "lf_phase (life_step l e) \<noteq> QUIC_LIFE_OPEN" using Cons.prems by (cases e) (auto simp: life_defs)
  then show ?case using Cons.IH by simp
qed simp

text \<open>C31: Every connection comes to an end. Whatever has happened before, silence for as many ticks as the larger
  of the idle and the close limit (at least one) leaves it closed; once it has left
  the open phase no further event lets it send application data again; and the
  application is notified exactly when the connection entered closing or draining.\<close>

theorem connection_winds_down:
  assumes "l = foldl life_step (quic_life_init im cm) es" "max 1 (max (unat im) (unat cm)) \<le> n"
  shows "lf_phase ((quic_life_tick ^^ n) l) = QUIC_LIFE_CLOSED
    \<and> (lf_phase l \<noteq> QUIC_LIFE_OPEN \<longrightarrow> quic_life_send_kind (foldl life_step l es') \<noteq> QUIC_SEND_APPDATA)
    \<and> (lf_notified l \<longleftrightarrow> (\<exists>k. lf_phase (foldl life_step (quic_life_init im cm) (take k es)) \<in> {QUIC_LIFE_CLOSING, QUIC_LIFE_DRAINING}))"
proof -
  have i: "life_inv im cm l" using life_run_inv[OF life_init_inv] assms(1) by simp
  then have "ticks_left l \<le> max 1 (max (unat im) (unat cm))" by (auto simp: life_inv_def split: quic_life_phase.splits)
  then have 1: "lf_phase ((quic_life_tick ^^ n) l) = QUIC_LIFE_CLOSED" using ticks_close[OF i] assms(2) by (meson order_trans)
  have 2: "quic_life_send_kind (foldl life_step l es') \<noteq> QUIC_SEND_APPDATA" if "lf_phase l \<noteq> QUIC_LIFE_OPEN"
    using not_open_stays[OF that, of es'] by (cases "lf_phase (foldl life_step l es')") (simp_all add: quic_life_send_kind_def)
  have 3: "lf_notified (foldl life_step m es) \<longleftrightarrow> lf_notified m \<or>
      (\<exists>k. lf_phase (foldl life_step m (take k es)) \<in> {QUIC_LIFE_CLOSING, QUIC_LIFE_DRAINING})" if "life_inv im cm m" for m
    using that
  proof (induction es arbitrary: m)
    case Nil
    then show ?case by (auto simp: life_inv_def)
  next
    case (Cons e es)
    have ex: "(\<exists>k. P (take k (e # es))) \<longleftrightarrow> P [] \<or> (\<exists>k. P (e # take k es))" for P
      by (metis take_0 take_Suc_Cons not0_implies_Suc)
    have st: "lf_notified (life_step m e) \<longrightarrow> lf_notified m \<or> lf_phase (life_step m e) \<in> {QUIC_LIFE_CLOSING, QUIC_LIFE_DRAINING}"
      "lf_notified m \<longrightarrow> lf_notified (life_step m e)"
      "lf_phase m \<in> {QUIC_LIFE_CLOSING, QUIC_LIFE_DRAINING} \<longrightarrow> lf_notified m"
      using Cons.prems by (cases e; auto simp: life_defs life_inv_def)+
    have "lf_phase (life_step m e) \<in> {QUIC_LIFE_CLOSING, QUIC_LIFE_DRAINING} \<longrightarrow>
        (\<exists>k. lf_phase (foldl life_step (life_step m e) (take k es)) \<in> {QUIC_LIFE_CLOSING, QUIC_LIFE_DRAINING})"
      by (metis foldl_Nil take_0)
    then show ?case
      using Cons.IH[OF life_step_inv[OF Cons.prems], of e] st
        ex[of "\<lambda>es. lf_phase (foldl life_step m es) \<in> {QUIC_LIFE_CLOSING, QUIC_LIFE_DRAINING}"] by auto
  qed
  have "\<not> lf_notified (quic_life_init im cm)" by (simp add: quic_life_init_def)
  then show ?thesis using 1 2 3[OF life_init_inv] assms(1) by blast
qed

theorem connection_winds_down_witness:
  "lf_phase ((quic_life_tick ^^ 5) (foldl life_step (quic_life_init 5 3) [LifeTick, LifeRecv, LifeClose])) = QUIC_LIFE_CLOSED"
  using connection_winds_down[of _ 5 3 "[LifeTick, LifeRecv, LifeClose]" 5 "[]", OF refl] by simp

end
