(* ===== verification/Conn_Paths.thy ===== *)
theory Conn_Paths
  imports Packet_Header Conn_Lifecycle
begin

text \<open>
  Connection IDs and paths, \<^verbatim>\<open>src/transport/conn/cid/\<close>: the pool of issued connection IDs, the exchange
  of the first ones with its check against the transport parameters
  (\<^verbatim>\<open>src/tls/ext/tpverify/\<close>), migration, path validation and anti-amplification, path MTU
  discovery, accepting a Retry, token tags, the spin bit, stateless reset detection and its token map;
  and the observers and policies of \<^verbatim>\<open>src/transport/conn/loop/manage/\<close>. Deriving tokens needs
  HMAC and is not part of this theory.
\<close>

section \<open>cidpool.c\<close>

record quic_cidpool =
  cp_limit :: u64
  cp_next_seq :: u64
  cp_retire_lo :: u64

definition quic_cidpool_init :: "u64 \<Rightarrow> quic_cidpool" where
  "quic_cidpool_init limit = \<lparr>cp_limit = limit, cp_next_seq = 0, cp_retire_lo = 0\<rparr>"

definition quic_cidpool_active_count :: "quic_cidpool \<Rightarrow> u64" where
  "quic_cidpool_active_count p = cp_next_seq p - cp_retire_lo p"

definition quic_cidpool_issue :: "quic_cidpool \<Rightarrow> u64 option \<times> quic_cidpool" where
  "quic_cidpool_issue p =
     (if quic_cidpool_active_count p \<ge> cp_limit p then (None, p)
      else (Some (cp_next_seq p), p\<lparr>cp_next_seq := cp_next_seq p + 1\<rparr>))"

definition quic_cidpool_retire_prior_to :: "quic_cidpool \<Rightarrow> u64 \<Rightarrow> bool \<times> quic_cidpool" where
  "quic_cidpool_retire_prior_to p retire_prior_to =
     (if retire_prior_to > cp_next_seq p then (False, p)
      else (True, if retire_prior_to > cp_retire_lo p then p\<lparr>cp_retire_lo := retire_prior_to\<rparr> else p))"

section \<open>tpverify: ctcid.h, odcid.c, iscid.c, rscid.c\<close>

definition quic_tpverify_cid_eq :: "bytes \<Rightarrow> u8 \<Rightarrow> bytes \<Rightarrow> u8 \<Rightarrow> bool" where
  "quic_tpverify_cid_eq a alen b blen =
     (let d = alen XOR blen;
          n = (if alen < blen then alen else blen)
      in foldl (\<lambda>d i. d OR (rd a i XOR rd b i)) d [0..<unat n] = 0)"

definition quic_tpverify_odcid :: "bytes \<Rightarrow> u8 \<Rightarrow> bytes \<Rightarrow> u8 \<Rightarrow> bool" where
  "quic_tpverify_odcid sent_dcid sent_len tp_odcid tp_len = quic_tpverify_cid_eq sent_dcid sent_len tp_odcid tp_len"

definition quic_tpverify_iscid :: "bytes \<Rightarrow> u8 \<Rightarrow> bytes \<Rightarrow> u8 \<Rightarrow> bool" where
  "quic_tpverify_iscid first_scid scid_len tp_iscid tp_len = quic_tpverify_cid_eq first_scid scid_len tp_iscid tp_len"

definition presence_ok :: "bool \<Rightarrow> bool \<Rightarrow> bool" where
  "presence_ok retry_occurred tp_present \<longleftrightarrow> (\<not> retry_occurred) = (\<not> tp_present)"

definition quic_tpverify_rscid :: "bool \<Rightarrow> bytes \<Rightarrow> u8 \<Rightarrow> bytes \<Rightarrow> u8 \<Rightarrow> bool \<Rightarrow> bool" where
  "quic_tpverify_rscid retry_occurred retry_scid retry_len tp_rscid tp_len tp_present =
     (if \<not> presence_ok retry_occurred tp_present then False
      else if \<not> retry_occurred then True
      else quic_tpverify_cid_eq retry_scid retry_len tp_rscid tp_len)"

section \<open>cidxchg.c\<close>

record quic_cidxchg =
  x_init_dcid :: bytes
  x_init_dcid_len :: u8
  x_own_scid :: bytes
  x_own_scid_len :: u8
  x_dcid :: bytes
  x_dcid_len :: u8

definition cidxchg_fits :: "u8 \<Rightarrow> u8 \<Rightarrow> bool" where
  "cidxchg_fits a b \<longleftrightarrow> a \<le> 20 \<and> b \<le> 20"

definition cidxchg_set :: "bytes \<Rightarrow> bytes \<Rightarrow> u8 \<Rightarrow> bytes \<times> u8" where
  "cidxchg_set dst src len = (case quic_put_bytes dst 20 0 src (unat len) of (_, dst, _) \<Rightarrow> (dst, len))"

definition quic_cidxchg_init :: "quic_cidxchg \<Rightarrow> bytes \<Rightarrow> u8 \<Rightarrow> bytes \<Rightarrow> u8 \<Rightarrow> bool \<times> quic_cidxchg" where
  "quic_cidxchg_init x init_dcid dcid_len own_scid scid_len =
     (if \<not> cidxchg_fits dcid_len scid_len then (False, x)
      else case cidxchg_set (x_init_dcid x) init_dcid dcid_len of (a, alen) \<Rightarrow>
           case cidxchg_set (x_own_scid x) own_scid scid_len of (b, blen) \<Rightarrow>
           case cidxchg_set (x_dcid x) init_dcid dcid_len of (c, clen) \<Rightarrow>
             (True, x\<lparr>x_init_dcid := a, x_init_dcid_len := alen, x_own_scid := b, x_own_scid_len := blen,
                      x_dcid := c, x_dcid_len := clen\<rparr>))"

definition quic_cidxchg_on_server_scid :: "quic_cidxchg \<Rightarrow> bytes \<Rightarrow> u8 \<Rightarrow> bool \<times> quic_cidxchg" where
  "quic_cidxchg_on_server_scid x server_scid scid_len =
     (if scid_len > 20 then (False, x)
      else case cidxchg_set (x_dcid x) server_scid scid_len of (c, clen) \<Rightarrow> (True, x\<lparr>x_dcid := c, x_dcid_len := clen\<rparr>))"

definition quic_cidxchg_remember_odcid :: "quic_cidxchg \<Rightarrow> bytes \<Rightarrow> u8 \<Rightarrow> bool \<times> quic_cidxchg" where
  "quic_cidxchg_remember_odcid x initial_dcid len =
     (if len > 20 then (False, x)
      else case cidxchg_set (x_init_dcid x) initial_dcid len of (a, alen) \<Rightarrow>
             (True, x\<lparr>x_init_dcid := a, x_init_dcid_len := alen\<rparr>))"

definition quic_cidxchg_verify_odcid :: "quic_cidxchg \<Rightarrow> bytes \<Rightarrow> u8 \<Rightarrow> bool" where
  "quic_cidxchg_verify_odcid x odcid_tp len = quic_tpverify_odcid (x_init_dcid x) (x_init_dcid_len x) odcid_tp len"

section \<open>migrate.c\<close>

record quic_migrate =
  mg_handshake_confirmed :: bool
  mg_detected :: bool
  mg_challenged :: bool
  mg_validated :: bool
  mg_confirmed :: bool
  mg_cur_cid :: u64
  mg_cc_reset :: bool
  mg_port_only :: bool

definition quic_migrate_init :: "u64 \<Rightarrow> quic_migrate" where
  "quic_migrate_init cid =
     \<lparr>mg_handshake_confirmed = False, mg_detected = False, mg_challenged = False, mg_validated = False,
      mg_confirmed = False, mg_cur_cid = cid, mg_cc_reset = False, mg_port_only = False\<rparr>"

definition quic_migrate_detect :: "quic_migrate \<Rightarrow> quic_migrate" where
  "quic_migrate_detect m = (if mg_handshake_confirmed m then m\<lparr>mg_detected := True\<rparr> else m)"

definition quic_migrate_challenge :: "quic_migrate \<Rightarrow> quic_migrate" where
  "quic_migrate_challenge m = (if mg_detected m then m\<lparr>mg_challenged := True\<rparr> else m)"

definition quic_migrate_validate :: "quic_migrate \<Rightarrow> bool \<times> quic_migrate" where
  "quic_migrate_validate m =
     (if \<not> mg_detected m \<or> \<not> mg_challenged m then (False, m) else (True, m\<lparr>mg_validated := True\<rparr>))"

definition confirm_ok :: "quic_migrate \<Rightarrow> u64 \<Rightarrow> bool" where
  "confirm_ok m new_cid \<longleftrightarrow> mg_validated m \<and> new_cid \<noteq> mg_cur_cid m"

definition quic_migrate_confirm :: "quic_migrate \<Rightarrow> u64 \<Rightarrow> bool \<Rightarrow> bool \<times> quic_migrate" where
  "quic_migrate_confirm m new_cid port_only =
     (if \<not> confirm_ok m new_cid then (False, m)
      else (True, m\<lparr>mg_cur_cid := new_cid, mg_confirmed := True, mg_port_only := port_only, mg_cc_reset := \<not> port_only\<rparr>))"

section \<open>antiamp.c, path.c, prefaddr.c\<close>

definition quic_antiamp_budget :: "u64 \<Rightarrow> u64 \<Rightarrow> u64" where
  "quic_antiamp_budget received sent = (let cap = 3 * received in if sent \<ge> cap then 0 else cap - sent)"

definition quic_antiamp_can_send :: "u64 \<Rightarrow> u64 \<Rightarrow> u64 \<Rightarrow> bool" where
  "quic_antiamp_can_send received sent want \<longleftrightarrow> want \<le> quic_antiamp_budget received sent"

text \<open>The gate of the datagram loop, \<^verbatim>\<open>udploop/antiamp_gate.c\<close>.\<close>

definition quic_udploop_send_allowed :: "u64 \<Rightarrow> u64 \<Rightarrow> bool \<Rightarrow> usz \<Rightarrow> bool" where
  "quic_udploop_send_allowed received_bytes sent_bytes address_validated next_len =
     (if address_validated then True else quic_antiamp_can_send received_bytes sent_bytes (of_nat next_len))"

definition QUIC_PATH_COUNT :: usz where "QUIC_PATH_COUNT = 2"

record quic_path_state =
  ps_challenge :: u64
  ps_bytes_sent :: u64
  ps_bytes_received :: u64
  ps_validated :: bool
  ps_confirmed :: bool

record quic_path =
  pt_paths :: "quic_path_state list"
  pt_active :: usz

definition quic_path_init :: quic_path where
  "quic_path_init =
     \<lparr>pt_paths = replicate QUIC_PATH_COUNT \<lparr>ps_challenge = 0, ps_bytes_sent = 0, ps_bytes_received = 0,
        ps_validated = False, ps_confirmed = False\<rparr>, pt_active = 0\<rparr>"

definition quic_path_send_challenge :: "quic_path \<Rightarrow> usz \<Rightarrow> u64 \<Rightarrow> quic_path" where
  "quic_path_send_challenge p path value =
     p\<lparr>pt_paths := (pt_paths p)[path := (pt_paths p ! path)\<lparr>ps_challenge := value\<rparr>]\<rparr>"

definition response_matches :: "quic_path_state \<Rightarrow> u64 \<Rightarrow> bool" where
  "response_matches s value \<longleftrightarrow> ps_challenge s \<noteq> 0 \<and> ps_challenge s = value"

definition quic_path_recv_response :: "quic_path \<Rightarrow> usz \<Rightarrow> u64 \<Rightarrow> bool \<times> quic_path" where
  "quic_path_recv_response p path value =
     (if \<not> response_matches (pt_paths p ! path) value then (False, p)
      else (True, p\<lparr>pt_paths := (pt_paths p)[path := (pt_paths p ! path)\<lparr>ps_validated := True\<rparr>]\<rparr>))"

definition quic_path_can_send :: "quic_path \<Rightarrow> usz \<Rightarrow> u64 \<Rightarrow> bool" where
  "quic_path_can_send p path n =
     (let s = pt_paths p ! path
      in if ps_validated s then True else ps_bytes_sent s + n \<le> 3 * ps_bytes_received s)"

definition clear_confirmed :: "quic_path \<Rightarrow> quic_path" where
  "clear_confirmed p = p\<lparr>pt_paths := map (\<lambda>s. s\<lparr>ps_confirmed := False\<rparr>) (pt_paths p)\<rparr>"

definition quic_path_confirm :: "quic_path \<Rightarrow> usz \<Rightarrow> bool \<times> quic_path" where
  "quic_path_confirm p path =
     (if \<not> ps_validated (pt_paths p ! path) then (False, p)
      else let p = clear_confirmed p
           in (True, p\<lparr>pt_paths := (pt_paths p)[path := (pt_paths p ! path)\<lparr>ps_confirmed := True\<rparr>], pt_active := path\<rparr>))"

definition quic_prefaddr_may_migrate :: "bool \<Rightarrow> bool \<Rightarrow> bool" where
  "quic_prefaddr_may_migrate path_validated handshake_confirmed \<longleftrightarrow> path_validated \<and> handshake_confirmed"

definition quic_prefaddr_use_cid :: "bool \<Rightarrow> bool" where
  "quic_prefaddr_use_cid has_preferred_cid = has_preferred_cid"

section \<open>pmtu.c\<close>

definition QUIC_PMTU_BASE :: usz where "QUIC_PMTU_BASE = 1200"

definition QUIC_PMTU_MAX :: usz where "QUIC_PMTU_MAX = 1452"

definition QUIC_PMTU_STEP :: usz where "QUIC_PMTU_STEP = 64"

record quic_pmtu =
  pm_validated :: usz
  pm_probe :: usz
  pm_ceiling :: usz
  pm_lost :: usz
  pm_searching :: bool

definition quic_pmtu_init :: quic_pmtu where
  "quic_pmtu_init = \<lparr>pm_validated = QUIC_PMTU_BASE, pm_probe = 0, pm_ceiling = QUIC_PMTU_MAX, pm_lost = 0, pm_searching = True\<rparr>"

definition candidate :: "quic_pmtu \<Rightarrow> usz" where
  "candidate p = (let want = usz_add (pm_validated p) QUIC_PMTU_STEP in if want < pm_ceiling p then want else pm_ceiling p)"

definition pmtu_viable :: "quic_pmtu \<Rightarrow> usz \<Rightarrow> bool" where
  "pmtu_viable p nxt \<longleftrightarrow> nxt > pm_validated p \<and> nxt \<noteq> pm_lost p"

definition quic_pmtu_next_probe :: "quic_pmtu \<Rightarrow> usz \<times> quic_pmtu" where
  "quic_pmtu_next_probe p =
     (let nxt = candidate p
      in if \<not> pm_searching p \<or> \<not> pmtu_viable p nxt then (0, p\<lparr>pm_searching := False\<rparr>)
         else (nxt, p\<lparr>pm_probe := nxt\<rparr>))"

definition quic_pmtu_on_ack :: "quic_pmtu \<Rightarrow> usz \<Rightarrow> quic_pmtu" where
  "quic_pmtu_on_ack p sz =
     (let p = (if sz > pm_validated p then p\<lparr>pm_validated := sz\<rparr> else p) in p\<lparr>pm_probe := 0\<rparr>)"

definition quic_pmtu_on_loss :: "quic_pmtu \<Rightarrow> usz \<Rightarrow> quic_pmtu" where
  "quic_pmtu_on_loss p sz =
     (let p = (if sz < pm_ceiling p then p\<lparr>pm_ceiling := sz\<rparr> else p) in p\<lparr>pm_lost := sz, pm_probe := 0\<rparr>)"

section \<open>retrydrive: accept.c, reconnect.c, token.c; tokentype.c\<close>

definition quic_retrydrive_accept :: "bool \<Rightarrow> bool \<Rightarrow> bool" where
  "quic_retrydrive_accept already_received_retry integrity_tag_valid \<longleftrightarrow> \<not> already_received_retry \<and> integrity_tag_valid"

record quic_retrydrive_state =
  rd_received :: bool
  rd_key_rederive :: bool
  rd_token :: bytes
  rd_token_len :: usz
  rd_dcid :: bytes
  rd_dcid_len :: u8

definition fits :: "usz \<Rightarrow> usz \<Rightarrow> bool" where
  "fits token_len scid_len \<longleftrightarrow> token_len \<le> 256 \<and> scid_len \<le> unat QUIC_MAX_CID_LEN"

definition quic_retrydrive_apply ::
  "bytes \<Rightarrow> usz \<Rightarrow> bytes \<Rightarrow> usz \<Rightarrow> quic_retrydrive_state \<Rightarrow> bool \<times> quic_retrydrive_state" where
  "quic_retrydrive_apply retry_token token_len retry_scid scid_len st =
     (if \<not> fits token_len scid_len then (False, st)
      else case quic_put_bytes (rd_token st) 256 0 retry_token token_len of (_, token, _) \<Rightarrow>
           case quic_put_bytes (rd_dcid st) (unat QUIC_MAX_CID_LEN) 0 retry_scid scid_len of (_, dcid, _) \<Rightarrow>
             (True, st\<lparr>rd_token := token, rd_token_len := token_len, rd_dcid := dcid, rd_dcid_len := of_nat scid_len,
                       rd_received := True, rd_key_rederive := True\<rparr>))"

definition quic_retrydrive_initial_token :: "quic_retrydrive_state \<Rightarrow> bytes \<times> usz" where
  "quic_retrydrive_initial_token s = (rd_token s, if rd_received s then rd_token_len s else 0)"

definition QUIC_TOKEN_TAG_RETRY :: u8 where "QUIC_TOKEN_TAG_RETRY = 0x01"

definition QUIC_TOKEN_TAG_NEWTOKEN :: u8 where "QUIC_TOKEN_TAG_NEWTOKEN = 0x02"

definition tag :: "bytes \<Rightarrow> usz \<Rightarrow> u8 \<Rightarrow> bytes \<Rightarrow> usz \<Rightarrow> usz \<times> bytes" where
  "tag out cap t body body_len =
     (if cap < 1 then (0, out) else put_done (quic_put_bytes (out[0 := t]) cap 1 body body_len))"

definition quic_token_tag_retry :: "bytes \<Rightarrow> usz \<Rightarrow> bytes \<Rightarrow> usz \<Rightarrow> usz \<times> bytes" where
  "quic_token_tag_retry out cap body body_len = tag out cap QUIC_TOKEN_TAG_RETRY body body_len"

definition quic_token_tag_newtoken :: "bytes \<Rightarrow> usz \<Rightarrow> bytes \<Rightarrow> usz \<Rightarrow> usz \<times> bytes" where
  "quic_token_tag_newtoken out cap body body_len = tag out cap QUIC_TOKEN_TAG_NEWTOKEN body body_len"

definition quic_token_is_retry :: "bytes \<Rightarrow> usz \<Rightarrow> bool" where
  "quic_token_is_retry token len \<longleftrightarrow> len > 0 \<and> rd token 0 = QUIC_TOKEN_TAG_RETRY"

section \<open>spin.c, sreset.c, sresetdrive\<close>

definition QUIC_SPIN_BIT :: u8 where "QUIC_SPIN_BIT = 0x20"

definition quic_spin_outgoing :: "bool \<Rightarrow> bool \<Rightarrow> bool" where
  "quic_spin_outgoing is_server peer_spin = (if is_server then peer_spin else \<not> peer_spin)"

definition quic_spin_get :: "u8 \<Rightarrow> bool" where
  "quic_spin_get byte0 \<longleftrightarrow> byte0 AND QUIC_SPIN_BIT \<noteq> 0"

definition quic_spin_set :: "u8 \<Rightarrow> bool \<Rightarrow> u8" where
  "quic_spin_set byte0 spin =
     (let cleared = byte0 AND NOT QUIC_SPIN_BIT in if spin then cleared OR QUIC_SPIN_BIT else cleared)"

definition QUIC_SRESET_TOKEN :: usz where "QUIC_SRESET_TOKEN = 16"

definition quic_sreset_detect :: "bytes \<Rightarrow> usz \<Rightarrow> bytes \<Rightarrow> bool" where
  "quic_sreset_detect dgram len token =
     (if len < QUIC_SRESET_TOKEN then False else quic_ct_diff16 (drop (len - QUIC_SRESET_TOKEN) dgram) token = 0)"

definition QUIC_SRESETDRIVE_TOKEN :: usz where "QUIC_SRESETDRIVE_TOKEN = 16"

definition QUIC_SRESETDRIVE_MIN :: usz where "QUIC_SRESETDRIVE_MIN = 21"

definition quic_sresetdrive_is_reset :: "bytes \<Rightarrow> usz \<Rightarrow> bytes \<Rightarrow> bool" where
  "quic_sresetdrive_is_reset packet len expected_token =
     (if len < QUIC_SRESETDRIVE_MIN then False
      else quic_ct_diff16 (drop (len - QUIC_SRESETDRIVE_TOKEN) packet) expected_token = 0)"

definition quic_sresetdrive_on_detected :: "bool \<Rightarrow> bool" where
  "quic_sresetdrive_on_detected is_reset = is_reset"

definition QUIC_SRESETDRIVE_MAX_CID :: u8 where "QUIC_SRESETDRIVE_MAX_CID = 20"

definition QUIC_SRESETDRIVE_CAP :: usz where "QUIC_SRESETDRIVE_CAP = 8"

record quic_sresetdrive_entry =
  en_cid :: bytes
  en_cid_len :: u8
  en_token :: bytes

record quic_sresetdrive_map =
  em_e :: "quic_sresetdrive_entry list"
  em_count :: usz

definition quic_sresetdrive_map_init :: "quic_sresetdrive_map \<Rightarrow> quic_sresetdrive_map" where
  "quic_sresetdrive_map_init m = m\<lparr>em_count := 0\<rparr>"

definition cid_eq :: "quic_sresetdrive_entry \<Rightarrow> bytes \<Rightarrow> u8 \<Rightarrow> bool" where
  "cid_eq e cid cid_len =
     (if en_cid_len e \<noteq> cid_len then False
      else foldl (\<lambda>d i. d OR (rd (en_cid e) i XOR rd cid i)) 0 [0..<unat cid_len] = 0)"

definition can_add :: "quic_sresetdrive_map \<Rightarrow> u8 \<Rightarrow> bool" where
  "can_add m cid_len \<longleftrightarrow> em_count m < QUIC_SRESETDRIVE_CAP \<and> cid_len \<le> QUIC_SRESETDRIVE_MAX_CID"

definition entry_set :: "quic_sresetdrive_entry \<Rightarrow> bytes \<Rightarrow> u8 \<Rightarrow> bytes \<Rightarrow> quic_sresetdrive_entry" where
  "entry_set e cid cid_len token =
     e\<lparr>en_cid_len := cid_len, en_cid := overwrite (en_cid e) 0 (map (rd cid) [0..<unat cid_len]),
       en_token := overwrite (en_token e) 0 (map (rd token) [0..<QUIC_SRESETDRIVE_TOKEN])\<rparr>"

definition quic_sresetdrive_map_add :: "quic_sresetdrive_map \<Rightarrow> bytes \<Rightarrow> u8 \<Rightarrow> bytes \<Rightarrow> bool \<times> quic_sresetdrive_map" where
  "quic_sresetdrive_map_add m cid cid_len token =
     (if \<not> can_add m cid_len then (False, m)
      else (True, m\<lparr>em_e := (em_e m)[em_count m := entry_set (em_e m ! em_count m) cid cid_len token],
                    em_count := em_count m + 1\<rparr>))"

definition quic_sresetdrive_map_find :: "quic_sresetdrive_map \<Rightarrow> bytes \<Rightarrow> u8 \<Rightarrow> bytes option" where
  "quic_sresetdrive_map_find m cid cid_len =
     map_option en_token (List.find (\<lambda>e. cid_eq e cid cid_len) (take (em_count m) (em_e m)))"

section \<open>loop/manage\<close>

definition quic_dos_should_retry :: "u64 \<Rightarrow> u64 \<Rightarrow> bool" where
  "quic_dos_should_retry unverified_load threshold \<longleftrightarrow> unverified_load > threshold"

definition quic_dos_amplification_ok :: "u64 \<Rightarrow> u64 \<Rightarrow> bool" where
  "quic_dos_amplification_ok received sent \<longleftrightarrow> sent \<le> 3 * received"

definition quic_manage_is_vneg :: "u8 \<Rightarrow> u32 \<Rightarrow> bool" where
  "quic_manage_is_vneg byte0 version \<longleftrightarrow> quic_packet_is_long byte0 \<and> version = 0"

definition QUIC_PT_INITIAL :: u8 where "QUIC_PT_INITIAL = 0"

definition quic_manage_is_flow_start :: "u8 \<Rightarrow> u32 \<Rightarrow> bool" where
  "quic_manage_is_flow_start byte0 version =
     (if version = 0 then False else quic_packet_long_type byte0 = Some QUIC_PT_INITIAL)"

definition quic_linkability_broken :: "u64 \<Rightarrow> u64 \<Rightarrow> bool" where
  "quic_linkability_broken old_cid new_cid \<longleftrightarrow> old_cid \<noteq> new_cid"

definition quic_linkability_at_risk :: "bool \<Rightarrow> bool \<Rightarrow> bool" where
  "quic_linkability_at_risk migrated cid_changed \<longleftrightarrow> migrated \<and> \<not> cid_changed"

definition quic_middlebox_initial_ok :: "usz \<Rightarrow> bool" where
  "quic_middlebox_initial_ok datagram_size \<longleftrightarrow> datagram_size \<ge> 1200"

definition quic_middlebox_port_expected :: "u16 \<Rightarrow> bool" where
  "quic_middlebox_port_expected port \<longleftrightarrow> port = 443"

definition long_only_field :: "int \<Rightarrow> bool" where
  "long_only_field field_id \<longleftrightarrow> field_id = 0 \<or> field_id = 2 \<or> field_id = 1"

definition quic_observable_field :: "int \<Rightarrow> bool \<Rightarrow> bool" where
  "quic_observable_field field_id is_long =
     (if field_id = 3 then \<not> is_long else if is_long then long_only_field field_id else field_id = 1)"

definition quic_rttobs_is_edge :: "bool \<Rightarrow> bool \<Rightarrow> bool" where
  "quic_rttobs_is_edge prev_spin cur_spin \<longleftrightarrow> prev_spin \<noteq> cur_spin"

definition quic_rttobs_sample_ok :: "bool \<Rightarrow> bool \<Rightarrow> bool" where
  "quic_rttobs_sample_ok spin_enabled saw_edge \<longleftrightarrow> spin_enabled \<and> saw_edge"

definition quic_zerortt_safe :: "bool \<Rightarrow> bool \<Rightarrow> bool" where
  "quic_zerortt_safe is_idempotent replay_protected \<longleftrightarrow> is_idempotent \<or> replay_protected"

section \<open>Path MTU discovery\<close>

text \<open>One round over a path that carries packets of up to \<open>limit\<close> bytes: a probe within the limit is
  acknowledged, a larger one lost.\<close>

definition pmtu_round :: "usz \<Rightarrow> quic_pmtu \<Rightarrow> quic_pmtu" where
  "pmtu_round limit p =
     (case quic_pmtu_next_probe p of (n, p) \<Rightarrow>
        if n = 0 then p else if n \<le> limit then quic_pmtu_on_ack p n else quic_pmtu_on_loss p n)"

lemmas pmtu_defs = pmtu_round_def quic_pmtu_next_probe_def candidate_def pmtu_viable_def quic_pmtu_on_ack_def
  quic_pmtu_on_loss_def Let_def QUIC_PMTU_BASE_def QUIC_PMTU_MAX_def QUIC_PMTU_STEP_def

definition pmtu_at :: "usz \<Rightarrow> quic_pmtu" where
  "pmtu_at v = \<lparr>pm_validated = v, pm_probe = 0, pm_ceiling = 1452, pm_lost = 0, pm_searching = True\<rparr>"

lemma pmtu_init_at: "quic_pmtu_init = pmtu_at 1200"
  by (simp add: quic_pmtu_init_def pmtu_at_def QUIC_PMTU_BASE_def QUIC_PMTU_MAX_def)

lemma pmtu_round_at:
  assumes "v < 1452" "c = min (v + 64) 1452"
  shows "c \<le> limit \<Longrightarrow> pmtu_round limit (pmtu_at v) = pmtu_at c"
    and "limit < c \<Longrightarrow> (pmtu_round limit ^^ Suc (Suc k)) (pmtu_at v) =
      \<lparr>pm_validated = v, pm_probe = 0, pm_ceiling = c, pm_lost = c, pm_searching = False\<rparr>"
proof -
  have cand: "candidate (pmtu_at v) = c" using assms by (simp add: candidate_def pmtu_at_def QUIC_PMTU_STEP_def)
  then have probe: "quic_pmtu_next_probe (pmtu_at v) = (c, (pmtu_at v)\<lparr>pm_probe := c\<rparr>)"
    using assms by (simp add: quic_pmtu_next_probe_def pmtu_viable_def pmtu_at_def Let_def)
  have c: "v < c" "c \<le> 1452" "c \<noteq> 0" using assms by auto
  show "c \<le> limit \<Longrightarrow> pmtu_round limit (pmtu_at v) = pmtu_at c"
    unfolding pmtu_round_def probe using c by (simp add: quic_pmtu_on_ack_def pmtu_at_def)
  let ?l = "\<lparr>pm_validated = v, pm_probe = 0, pm_ceiling = c, pm_lost = c, pm_searching = True\<rparr>"
  let ?d = "\<lparr>pm_validated = v, pm_probe = 0, pm_ceiling = c, pm_lost = c, pm_searching = False\<rparr>"
  assume "limit < c"
  then have "pmtu_round limit (pmtu_at v) = ?l"
    unfolding pmtu_round_def probe using c by (simp add: quic_pmtu_on_loss_def pmtu_at_def)
  moreover have "pmtu_round limit ?l = ?d"
    using assms by (auto simp: pmtu_defs)
  moreover have "pmtu_round limit ?d = ?d" by (simp add: pmtu_defs)
  then have "(pmtu_round limit ^^ k) ?d = ?d" by (induction k) simp_all
  ultimately show "(pmtu_round limit ^^ Suc (Suc k)) (pmtu_at v) = ?d" by (simp add: funpow_swap1)
qed

lemma pmtu_done: "pmtu_round limit (pmtu_at 1452) = (pmtu_at 1452)\<lparr>pm_searching := False\<rparr>"
  by (simp add: pmtu_defs pmtu_at_def)

text \<open>C32: Path MTU discovery terminates and is safe: over a path that carries at least the base size, the search
  ends after at most five probe rounds, with a validated size that the path does carry and
  that is within one step of the largest size the search allows.\<close>

theorem pmtu_search_terminates:
  assumes "1200 \<le> limit" "p = (pmtu_round limit ^^ 5) quic_pmtu_init"
  shows "\<not> pm_searching p \<and> 1200 \<le> pm_validated p \<and> pm_validated p \<le> limit \<and> pm_validated p \<le> 1452
    \<and> min limit 1452 < pm_validated p + 64 \<and> fst (quic_pmtu_next_probe p) = 0"
proof -
  have np: "fst (quic_pmtu_next_probe q) = 0" if "\<not> pm_searching q" for q using that by (simp add: quic_pmtu_next_probe_def Let_def)
  have five: "(f ^^ 5) x = (f ^^ Suc (Suc 3)) x" "(f ^^ 5) x = (f ^^ Suc (Suc 2)) (f x)"
    "(f ^^ 5) x = (f ^^ Suc (Suc 1)) (f (f x))" "(f ^^ 5) x = (f ^^ Suc (Suc 0)) (f (f (f x)))"
    "(f ^^ 5) x = f (f (f (f (f x))))" for f :: "quic_pmtu \<Rightarrow> quic_pmtu" and x
    by (simp_all add: numeral_eq_Suc funpow_swap1)
  have up: "1264 \<le> limit \<Longrightarrow> pmtu_round limit (pmtu_at 1200) = pmtu_at 1264"
    "1328 \<le> limit \<Longrightarrow> pmtu_round limit (pmtu_at 1264) = pmtu_at 1328"
    "1392 \<le> limit \<Longrightarrow> pmtu_round limit (pmtu_at 1328) = pmtu_at 1392"
    "1452 \<le> limit \<Longrightarrow> pmtu_round limit (pmtu_at 1392) = pmtu_at 1452"
    by (rule pmtu_round_at(1); simp)+
  have p: "p = (pmtu_round limit ^^ 5) (pmtu_at 1200)" using assms(2) by (simp add: pmtu_init_at)
  consider "limit < 1264" | "1264 \<le> limit" "limit < 1328" | "1328 \<le> limit" "limit < 1392" | "1392 \<le> limit" "limit < 1452" | "1452 \<le> limit"
    by linarith
  then have "\<not> pm_searching p \<and> 1200 \<le> pm_validated p \<and> pm_validated p \<le> limit \<and> pm_validated p \<le> 1452
    \<and> min limit 1452 < pm_validated p + 64"
  proof cases
    case 1
    show ?thesis unfolding p five(1) using pmtu_round_at(2)[of 1200 1264 limit 3] 1 assms(1) by (simp del: funpow.simps)
  next
    case 2
    show ?thesis unfolding p five(2) up(1)[OF 2(1)] using pmtu_round_at(2)[of 1264 1328 limit 2] 2 by (simp del: funpow.simps)
  next
    case 3
    have "1264 \<le> limit" using 3 by simp
    then show ?thesis unfolding p five(3) using up(1,2) 3 pmtu_round_at(2)[of 1328 1392 limit 1] by (simp del: funpow.simps)
  next
    case 4
    have "1264 \<le> limit" "1328 \<le> limit" using 4 by simp_all
    then show ?thesis unfolding p five(4) using up(1-3) 4 pmtu_round_at(2)[of 1392 1452 limit 0] by (simp del: funpow.simps)
  next
    case 5
    have "1264 \<le> limit" "1328 \<le> limit" "1392 \<le> limit" using 5 by simp_all
    then show ?thesis unfolding p five(5) using up 5 pmtu_done[of limit] by (simp add: pmtu_at_def)
  qed
  then show ?thesis using np by blast
qed

theorem pmtu_search_terminates_witness:
  "pm_validated ((pmtu_round 1300 ^^ 5) quic_pmtu_init) \<le> 1300 \<and> 1300 < pm_validated ((pmtu_round 1300 ^^ 5) quic_pmtu_init) + 64"
  using pmtu_search_terminates[of 1300, OF _ refl] by simp

section \<open>Migration\<close>

datatype migrate_op = MgHandshake | MgDetect | MgChallenge | MgValidate | MgConfirm u64 bool

text \<open>\<open>MgHandshake\<close> is the caller setting \<^verbatim>\<open>handshake_confirmed\<close>.\<close>

fun migrate_step :: "quic_migrate \<Rightarrow> migrate_op \<Rightarrow> quic_migrate" where
  "migrate_step m MgHandshake = m\<lparr>mg_handshake_confirmed := True\<rparr>"
| "migrate_step m MgDetect = quic_migrate_detect m"
| "migrate_step m MgChallenge = quic_migrate_challenge m"
| "migrate_step m MgValidate = snd (quic_migrate_validate m)"
| "migrate_step m (MgConfirm cid port) = snd (quic_migrate_confirm m cid port)"

lemmas migrate_defs = quic_migrate_detect_def quic_migrate_challenge_def quic_migrate_validate_def quic_migrate_confirm_def confirm_ok_def

definition migrate_inv :: "quic_migrate \<Rightarrow> bool" where
  "migrate_inv m \<longleftrightarrow> (mg_confirmed m \<longrightarrow> mg_validated m \<and> mg_cc_reset m = (\<not> mg_port_only m))
     \<and> (mg_validated m \<longrightarrow> mg_challenged m) \<and> (mg_challenged m \<longrightarrow> mg_detected m) \<and> (mg_detected m \<longrightarrow> mg_handshake_confirmed m)"

lemma migrate_run_inv: "migrate_inv m \<Longrightarrow> migrate_inv (foldl migrate_step m es)"
proof (induction es arbitrary: m)
  case (Cons e es)
  have "migrate_inv (migrate_step m e)" using Cons.prems by (cases e) (auto simp: migrate_inv_def migrate_defs)
  then show ?case using Cons.IH by simp
qed simp

text \<open>C33: The first migration is guarded and the later ones are not. In every reachable state a confirmed
  migration was validated, hence challenged, detected, and after the handshake, and congestion state is
  reset exactly for full migrations. But confirming clears none of these flags: once one
  migration is confirmed, a confirmation to any other connection ID succeeds without a new
  detection, challenge or validation.\<close>

theorem migration_guarded_once:
  assumes "m = foldl migrate_step (quic_migrate_init cid) es" "mg_confirmed m"
  shows "mg_validated m \<and> mg_challenged m \<and> mg_detected m \<and> mg_handshake_confirmed m \<and> mg_cc_reset m = (\<not> mg_port_only m)
    \<and> (new_cid \<noteq> mg_cur_cid m \<longrightarrow> (\<exists>m'. quic_migrate_confirm m new_cid port = (True, m') \<and> mg_cur_cid m' = new_cid))"
proof -
  have "migrate_inv (quic_migrate_init cid)" by (simp add: migrate_inv_def quic_migrate_init_def)
  then have "migrate_inv m" using migrate_run_inv assms(1) by simp
  then show ?thesis using assms(2) by (simp add: migrate_inv_def quic_migrate_confirm_def confirm_ok_def)
qed

theorem migration_guarded_once_witness:
  "\<exists>m'. quic_migrate_confirm (foldl migrate_step (quic_migrate_init 1) [MgHandshake, MgDetect, MgChallenge, MgValidate, MgConfirm 2 False]) 3 True
     = (True, m')"
proof -
  let ?m = "foldl migrate_step (quic_migrate_init 1) [MgHandshake, MgDetect, MgChallenge, MgValidate, MgConfirm 2 False]"
  have c: "mg_confirmed ?m" "mg_cur_cid ?m = 2" by (simp_all add: migrate_defs quic_migrate_init_def)
  from migration_guarded_once[OF refl c(1), of 3 True] c(2) show ?thesis by auto
qed

section \<open>Connection IDs\<close>

datatype cid_op = CidIssue | CidRetire u64

fun cid_run :: "quic_cidpool \<Rightarrow> cid_op list \<Rightarrow> u64 list \<times> quic_cidpool" where
  "cid_run p [] = ([], p)"
| "cid_run p (CidIssue # ops) =
     (case quic_cidpool_issue p of (r, p) \<Rightarrow> case cid_run p ops of (out, p) \<Rightarrow>
        ((case r of None \<Rightarrow> out | Some s \<Rightarrow> s # out), p))"
| "cid_run p (CidRetire n # ops) = cid_run (snd (quic_cidpool_retire_prior_to p n)) ops"

definition cid_inv :: "quic_cidpool \<Rightarrow> bool" where
  "cid_inv p \<longleftrightarrow> cp_retire_lo p \<le> cp_next_seq p \<and> unat (cp_next_seq p) - unat (cp_retire_lo p) \<le> unat (cp_limit p)"

lemma cid_run_inv:
  "cid_inv p \<Longrightarrow> unat (cp_next_seq p) + length ops < 2 ^ 64 \<Longrightarrow> cid_run p ops = (out, q) \<Longrightarrow>
   cid_inv q \<and> cp_limit q = cp_limit p \<and> cp_retire_lo p \<le> cp_retire_lo q
   \<and> map unat out = [unat (cp_next_seq p)..<unat (cp_next_seq q)] \<and> cp_next_seq p \<le> cp_next_seq q"
proof (induction p ops arbitrary: out rule: cid_run.induct)
  case (2 p ops)
  obtain r p1 where i: "quic_cidpool_issue p = (r, p1)" by fastforce
  obtain out1 where o: "cid_run p1 ops = (out1, q)" "out = (case r of None \<Rightarrow> out1 | Some s \<Rightarrow> s # out1)"
    using "2.prems"(3) i by (auto split: prod.splits)
  have act: "unat (quic_cidpool_active_count p) = unat (cp_next_seq p) - unat (cp_retire_lo p)"
    using "2.prems"(1) by (simp add: quic_cidpool_active_count_def cid_inv_def unat_sub)
  show ?case
  proof (cases "quic_cidpool_active_count p \<ge> cp_limit p")
    case True
    then have "r = None" "p1 = p" using i by (auto simp: quic_cidpool_issue_def)
    then show ?thesis using "2.IH"[OF i[symmetric] _ _ o(1)] "2.prems"(1,2) o(2) by simp
  next
    case False
    then have r: "r = Some (cp_next_seq p)" "p1 = p\<lparr>cp_next_seq := cp_next_seq p + 1\<rparr>" using i by (auto simp: quic_cidpool_issue_def)
    have s: "unat (cp_next_seq p + 1) = Suc (unat (cp_next_seq p))" using "2.prems"(2) by (simp add: unat_word_ariths)
    have "cid_inv p1" using "2.prems"(1) False act s by (auto simp: cid_inv_def r word_le_nat_alt)
    from "2.IH"[OF i[symmetric] this _ o(1)] "2.prems"(2) s r(2)
    have ih: "cid_inv q" "cp_limit q = cp_limit p" "cp_retire_lo p \<le> cp_retire_lo q"
      "map unat out1 = [Suc (unat (cp_next_seq p))..<unat (cp_next_seq q)]" "cp_next_seq p + 1 \<le> cp_next_seq q" by simp_all
    then have "unat (cp_next_seq p) < unat (cp_next_seq q)" using s by (simp add: word_le_nat_alt)
    then show ?thesis using ih o(2) r(1) by (simp add: upt_conv_Cons word_le_nat_alt)
  qed
next
  case (3 p n ops)
  let ?p = "snd (quic_cidpool_retire_prior_to p n)"
  have f: "cid_inv ?p" "cp_limit ?p = cp_limit p" "cp_next_seq ?p = cp_next_seq p" "cp_retire_lo p \<le> cp_retire_lo ?p"
    using "3.prems"(1) by (auto simp: quic_cidpool_retire_prior_to_def cid_inv_def word_le_nat_alt word_less_nat_alt)
  from "3.IH"[OF f(1)] "3.prems"(2,3) f(2,3) order_trans[OF f(4)] show ?case by simp
qed auto

text \<open>C34: The connection ID pool keeps its promises to the peer: from an empty pool, any fewer than \<open>2 ^ 64\<close>
  issue and retire requests give the sequence numbers 0, 1, 2 and so on without repetition, the
  number of active IDs never exceeds the peer's limit, the retired range only grows and
  never passes the issued one, and issuing fails exactly at the limit.\<close>

theorem cid_pool_within_limit:
  assumes "length ops < 2 ^ 64" "cid_run (quic_cidpool_init limit) ops = (out, p)"
  shows "map unat out = [0..<length out] \<and> unat (cp_next_seq p) = length out
    \<and> quic_cidpool_active_count p \<le> limit \<and> cp_retire_lo p \<le> cp_next_seq p
    \<and> (fst (quic_cidpool_issue p) = None \<longleftrightarrow> quic_cidpool_active_count p = limit)
    \<and> cp_retire_lo p \<le> cp_retire_lo (snd (quic_cidpool_retire_prior_to p n))"
proof -
  have "cid_inv (quic_cidpool_init limit)" by (simp add: cid_inv_def quic_cidpool_init_def)
  from cid_run_inv[OF this _ assms(2)] assms(1)
  have i: "cid_inv p" "cp_limit p = limit" "map unat out = [0..<unat (cp_next_seq p)]" by (simp_all add: quic_cidpool_init_def)
  have l: "unat (cp_next_seq p) = length out" using arg_cong[OF i(3), of length] by simp
  have a: "quic_cidpool_active_count p \<le> limit"
    using i(1,2) by (simp add: cid_inv_def quic_cidpool_active_count_def unat_sub word_le_nat_alt)
  have r: "cp_retire_lo p \<le> cp_retire_lo (snd (quic_cidpool_retire_prior_to p n))"
    by (auto simp: quic_cidpool_retire_prior_to_def)
  have "fst (quic_cidpool_issue p) = None \<longleftrightarrow> quic_cidpool_active_count p = limit"
    using a i(2) by (auto simp: quic_cidpool_issue_def)
  then show ?thesis using i l a r by (simp add: cid_inv_def)
qed

theorem cid_pool_within_limit_witness:
  "fst (cid_run (quic_cidpool_init 2) [CidIssue, CidIssue, CidIssue, CidRetire 1, CidIssue]) = [0, 1, 2]"
proof -
  obtain out p where r: "cid_run (quic_cidpool_init 2) [CidIssue, CidIssue, CidIssue, CidRetire 1, CidIssue] = (out, p)" by fastforce
  have i: "quic_cidpool_issue \<lparr>cp_limit = 2, cp_next_seq = n, cp_retire_lo = k\<rparr> =
      (if 2 \<le> n - k then (None, \<lparr>cp_limit = 2, cp_next_seq = n, cp_retire_lo = k\<rparr>)
       else (Some n, \<lparr>cp_limit = 2, cp_next_seq = n + 1, cp_retire_lo = k\<rparr>))" for n k
    by (simp add: quic_cidpool_issue_def quic_cidpool_active_count_def)
  have "length (fst (cid_run (quic_cidpool_init 2) [CidIssue, CidIssue, CidIssue, CidRetire 1, CidIssue])) = 3"
    by (simp add: quic_cidpool_init_def i quic_cidpool_retire_prior_to_def word_le_nat_alt)
  then have l: "length out = 3" unfolding r by simp
  from cid_pool_within_limit[OF _ r, of 0] have "map unat out = [0..<length out]" by simp
  then have "map unat out = map unat [0, 1, 2 :: u64]" by (simp add: l upt_rec)
  then have "out = [0, 1, 2]" by (rule map_injective) (simp add: inj_def word_unat_eq_iff)
  then show ?thesis unfolding r by simp
qed

end
