(* ===== verification/Aead.thy ===== *)
theory Aead
  imports Varint
begin

text \<open>
  The interfaces that the packet protection of \<^verbatim>\<open>src/transport/packet/protect/\<close> relies on. \<open>stream_cipher\<close> is a
  loop that exclusive-ors a keystream of blocks over a buffer (\<^verbatim>\<open>ctr_xor\<close> of gcm.c,
  \<^verbatim>\<open>quic_chacha20_xor\<close> of chacha20.c); \<open>aead_cipher\<close> is an authenticated cipher (\<^verbatim>\<open>quic_gcm_seal\<close> and
  \<^verbatim>\<open>quic_gcm_open\<close>, \<^verbatim>\<open>quic_chapoly_seal\<close> and \<^verbatim>\<open>quic_chapoly_open\<close>). Both are interpreted in
  the theories of the two ciphers.
\<close>

section \<open>Exclusive or of byte strings\<close>

definition xor_bytes :: "bytes \<Rightarrow> bytes \<Rightarrow> bytes" where
  "xor_bytes xs ys = map2 (XOR) xs ys"

lemma length_xor_bytes [simp]: "length (xor_bytes xs ys) = min (length xs) (length ys)"
  by (simp add: xor_bytes_def)

lemma xor_bytes_cancel: "length xs = length ys \<Longrightarrow> xor_bytes (xor_bytes xs ys) ys = xs"
  by (intro nth_equalityI) (simp_all add: xor_bytes_def xor.assoc)

lemma xor_bytes_append:
  "length xs = length us \<Longrightarrow> xor_bytes (xs @ ys) (us @ vs) = xor_bytes xs us @ xor_bytes ys vs"
  by (simp add: xor_bytes_def zip_append)

section \<open>Constant-time comparison\<close>

lemma xor_zero_iff: "a XOR b = 0 \<longleftrightarrow> a = (b :: 'a :: len word)"
  by (metis xor.assoc xor.left_neutral xor.right_neutral xor_self_eq)

lemma foldl_or_zero: "foldl (\<lambda>d i. d OR f i) (d :: u8) is = 0 \<longleftrightarrow> d = 0 \<and> (\<forall>i \<in> set is. f i = 0)"
proof (induction "is" arbitrary: d)
  case (Cons i js)
  have "d OR f i = 0 \<longleftrightarrow> d = 0 \<and> f i = 0" by (metis or.right_neutral word_ao_absorbs(2) word_bw_comms(2) word_bw_same(2) or_eq_0_iff)
  then show ?case using Cons by auto
qed simp

lemma ct_diff16_zero:
  assumes "length a = 16" "16 \<le> length b"
  shows "quic_ct_diff16 a b = 0 \<longleftrightarrow> a = take 16 b"
proof -
  have "quic_ct_diff16 a b = 0 \<longleftrightarrow> (\<forall>i < 16. a ! i = b ! i)"
    using assms by (auto simp: quic_ct_diff16_def foldl_or_zero xor_zero_iff)
  also have "\<dots> \<longleftrightarrow> a = take 16 b" using assms by (auto simp: list_eq_iff_nth_eq)
  finally show ?thesis .
qed

section \<open>Stream ciphers\<close>

locale stream_cipher =
  fixes blk :: nat
    and ksblock :: "'c \<Rightarrow> bytes"
    and nxt :: "'c \<Rightarrow> 'c"
    and loop :: "'c \<Rightarrow> bytes \<Rightarrow> usz \<Rightarrow> usz \<Rightarrow> bytes \<Rightarrow> bytes"
  assumes blk_pos: "0 < blk"
    and ksblock_len: "length (ksblock c) = blk"
    and loop_eq: "loop c inp len off out =
      (if off < len
       then let n = (if len - off < blk then len - off else blk)
            in loop (nxt c) inp len (off + n) (overwrite out off (map (\<lambda>i. rd inp (off + i) XOR rd (ksblock c) i) [0..<n]))
       else out)"
begin

function keystream :: "'c \<Rightarrow> nat \<Rightarrow> bytes" where
  "keystream c n = (if n \<le> blk then take n (ksblock c) else ksblock c @ keystream (nxt c) (n - blk))"
  by pat_completeness auto
termination using blk_pos by (relation "measure snd") auto

declare keystream.simps [simp del]

lemma length_keystream [simp]: "length (keystream c n) = n"
proof (induction c n rule: keystream.induct)
  case (1 c n)
  then show ?case by (subst keystream.simps) (auto simp: ksblock_len)
qed

lemma keystream_split:
  "n \<le> blk \<Longrightarrow> keystream c n = take n (ksblock c)"
  "blk \<le> n \<Longrightarrow> keystream c n = ksblock c @ keystream (nxt c) (n - blk)"
proof -
  show "n \<le> blk \<Longrightarrow> keystream c n = take n (ksblock c)" by (simp add: keystream.simps)
  show "blk \<le> n \<Longrightarrow> keystream c n = ksblock c @ keystream (nxt c) (n - blk)"
    using blk_pos ksblock_len[of c] keystream.simps[of "nxt c" 0] by (subst keystream.simps) auto
qed

lemma loop_xor:
  assumes "len \<le> length inp" "len \<le> length out"
  shows "off \<le> len \<Longrightarrow> loop c inp len off out = overwrite out off (xor_bytes (drop off (take len inp)) (keystream c (len - off)))"
  using assms(2)
proof (induction "len - off" arbitrary: c off out rule: less_induct)
  case less
  show ?case
  proof (cases "off < len")
    case True
    define n where "n = (if len - off < blk then len - off else blk)"
    have n: "0 < n" "off + n \<le> len" "n \<le> blk" using True blk_pos by (auto simp: n_def)
    let ?x = "map (\<lambda>i. rd inp (off + i) XOR rd (ksblock c) i) [0..<n]"
    have x: "?x = xor_bytes (take n (drop off inp)) (take n (ksblock c))"
      using n assms(1) by (intro nth_equalityI) (simp_all add: xor_bytes_def ksblock_len)
    have l: "loop c inp len off out = loop (nxt c) inp len (off + n) (overwrite out off ?x)"
      using True by (subst loop_eq) (simp add: Let_def n_def)
    have "loop (nxt c) inp len (off + n) (overwrite out off ?x)
      = overwrite (overwrite out off ?x) (off + n) (xor_bytes (drop (off + n) (take len inp)) (keystream (nxt c) (len - (off + n))))"
      using n less.prems by (intro less.hyps) simp_all
    also have "\<dots> = overwrite out off (?x @ xor_bytes (drop (off + n) (take len inp)) (keystream (nxt c) (len - (off + n))))"
      using overwrite_overwrite[of off ?x out] n less.prems by simp
    also have "?x @ xor_bytes (drop (off + n) (take len inp)) (keystream (nxt c) (len - (off + n)))
      = xor_bytes (drop off (take len inp)) (keystream c (len - off))"
    proof -
      have d: "drop off (take len inp) = take n (drop off inp) @ drop (off + n) (take len inp)"
      proof -
        have "len - off = n + (len - (off + n))" using n(2) by simp
        then have "take (len - off) (drop off inp) = take n (drop off inp) @ take (len - (off + n)) (drop n (drop off inp))"
          by (metis take_add)
        then show ?thesis by (simp add: drop_take add.commute)
      qed
      have k: "keystream c (len - off) = take n (ksblock c) @ keystream (nxt c) (len - (off + n))"
      proof (cases "len - off < blk")
        case True
        then show ?thesis using keystream_split(1)[of "len - off" c] keystream.simps[of "nxt c" 0] by (simp add: n_def)
      next
        case False
        then show ?thesis using keystream_split(2)[of "len - off" c] ksblock_len[of c] by (simp add: n_def)
      qed
      show ?thesis unfolding d k x using n assms(1) ksblock_len[of c] by (subst xor_bytes_append) simp_all
    qed
    finally show ?thesis using l by simp
  next
    case False
    then show ?thesis using less.prems by (subst loop_eq) (simp add: xor_bytes_def)
  qed
qed

end

section \<open>Authenticated ciphers\<close>

locale aead_cipher =
  fixes seal :: "'k \<Rightarrow> bytes \<Rightarrow> bytes \<Rightarrow> usz \<Rightarrow> bytes \<Rightarrow> usz \<Rightarrow> bytes \<Rightarrow> bytes \<times> bytes"
    and opn :: "'k \<Rightarrow> bytes \<Rightarrow> bytes \<Rightarrow> usz \<Rightarrow> bytes \<Rightarrow> usz \<Rightarrow> bytes \<Rightarrow> bytes \<Rightarrow> bool \<times> bytes"
    and crypt :: "'k \<Rightarrow> bytes \<Rightarrow> bytes \<Rightarrow> bytes"
    and tag_of :: "'k \<Rightarrow> bytes \<Rightarrow> bytes \<Rightarrow> bytes \<Rightarrow> bytes"
  assumes crypt_len [simp]: "length (crypt k n x) = length x"
    and crypt_inv [simp]: "crypt k n (crypt k n x) = x"
    and tag_len [simp]: "length (tag_of k n aad x) = 16"
    and seal_eq: "aad_len \<le> length aad \<Longrightarrow> pt_len \<le> length pt \<Longrightarrow> pt_len \<le> length ct \<Longrightarrow>
      seal k n aad aad_len pt pt_len ct = (overwrite ct 0 (crypt k n (take pt_len pt)), tag_of k n (take aad_len aad) (crypt k n (take pt_len pt)))"
    and opn_eq: "aad_len \<le> length aad \<Longrightarrow> ct_len \<le> length ct \<Longrightarrow> ct_len \<le> length pt \<Longrightarrow> 16 \<le> length tag \<Longrightarrow>
      opn k n aad aad_len ct ct_len tag pt =
        (if take 16 tag = tag_of k n (take aad_len aad) (take ct_len ct) then (True, overwrite pt 0 (crypt k n (take ct_len ct))) else (False, pt))"
begin

lemma opens_sealed:
  assumes "pt_len \<le> length pt" "pt_len \<le> length ct" "aad_len \<le> length aad" "pt_len \<le> length out"
    and "seal k n aad aad_len pt pt_len ct = (ct', tag)"
  shows "opn k n aad aad_len ct' pt_len (tag @ rest) out = (True, overwrite out 0 (take pt_len pt))"
proof -
  have c: "ct' = overwrite ct 0 (crypt k n (take pt_len pt))" "tag = tag_of k n (take aad_len aad) (crypt k n (take pt_len pt))"
    using assms seal_eq by simp_all
  have "take pt_len ct' = crypt k n (take pt_len pt)" using assms(1,2) by (simp add: c(1) overwrite_0)
  moreover have "length ct' = length ct" using assms(1,2) by (simp add: c(1))
  ultimately show ?thesis using assms by (subst opn_eq) (simp_all add: c(2))
qed

lemma opens_only:
  assumes "aad_len \<le> length aad" "ct_len \<le> length ct" "ct_len \<le> length pt" "16 \<le> length tag"
    and "opn k n aad aad_len ct ct_len tag pt = (ok, out)"
  shows "ok \<longleftrightarrow> (\<exists>m. length m = ct_len \<and> seal k n aad aad_len m ct_len (replicate ct_len 0) = (take ct_len ct, take 16 tag)
      \<and> out = overwrite pt 0 m)" "\<not> ok \<longrightarrow> out = pt"
proof -
  have s: "seal k n aad aad_len m ct_len (replicate ct_len 0) = (crypt k n m, tag_of k n (take aad_len aad) (crypt k n m))" if "length m = ct_len" for m
    using seal_eq[of aad_len aad ct_len m "replicate ct_len 0"] assms(1) that by (simp add: overwrite_0)
  show "\<not> ok \<longrightarrow> out = pt" using assms opn_eq by (auto split: if_splits)
  show "ok \<longleftrightarrow> (\<exists>m. length m = ct_len \<and> seal k n aad aad_len m ct_len (replicate ct_len 0) = (take ct_len ct, take 16 tag) \<and> out = overwrite pt 0 m)"
  proof
    assume ok
    then have "take 16 tag = tag_of k n (take aad_len aad) (take ct_len ct)" "out = overwrite pt 0 (crypt k n (take ct_len ct))"
      using assms opn_eq by (auto split: if_splits)
    then show "\<exists>m. length m = ct_len \<and> seal k n aad aad_len m ct_len (replicate ct_len 0) = (take ct_len ct, take 16 tag) \<and> out = overwrite pt 0 m"
      using s[of "crypt k n (take ct_len ct)"] assms(2) by (intro exI[of _ "crypt k n (take ct_len ct)"]) simp
  next
    assume "\<exists>m. length m = ct_len \<and> seal k n aad aad_len m ct_len (replicate ct_len 0) = (take ct_len ct, take 16 tag) \<and> out = overwrite pt 0 m"
    then obtain m where "length m = ct_len" "crypt k n m = take ct_len ct" "tag_of k n (take aad_len aad) (crypt k n m) = take 16 tag" using s by auto
    then show ok using assms opn_eq by simp
  qed
qed

end

end
