(* ===== verification/Aes_Gcm.thy ===== *)
theory Aes_Gcm
  imports Aead
begin

text \<open>
  AES-128 (\<^verbatim>\<open>src/crypto/symmetric/aead/aes/aes.c\<close>) and the AEAD AES-128-GCM
  (\<^verbatim>\<open>src/crypto/symmetric/aead/gcm/gcm.c\<close>). A block is a list of 16 bytes. A routine that writes
  through an output pointer returns the buffer from that pointer on; the callers that
  encrypt in place pass the same buffer as input and output, which is the same function because every output
  byte is computed from the input byte at its own position.

  The lemmas show that the S-box is the field inverse followed by the affine map of FIPS 197 and that the
  cipher is injective on blocks; that the byte-wise multiplication of GHASH is the product of
  SP 800-38D on 128-bit words; that no counter block repeats; and that opening inverts sealing and accepts nothing but the computed tag.
\<close>

section \<open>aes.c\<close>

type_synonym quic_aes128 = "u32 list"

definition SBOX :: "u8 list" where
  "SBOX =
   [0x63, 0x7c, 0x77, 0x7b, 0xf2, 0x6b, 0x6f, 0xc5, 0x30, 0x01, 0x67, 0x2b, 0xfe, 0xd7, 0xab, 0x76,
    0xca, 0x82, 0xc9, 0x7d, 0xfa, 0x59, 0x47, 0xf0, 0xad, 0xd4, 0xa2, 0xaf, 0x9c, 0xa4, 0x72, 0xc0,
    0xb7, 0xfd, 0x93, 0x26, 0x36, 0x3f, 0xf7, 0xcc, 0x34, 0xa5, 0xe5, 0xf1, 0x71, 0xd8, 0x31, 0x15,
    0x04, 0xc7, 0x23, 0xc3, 0x18, 0x96, 0x05, 0x9a, 0x07, 0x12, 0x80, 0xe2, 0xeb, 0x27, 0xb2, 0x75,
    0x09, 0x83, 0x2c, 0x1a, 0x1b, 0x6e, 0x5a, 0xa0, 0x52, 0x3b, 0xd6, 0xb3, 0x29, 0xe3, 0x2f, 0x84,
    0x53, 0xd1, 0x00, 0xed, 0x20, 0xfc, 0xb1, 0x5b, 0x6a, 0xcb, 0xbe, 0x39, 0x4a, 0x4c, 0x58, 0xcf,
    0xd0, 0xef, 0xaa, 0xfb, 0x43, 0x4d, 0x33, 0x85, 0x45, 0xf9, 0x02, 0x7f, 0x50, 0x3c, 0x9f, 0xa8,
    0x51, 0xa3, 0x40, 0x8f, 0x92, 0x9d, 0x38, 0xf5, 0xbc, 0xb6, 0xda, 0x21, 0x10, 0xff, 0xf3, 0xd2,
    0xcd, 0x0c, 0x13, 0xec, 0x5f, 0x97, 0x44, 0x17, 0xc4, 0xa7, 0x7e, 0x3d, 0x64, 0x5d, 0x19, 0x73,
    0x60, 0x81, 0x4f, 0xdc, 0x22, 0x2a, 0x90, 0x88, 0x46, 0xee, 0xb8, 0x14, 0xde, 0x5e, 0x0b, 0xdb,
    0xe0, 0x32, 0x3a, 0x0a, 0x49, 0x06, 0x24, 0x5c, 0xc2, 0xd3, 0xac, 0x62, 0x91, 0x95, 0xe4, 0x79,
    0xe7, 0xc8, 0x37, 0x6d, 0x8d, 0xd5, 0x4e, 0xa9, 0x6c, 0x56, 0xf4, 0xea, 0x65, 0x7a, 0xae, 0x08,
    0xba, 0x78, 0x25, 0x2e, 0x1c, 0xa6, 0xb4, 0xc6, 0xe8, 0xdd, 0x74, 0x1f, 0x4b, 0xbd, 0x8b, 0x8a,
    0x70, 0x3e, 0xb5, 0x66, 0x48, 0x03, 0xf6, 0x0e, 0x61, 0x35, 0x57, 0xb9, 0x86, 0xc1, 0x1d, 0x9e,
    0xe1, 0xf8, 0x98, 0x11, 0x69, 0xd9, 0x8e, 0x94, 0x9b, 0x1e, 0x87, 0xe9, 0xce, 0x55, 0x28, 0xdf,
    0x8c, 0xa1, 0x89, 0x0d, 0xbf, 0xe6, 0x42, 0x68, 0x41, 0x99, 0x2d, 0x0f, 0xb0, 0x54, 0xbb, 0x16]"

definition RCON :: "u8 list" where
  "RCON = [0x01, 0x02, 0x04, 0x08, 0x10, 0x20, 0x40, 0x80, 0x1b, 0x36]"

definition XTIME :: "u8 \<Rightarrow> u8" where
  "XTIME x = push_bit 1 x XOR (drop_bit 7 x * 0x1b)"

definition sbox :: "u8 \<Rightarrow> u8" where
  "sbox b = SBOX ! unat b"

definition sub_word :: "u32 \<Rightarrow> u32" where
  "sub_word w =
     push_bit 24 (ucast (sbox (ucast (drop_bit 24 w)))) OR push_bit 16 (ucast (sbox (ucast (drop_bit 16 w))))
     OR push_bit 8 (ucast (sbox (ucast (drop_bit 8 w)))) OR ucast (sbox (ucast w))"

definition schedule_word :: "u32 \<Rightarrow> nat \<Rightarrow> u32" where
  "schedule_word prev i =
     (if i mod 4 \<noteq> 0 then prev
      else sub_word (push_bit 8 prev OR drop_bit 24 prev) XOR push_bit 24 (ucast (RCON ! (i div 4 - 1))))"

definition quic_aes128_init :: "bytes \<Rightarrow> quic_aes128" where
  "quic_aes128_init key =
     fold (\<lambda>i rk. rk @ [rk ! (i - 4) XOR schedule_word (rk ! (i - 1)) i]) [4..<44]
       (map (\<lambda>i. push_bit 24 (ucast (rd key (4 * i))) OR push_bit 16 (ucast (rd key (4 * i + 1)))
                 OR push_bit 8 (ucast (rd key (4 * i + 2))) OR ucast (rd key (4 * i + 3))) [0..<4])"

definition add_round_key :: "bytes \<Rightarrow> u32 list \<Rightarrow> bytes" where
  "add_round_key s rk =
     concat (map (\<lambda>c. [s ! (4 * c) XOR ucast (drop_bit 24 (rk ! c)), s ! (4 * c + 1) XOR ucast (drop_bit 16 (rk ! c)),
                       s ! (4 * c + 2) XOR ucast (drop_bit 8 (rk ! c)), s ! (4 * c + 3) XOR ucast (rk ! c)]) [0..<4])"

definition sub_bytes :: "bytes \<Rightarrow> bytes" where
  "sub_bytes s = map (\<lambda>i. sbox (s ! i)) [0..<16]"

definition shift_col :: "bytes \<Rightarrow> nat \<Rightarrow> bytes" where
  "shift_col s c = map (\<lambda>r. s ! (4 * ((c + r) mod 4) + r)) [0..<4]"

definition shift_rows :: "bytes \<Rightarrow> bytes" where
  "shift_rows s = concat (map (shift_col s) [0..<4])"

definition mix_one :: "bytes \<Rightarrow> bytes" where
  "mix_one col =
     (let a0 = col ! 0; a1 = col ! 1; a2 = col ! 2; a3 = col ! 3
      in [XTIME a0 XOR (XTIME a1 XOR a1) XOR a2 XOR a3,
          a0 XOR XTIME a1 XOR (XTIME a2 XOR a2) XOR a3,
          a0 XOR a1 XOR XTIME a2 XOR (XTIME a3 XOR a3),
          (XTIME a0 XOR a0) XOR a1 XOR a2 XOR XTIME a3])"

definition mix_columns :: "bytes \<Rightarrow> bytes" where
  "mix_columns s = concat (map (\<lambda>c. mix_one (drop (4 * c) s)) [0..<4])"

definition round_full :: "bytes \<Rightarrow> u32 list \<Rightarrow> bytes" where
  "round_full s rk = add_round_key (mix_columns (shift_rows (sub_bytes s))) rk"

definition round_last :: "bytes \<Rightarrow> u32 list \<Rightarrow> bytes" where
  "round_last s rk = add_round_key (shift_rows (sub_bytes s)) rk"

definition quic_aes128_encrypt :: "quic_aes128 \<Rightarrow> bytes \<Rightarrow> bytes" where
  "quic_aes128_encrypt a inp =
     (let s = map (rd inp) [0..<16];
          s = add_round_key s a;
          s = fold (\<lambda>r s. round_full s (drop (4 * r) a)) [1..<10] s
      in round_last s (drop (4 * 10) a))"

section \<open>gcm.c\<close>

definition xor16 :: "bytes \<Rightarrow> bytes \<Rightarrow> bytes" where
  "xor16 dst src = map (\<lambda>i. rd dst i XOR rd src i) [0..<16]"

definition shr1 :: "bytes \<Rightarrow> bytes" where
  "shr1 x = drop_bit 1 (x ! 0) # map (\<lambda>i. drop_bit 1 (x ! i) OR push_bit 7 (x ! (i - 1))) [1..<16]"

definition gf_step :: "bytes \<times> bytes \<Rightarrow> u8 \<Rightarrow> bytes \<times> bytes" where
  "gf_step zv msk =
     (let (z, v) = zv;
          z = map (\<lambda>j. z ! j XOR (v ! j AND msk)) [0..<16];
          lsb = - (v ! 15 AND 1);
          v = shr1 v
      in (z, v[0 := v ! 0 XOR (0xe1 AND lsb)]))"

definition gf_mul :: "bytes \<Rightarrow> bytes \<Rightarrow> bytes" where
  "gf_mul x y =
     fst (foldl (\<lambda>zv bt. gf_step zv (- (drop_bit (7 - bt mod 8) (y ! (bt div 8)) AND 1))) (replicate 16 0, map (rd x) [0..<16]) [0..<128])"

definition ghash_block :: "bytes \<Rightarrow> bytes \<Rightarrow> bytes \<Rightarrow> bytes" where
  "ghash_block h y block = gf_mul (xor16 y block) (map (rd h) [0..<16])"

definition block_n :: "usz \<Rightarrow> usz \<Rightarrow> usz" where
  "block_n off len = (if len - off < 16 then len - off else 16)"

definition load_block :: "bytes \<Rightarrow> usz \<Rightarrow> usz \<Rightarrow> bytes" where
  "load_block p off len = (let n = block_n off len in map (\<lambda>i. if i < n then rd p (off + i) else 0) [0..<16])"

function ghash_loop :: "bytes \<Rightarrow> bytes \<Rightarrow> bytes \<Rightarrow> usz \<Rightarrow> usz \<Rightarrow> bytes" where
  "ghash_loop h y p len off =
     (if off < len then ghash_loop h (ghash_block h y (load_block p off len)) p len (off + 16) else y)"
  by pat_completeness auto
termination by (relation "measure (\<lambda>(h, y, p, len, off). len - off)") auto

definition ghash_bytes :: "bytes \<Rightarrow> bytes \<Rightarrow> bytes \<Rightarrow> usz \<Rightarrow> bytes" where
  "ghash_bytes h y p len = ghash_loop h y p len 0"

definition gcm_put_be64 :: "u64 \<Rightarrow> bytes" where
  "gcm_put_be64 v = map (\<lambda>i. ucast (drop_bit (56 - i * 8) v)) [0..<8]"

text \<open>The counter is incremented from its last byte, stopping at the first byte that does not become 0.\<close>

fun ctr_inc_from :: "nat list \<Rightarrow> bytes \<Rightarrow> bytes" where
  "ctr_inc_from [] c = c"
| "ctr_inc_from (i # js) c =
     (let c = c[i - 1 := c ! (i - 1) + 1] in if c ! (i - 1) \<noteq> 0 then c else ctr_inc_from js c)"

definition ctr_inc :: "bytes \<Rightarrow> bytes" where
  "ctr_inc c = ctr_inc_from [16, 15, 14, 13] c"

definition ctr_chunk :: "quic_aes128 \<Rightarrow> bytes \<Rightarrow> bytes \<Rightarrow> usz \<Rightarrow> usz \<Rightarrow> bytes \<Rightarrow> usz \<times> bytes \<times> bytes" where
  "ctr_chunk a ctr inp off len out =
     (let n = if len - off < 16 then len - off else 16;
          ks = quic_aes128_encrypt a ctr
      in (n, ctr_inc ctr, overwrite out off (map (\<lambda>i. rd inp (off + i) XOR rd ks i) [0..<n])))"

function ctr_loop :: "quic_aes128 \<Rightarrow> bytes \<Rightarrow> bytes \<Rightarrow> usz \<Rightarrow> usz \<Rightarrow> bytes \<Rightarrow> bytes" where
  "ctr_loop a ctr inp len off out =
     (if off < len
      then let (n, ctr, out) = ctr_chunk a ctr inp off len out in ctr_loop a ctr inp len (off + n) out
      else out)"
  by pat_completeness auto
termination
  by (relation "measure (\<lambda>(a, ctr, inp, len, off, out). len - off)") (auto simp: ctr_chunk_def Let_def split: if_splits)

definition ctr_xor :: "quic_aes128 \<Rightarrow> bytes \<Rightarrow> bytes \<Rightarrow> usz \<Rightarrow> bytes \<Rightarrow> bytes" where
  "ctr_xor a ctr inp len out = ctr_loop a ctr inp len 0 out"

definition gcm_setup :: "quic_aes128 \<Rightarrow> bytes \<Rightarrow> bytes \<times> bytes" where
  "gcm_setup a nonce = (quic_aes128_encrypt a (replicate 16 0), map (rd nonce) [0..<12] @ [0, 0, 0, 1])"

definition gcm_tag :: "quic_aes128 \<Rightarrow> bytes \<Rightarrow> bytes \<Rightarrow> bytes \<Rightarrow> usz \<Rightarrow> bytes \<Rightarrow> usz \<Rightarrow> bytes" where
  "gcm_tag a h j0 aad aad_len ct ct_len =
     (let y = ghash_bytes h (replicate 16 0) aad aad_len;
          y = ghash_bytes h y ct ct_len;
          lens = gcm_put_be64 (of_nat aad_len * 8) @ gcm_put_be64 (of_nat ct_len * 8);
          y = ghash_block h y lens;
          ej0 = quic_aes128_encrypt a j0
      in map (\<lambda>i. y ! i XOR ej0 ! i) [0..<16])"

definition quic_gcm_seal :: "quic_aes128 \<Rightarrow> bytes \<Rightarrow> bytes \<Rightarrow> usz \<Rightarrow> bytes \<Rightarrow> usz \<Rightarrow> bytes \<Rightarrow> bytes \<times> bytes" where
  "quic_gcm_seal a nonce aad aad_len pt pt_len ct =
     (let (h, j0) = gcm_setup a nonce;
          ctr = ctr_inc j0;
          ct = ctr_xor a ctr pt pt_len ct
      in (ct, gcm_tag a h j0 aad aad_len ct pt_len))"

definition quic_gcm_open :: "quic_aes128 \<Rightarrow> bytes \<Rightarrow> bytes \<Rightarrow> usz \<Rightarrow> bytes \<Rightarrow> usz \<Rightarrow> bytes \<Rightarrow> bytes \<Rightarrow> bool \<times> bytes" where
  "quic_gcm_open a nonce aad aad_len ct ct_len tag pt =
     (let (h, j0) = gcm_setup a nonce;
          want = gcm_tag a h j0 aad aad_len ct ct_len
      in if quic_ct_diff16 want tag \<noteq> 0 then (False, pt)
         else let ctr = ctr_inc j0 in (True, ctr_xor a ctr ct ct_len pt))"

declare ghash_loop.simps [simp del] ctr_loop.simps [simp del]

section \<open>Counter mode\<close>

lemma length_add_round_key [simp]: "length (add_round_key s rk) = 16"
  by (simp add: add_round_key_def upt4)

lemma length_encrypt [simp]: "length (quic_aes128_encrypt a inp) = 16"
  by (simp add: quic_aes128_encrypt_def round_last_def Let_def)

interpretation gctr: stream_cipher 16 "quic_aes128_encrypt a" ctr_inc "ctr_loop a"
  by unfold_locales (simp, simp, subst ctr_loop.simps, simp add: ctr_chunk_def Let_def)

definition gcm_crypt :: "quic_aes128 \<Rightarrow> bytes \<Rightarrow> bytes \<Rightarrow> bytes" where
  "gcm_crypt a nonce x = xor_bytes x (gctr.keystream a (ctr_inc (snd (gcm_setup a nonce))) (length x))"

lemma load_block_take: "len \<le> length p \<Longrightarrow> load_block (take len p) off len = load_block p off len"
  by (auto simp: load_block_def block_n_def rd_def)

lemma ghash_loop_take: "len \<le> length p \<Longrightarrow> ghash_loop h y (take len p) len off = ghash_loop h y p len off"
proof (induction h y p len off rule: ghash_loop.induct)
  case (1 h y p len off)
  then show ?case by (subst (1 2) ghash_loop.simps) (simp add: load_block_take)
qed

lemma gcm_tag_take:
  "aad_len \<le> length aad \<Longrightarrow> ct_len \<le> length ct \<Longrightarrow>
    gcm_tag a h j0 (take aad_len aad) aad_len (take ct_len ct) ct_len = gcm_tag a h j0 aad aad_len ct ct_len"
  by (simp add: gcm_tag_def ghash_bytes_def ghash_loop_take)

definition gcm_tag_of :: "quic_aes128 \<Rightarrow> bytes \<Rightarrow> bytes \<Rightarrow> bytes \<Rightarrow> bytes" where
  "gcm_tag_of a nonce aad ct =
     gcm_tag a (fst (gcm_setup a nonce)) (snd (gcm_setup a nonce)) aad (length aad) ct (length ct)"

interpretation gcm: aead_cipher quic_gcm_seal quic_gcm_open gcm_crypt gcm_tag_of
proof unfold_locales
  fix a nonce aad x pt ct tag and aad_len pt_len ct_len :: nat
  show "length (gcm_crypt a nonce x) = length x" by (simp add: gcm_crypt_def)
  show "gcm_crypt a nonce (gcm_crypt a nonce x) = x" by (simp add: gcm_crypt_def xor_bytes_cancel)
  show t: "length (gcm_tag_of a nonce aad x) = 16" for aad x by (simp add: gcm_tag_of_def gcm_tag_def Let_def)
  have x: "ctr_xor a (ctr_inc (snd (gcm_setup a nonce))) inp len out = overwrite out 0 (gcm_crypt a nonce (take len inp))"
    if "len \<le> length inp" "len \<le> length out" for inp len out
    using gctr.loop_xor[OF that, of 0 a] that by (simp add: ctr_xor_def gcm_crypt_def)
  obtain h j0 where g: "gcm_setup a nonce = (h, j0)" by (cases "gcm_setup a nonce")
  show "quic_gcm_seal a nonce aad aad_len pt pt_len ct = (overwrite ct 0 (gcm_crypt a nonce (take pt_len pt)),
      gcm_tag_of a nonce (take aad_len aad) (gcm_crypt a nonce (take pt_len pt)))"
    if "aad_len \<le> length aad" "pt_len \<le> length pt" "pt_len \<le> length ct"
  proof -
    have "take pt_len (overwrite ct 0 (gcm_crypt a nonce (take pt_len pt))) = gcm_crypt a nonce (take pt_len pt)"
      using that by (simp add: overwrite_0 gcm_crypt_def)
    then show ?thesis
      using that x[OF that(2,3)] gcm_tag_take[of aad_len aad pt_len "overwrite ct 0 (gcm_crypt a nonce (take pt_len pt))" a h j0]
      by (simp add: quic_gcm_seal_def gcm_tag_of_def g gcm_crypt_def Let_def)
  qed
  show "quic_gcm_open a nonce aad aad_len ct ct_len tag pt =
      (if take 16 tag = gcm_tag_of a nonce (take aad_len aad) (take ct_len ct) then (True, overwrite pt 0 (gcm_crypt a nonce (take ct_len ct))) else (False, pt))"
    if "aad_len \<le> length aad" "ct_len \<le> length ct" "ct_len \<le> length pt" "16 \<le> length tag"
  proof -
    have "gcm_tag a h j0 aad aad_len ct ct_len = gcm_tag_of a nonce (take aad_len aad) (take ct_len ct)"
      using that gcm_tag_take[of aad_len aad ct_len ct a h j0] by (simp add: gcm_tag_of_def g)
    then show ?thesis using that x[OF that(2,3)] ct_diff16_zero[OF t that(4)]
      by (auto simp: quic_gcm_open_def g)
  qed
qed

section \<open>The field of GHASH\<close>

text \<open>A block as a 128-bit word, first byte first. SP 800-38D numbers bits from the left, so the
  coefficient of the \<open>i\<close>-th power is bit \<open>127 - i\<close>. \<open>gf_alpha\<close> multiplies by the indeterminate and reduces, and
  \<open>gf_prod\<close> is the product of polynomials in that representation.\<close>

definition block_word :: "bytes \<Rightarrow> 128 word" where
  "block_word b = of_nat (be_val b)"

definition gf_R :: "128 word" where
  "gf_R = push_bit 120 (ucast (0xe1 :: u8))"

definition gf_one :: "128 word" where
  "gf_one = push_bit 127 1"

definition gf_alpha :: "128 word \<Rightarrow> 128 word" where
  "gf_alpha v = drop_bit 1 v XOR (if bit v 0 then gf_R else 0)"

primrec xsum :: "(nat \<Rightarrow> 'a :: len word) \<Rightarrow> nat \<Rightarrow> 'a word" where
  "xsum f 0 = 0"
| "xsum f (Suc n) = xsum f n XOR f n"

definition gf_prod :: "128 word \<Rightarrow> 128 word \<Rightarrow> 128 word" where
  "gf_prod x y = xsum (\<lambda>i. xsum (\<lambda>j. if bit x (127 - j) \<and> bit y (127 - i) then (gf_alpha ^^ (i + j)) gf_one else 0) 128) 128"

lemma bit_be_val: "bit (be_val bs) n \<longleftrightarrow> n div 8 < length bs \<and> bit (bs ! (length bs - 1 - n div 8)) (n mod 8)"
proof (induction bs arbitrary: n rule: rev_induct)
  case (snoc b bs)
  have "push_bit 8 (be_val bs) AND unat b = 0"
    by (rule bit_eqI) (auto simp: bit_simps dest: bit_imp_le_length)
  then have e: "be_val (bs @ [b]) = push_bit 8 (be_val bs) OR unat b"
    by (simp add: disjunctive_add_eq_or push_bit_eq_mult)
  show ?case
  proof (cases "n < 8")
    case True
    then show ?thesis by (simp add: e bit_simps nth_append del: be_val_snoc)
  next
    case False
    then have d: "n div 8 = Suc ((n - 8) div 8)" "(n - 8) mod 8 = n mod 8" by (simp_all add: le_div_geq le_mod_geq)
    have "\<not> bit (unat b) n" using False bit_imp_le_length[of b n] by (auto simp: bit_simps)
    then have "bit (be_val (bs @ [b])) n \<longleftrightarrow> bit (be_val bs) (n - 8)" using False by (simp add: e bit_simps del: be_val_snoc)
    also have "\<dots> \<longleftrightarrow> n div 8 < length (bs @ [b]) \<and> bit ((bs @ [b]) ! (length (bs @ [b]) - 1 - n div 8)) (n mod 8)"
      unfolding snoc.IH d by (auto simp: nth_append)
    finally show ?thesis .
  qed
qed simp

lemma idx16: "[0..<16] ! (15 - k) = 15 - k" "15 - k < (16 :: nat)"
  by (simp_all add: nth_upt del: upt_Suc)

lemma bit_block_word: "length b = 16 \<Longrightarrow> bit (block_word b) n \<longleftrightarrow> n < 128 \<and> bit (b ! (15 - n div 8)) (n mod 8)"
  unfolding block_word_def by (auto simp: bit_simps bit_be_val)

lemma block_word_xor: "length x = 16 \<Longrightarrow> length y = 16 \<Longrightarrow> block_word (xor16 x y) = block_word x XOR block_word y"
  by (rule bit_word_eqI) (simp add: bit_block_word xor16_def bit_simps idx16)

lemma block_word_select:
  assumes "length z = 16" "length v = 16" "c = 0 \<or> c = 1"
  shows "block_word (map (\<lambda>j. z ! j XOR (v ! j AND - c)) [0..<16]) = block_word z XOR (if c = 1 then block_word v else 0)"
  using assms by (intro bit_word_eqI) (auto simp: bit_block_word bit_simps idx16)

lemma shr1_nth: "i < 16 \<Longrightarrow> shr1 v ! i = (if i = 0 then drop_bit 1 (v ! 0) else drop_bit 1 (v ! i) OR push_bit 7 (v ! (i - 1)))"
  by (cases i) (simp_all add: shr1_def del: upt_Suc)

lemma block_word_shr1:
  assumes "length v = 16"
  shows "block_word (shr1 v) = drop_bit 1 (block_word v)"
proof (rule bit_word_eqI)
  fix n assume "n < LENGTH(128)"
  then have n: "n < 128" by simp
  let ?i = "15 - n div 8" and ?k = "n mod 8"
  have l: "length (shr1 v) = 16" by (simp add: shr1_def)
  have i: "shr1 v ! ?i = (if ?i = 0 then drop_bit 1 (v ! 0) else drop_bit 1 (v ! ?i) OR push_bit 7 (v ! (?i - 1)))"
    by (rule shr1_nth) (rule idx16)
  have 8: "\<not> bit (x :: u8) (Suc 7)" for x using bit_imp_le_length[of x 8] by auto
  show "bit (block_word (shr1 v)) n = bit (drop_bit 1 (block_word v)) n"
  proof (cases "?k = 7")
    case True
    then have s: "Suc n div 8 = Suc (n div 8)" "Suc n mod 8 = 0" by (simp_all add: mod_Suc div_Suc)
    have "bit (shr1 v ! ?i) 7 \<longleftrightarrow> ?i \<noteq> 0 \<and> bit (v ! (?i - 1)) 0" unfolding i using 8 by (auto simp: bit_simps)
    moreover have "?i \<noteq> 0 \<longleftrightarrow> Suc n < 128" using n True by presburger
    ultimately show ?thesis using n assms l True s by (simp add: bit_block_word bit_simps)
  next
    case False
    then have k: "Suc n div 8 = n div 8" "Suc n mod 8 = Suc ?k" "?k < 7" by (simp_all add: mod_Suc div_Suc le_neq_implies_less)
    have "bit (shr1 v ! ?i) ?k \<longleftrightarrow> bit (v ! ?i) (Suc ?k)" unfolding i using k(3) by (auto simp: bit_simps)
    moreover have "Suc n < 128" using n False by presburger
    ultimately show ?thesis using n assms l k by (simp add: bit_block_word bit_simps)
  qed
qed

lemma bit_gf_R: "bit gf_R n \<longleftrightarrow> 120 \<le> n \<and> n < 128 \<and> bit (0xe1 :: u8) (n - 120)"
  unfolding gf_R_def bit_push_bit_iff bit_ucast_iff by auto

lemma gf_step_word:
  assumes "length z = 16" "length v = 16" "c = 0 \<or> c = 1" "gf_step (z, v) (- c) = (z', v')"
  shows "length z' = 16" "length v' = 16"
    and "block_word z' = block_word z XOR (if c = 1 then block_word v else 0)" "block_word v' = gf_alpha (block_word v)"
proof -
  have l: "length (shr1 v) = 16" by (simp add: shr1_def)
  have z: "z' = map (\<lambda>j. z ! j XOR (v ! j AND - c)) [0..<16]" and v: "v' = (shr1 v)[0 := shr1 v ! 0 XOR (0xe1 AND - (v ! 15 AND 1))]"
    using assms(4) by (simp_all add: gf_step_def Let_def)
  show "length z' = 16" "length v' = 16" using l by (simp_all add: z v)
  show "block_word z' = block_word z XOR (if c = 1 then block_word v else 0)" unfolding z by (rule block_word_select[OF assms(1,2,3)])
  have b0: "bit (block_word v) 0 \<longleftrightarrow> bit (v ! 15) 0" using assms(2) by (simp add: bit_block_word)
  have one: "v ! 15 AND 1 = (if bit (v ! 15) 0 then 1 else 0)" by (simp add: and_one_eq bit_0 odd_iff_mod_2_eq_one)
  have "block_word v' = block_word (shr1 v) XOR (if bit (v ! 15) 0 then gf_R else 0)"
  proof (rule bit_word_eqI)
    fix n assume "n < LENGTH(128)"
    then have n: "n < 128" by simp
    have "bit (block_word v') n \<longleftrightarrow> bit (v' ! (15 - n div 8)) (n mod 8)" using n l by (simp add: bit_block_word v)
    also have "\<dots> \<longleftrightarrow> (bit (shr1 v ! (15 - n div 8)) (n mod 8) \<noteq> (120 \<le> n \<and> bit (v ! 15) 0 \<and> bit (0xe1 :: u8) (n - 120)))"
    proof (cases "120 \<le> n")
      case True
      then have "n div 8 = 15" "n mod 8 = n - 120" using n by presburger+
      then show ?thesis using l True by (simp add: v one bit_simps)
    next
      case False
      then have "15 - n div 8 \<noteq> 0" by presburger
      then show ?thesis using False by (simp add: v)
    qed
    finally show "bit (block_word v') n = bit (block_word (shr1 v) XOR (if bit (v ! 15) 0 then gf_R else 0)) n"
      using n l by (auto simp: bit_block_word bit_gf_R bit_xor_iff)
  qed
  then show "block_word v' = gf_alpha (block_word v)" using block_word_shr1[OF assms(2)] b0 by (simp add: gf_alpha_def)
qed

lemma gf_alpha_xor: "gf_alpha (a XOR b) = gf_alpha a XOR gf_alpha b"
  by (rule bit_word_eqI) (auto simp: gf_alpha_def bit_simps)

lemma gf_alpha_pow_xor: "(gf_alpha ^^ n) (a XOR b) = (gf_alpha ^^ n) a XOR (gf_alpha ^^ n) b"
  by (induction n) (simp_all add: gf_alpha_xor)

lemma gf_alpha_pow_0: "(gf_alpha ^^ n) 0 = 0"
  by (induction n) (simp_all add: gf_alpha_def)

lemma gf_alpha_pow_xsum: "(gf_alpha ^^ n) (xsum f k) = xsum (\<lambda>j. (gf_alpha ^^ n) (f j)) k"
  by (induction k) (simp_all add: gf_alpha_pow_xor gf_alpha_pow_0)

lemma gf_alpha_unit: "j \<le> 127 \<Longrightarrow> (gf_alpha ^^ j) gf_one = push_bit (127 - j) 1"
proof (induction j)
  case (Suc j)
  then have "(gf_alpha ^^ Suc j) gf_one = gf_alpha (push_bit (127 - j) 1)" by simp
  also have "\<dots> = push_bit (127 - Suc j) 1"
    using Suc.prems unfolding gf_alpha_def by (intro bit_word_eqI) (auto simp: bit_simps bit_1_iff)
  finally show ?case .
qed (simp add: gf_one_def)

lemma xsum_cong: "(\<And>i. i < n \<Longrightarrow> f i = g i) \<Longrightarrow> xsum f n = xsum g n"
  by (induction n) simp_all

lemma word_xsum: "x = xsum (\<lambda>j. if bit x (127 - j) then (gf_alpha ^^ j) gf_one else 0) 128"
proof (rule bit_word_eqI)
  fix n assume n: "n < LENGTH(128)"
  have "bit (xsum (\<lambda>j. if bit x (127 - j) then push_bit (127 - j) 1 else 0) k :: 128 word) n \<longleftrightarrow> 127 - n < k \<and> bit x n" if "k \<le> 128" for k
    using that
  proof (induction k)
    case (Suc k)
    have "bit (if bit x (127 - k) then push_bit (127 - k) 1 else 0 :: 128 word) n \<longleftrightarrow> n = 127 - k \<and> bit x n"
      using n by (auto simp: bit_simps bit_1_iff)
    then show ?case using Suc n by (auto simp: bit_simps)
  qed simp
  from this[of 128] n have "bit (xsum (\<lambda>j. if bit x (127 - j) then push_bit (127 - j) 1 else 0) 128 :: 128 word) n \<longleftrightarrow> bit x n" by auto
  moreover have "xsum (\<lambda>j. if bit x (127 - j) then (gf_alpha ^^ j) gf_one else 0) 128
    = xsum (\<lambda>j. if bit x (127 - j) then push_bit (127 - j) 1 else 0) 128"
    by (rule xsum_cong) (simp add: gf_alpha_unit)
  ultimately show "bit x n = bit (xsum (\<lambda>j. if bit x (127 - j) then (gf_alpha ^^ j) gf_one else 0) 128) n" by simp
qed

lemma div8: "r < 8 \<Longrightarrow> (8 * q + r) div 8 = (q :: nat)" "r < 8 \<Longrightarrow> (8 * q + r) mod 8 = r"
  by simp_all

lemma mult_bit:
  assumes "length y = 16" "i < 128"
  shows "drop_bit (7 - i mod 8) (y ! (i div 8)) AND 1 = (if bit (block_word y) (127 - i) then 1 else 0)"
proof -
  have q: "i div 8 \<le> 15" "i mod 8 \<le> 7" "i = 8 * (i div 8) + i mod 8" using assms(2) by simp_all
  then have "127 - i = 8 * (15 - i div 8) + (7 - i mod 8)" using assms(2) by linarith
  then have "(127 - i) div 8 = 15 - i div 8" "(127 - i) mod 8 = 7 - i mod 8"
    using div8[of "7 - i mod 8" "15 - i div 8"] by simp_all
  note this q(1)
  with assms le_imp_less_Suc[OF diff_le_self[of 127 i]] have "bit (block_word y) (127 - i) = bit (y ! (i div 8)) (7 - i mod 8)" by (auto simp: bit_block_word)
  then show ?thesis by (simp add: and_one_eq bit_iff_odd_drop_bit odd_iff_mod_2_eq_one)
qed

lemma gf_mul_steps:
  assumes "length x = 16" "length y = 16" "k \<le> 128"
  shows "\<exists>z v. foldl (\<lambda>zv bt. gf_step zv (- (drop_bit (7 - bt mod 8) (y ! (bt div 8)) AND 1))) (replicate 16 0, map (rd x) [0..<16]) [0..<k] = (z, v)
    \<and> length z = 16 \<and> length v = 16 \<and> block_word v = (gf_alpha ^^ k) (block_word x)
    \<and> block_word z = xsum (\<lambda>i. if bit (block_word y) (127 - i) then (gf_alpha ^^ i) (block_word x) else 0) k"
  using assms(3)
proof (induction k)
  case 0
  have "block_word (replicate 16 0) = 0" by (rule bit_word_eqI) (simp add: bit_block_word)
  then show ?case using assms(1) by (simp add: map_rd_take)
next
  case (Suc k)
  then obtain z v where h: "foldl (\<lambda>zv bt. gf_step zv (- (drop_bit (7 - bt mod 8) (y ! (bt div 8)) AND 1))) (replicate 16 0, map (rd x) [0..<16]) [0..<k] = (z, v)"
    "length z = 16" "length v = 16" "block_word v = (gf_alpha ^^ k) (block_word x)"
    "block_word z = xsum (\<lambda>i. if bit (block_word y) (127 - i) then (gf_alpha ^^ i) (block_word x) else 0) k" by auto
  let ?c = "if bit (block_word y) (127 - k) then 1 else 0 :: u8"
  have c: "drop_bit (7 - k mod 8) (y ! (k div 8)) AND 1 = ?c" using mult_bit[OF assms(2), of k] Suc.prems by simp
  obtain z' v' where s: "gf_step (z, v) (- ?c) = (z', v')" by (cases "gf_step (z, v) (- ?c)")
  have "?c = 0 \<or> ?c = 1" by simp
  note w = gf_step_word[OF h(2,3) this s]
  show ?case using w h(1,4,5) s by (simp add: c)
qed

lemma gf_prod_steps: "gf_prod x y = xsum (\<lambda>i. if bit y (127 - i) then (gf_alpha ^^ i) x else 0) 128"
proof -
  have "(gf_alpha ^^ i) x = xsum (\<lambda>j. if bit x (127 - j) then (gf_alpha ^^ (i + j)) gf_one else 0) 128" for i
    by (subst word_xsum[of x], subst gf_alpha_pow_xsum) (simp add: funpow_add gf_alpha_pow_0 if_distrib cong: if_cong)
  moreover have "xsum (\<lambda>j. 0) n = (0 :: 128 word)" for n by (induction n) simp_all
  ultimately show ?thesis unfolding gf_prod_def by (intro xsum_cong) (simp cong: if_cong)
qed

lemma gf_mul_prod:
  assumes "length x = 16" "length y = 16"
  shows "block_word (gf_mul x y) = gf_prod (block_word x) (block_word y)" "length (gf_mul x y) = 16"
  using gf_mul_steps[OF assms, of 128] by (auto simp: gf_mul_def gf_prod_steps)

lemma xsum_xor: "xsum (\<lambda>i. f i XOR g i) n = xsum f n XOR xsum g n"
  by (induction n) (simp_all add: ac_simps)

lemma xsum_swap: "xsum (\<lambda>i. xsum (f i) m) n = xsum (\<lambda>j. xsum (\<lambda>i. f i j) n) m"
proof (induction n)
  case 0
  have "xsum (\<lambda>j. 0) m = (0 :: 'a word)" by (induction m) simp_all
  then show ?case by simp
qed (simp add: xsum_xor)

lemma gf_prod_commute: "gf_prod x y = gf_prod y x"
  unfolding gf_prod_def by (subst xsum_swap) (simp add: conj_commute add.commute cong: if_cong)

lemma gf_prod_xor: "gf_prod (x XOR w) y = gf_prod x y XOR gf_prod w y"
  unfolding gf_prod_steps xsum_xor[symmetric] by (rule xsum_cong) (simp add: gf_alpha_pow_xor)

lemma block_word_inj: "length x = 16 \<Longrightarrow> length y = 16 \<Longrightarrow> block_word x = block_word y \<Longrightarrow> x = y"
proof (rule nth_equalityI)
  fix i assume a: "length x = 16" "length y = 16" "block_word x = block_word y" "i < length x"
  then have i: "15 - (15 - i) = i" "i \<le> 15" by simp_all
  show "x ! i = y ! i"
  proof (rule bit_word_eqI)
    fix n assume n: "n < LENGTH(8)"
    let ?m = "8 * (15 - i) + n"
    have "?m div 8 = 15 - i" "?m mod 8 = n" "?m < 128" using n i(2) by simp_all
    then show "bit (x ! i) n = bit (y ! i) n" using a i bit_block_word[OF a(1), of ?m] bit_block_word[OF a(2), of ?m] by simp
  qed
qed simp

lemma block_word_one: "block_word (0x80 # replicate 15 0) = gf_one"
proof -
  have "be_val (replicate n 0) = 0" for n by (induction n) (simp_all add: be_val_Cons)
  then have "be_val (0x80 # replicate 15 0) = 2 ^ 127" by (simp add: be_val_Cons)
  then show ?thesis by (simp add: block_word_def gf_one_def)
qed

section \<open>GHASH and the tag\<close>

definition pad16 :: "bytes \<Rightarrow> bytes" where
  "pad16 x = x @ replicate ((16 - length x mod 16) mod 16) 0"

definition ghash_ref :: "128 word \<Rightarrow> bytes \<Rightarrow> 128 word" where
  "ghash_ref h x = foldl (\<lambda>y b. gf_prod (y XOR block_word b) h) 0 (chunks 16 x)"

lemma length_pad16: "length (pad16 x) mod 16 = 0"
proof -
  have "(n + (16 - n mod 16) mod 16) mod 16 = 0" for n :: nat
  proof (cases "n mod 16 = 0")
    case False
    moreover have "n mod 16 < 16" by simp
    ultimately have "(16 - n mod 16) mod 16 = 16 - n mod 16" "n mod 16 + (16 - n mod 16) = 16" by simp_all
    then show ?thesis by (metis mod_add_left_eq mod_self)
  qed simp
  then show ?thesis by (simp add: pad16_def)
qed

lemma pad16_step:
  assumes "x \<noteq> []"
  shows "chunks 16 (pad16 x) = (take 16 x @ replicate (16 - length x) 0) # chunks 16 (pad16 (drop 16 x))"
proof (cases "16 \<le> length x")
  case True
  then have "pad16 x = take 16 x @ pad16 (drop 16 x)" by (simp add: pad16_def le_mod_geq)
  then show ?thesis using True chunks_append[of 16 "take 16 x" "pad16 (drop 16 x)"] chunks.simps[of 16 "take 16 x"] by simp
next
  case False
  then have "pad16 x = x @ replicate (16 - length x) 0" using assms by (simp add: pad16_def)
  then show ?thesis using False chunks.simps[of 16 "pad16 x"] by (simp add: pad16_def[of "[]"])
qed

lemma load_block_eq:
  assumes "off < len" "len \<le> length p"
  shows "load_block p off len = take 16 (drop off (take len p)) @ replicate (16 - (len - off)) 0"
  using assms by (intro nth_equalityI) (auto simp: load_block_def block_n_def nth_append min_def)

lemma ghash_loop_chunks:
  "len \<le> length p \<Longrightarrow> ghash_loop h y p len off = foldl (ghash_block h) y (chunks 16 (pad16 (drop off (take len p))))"
proof (induction h y p len off rule: ghash_loop.induct)
  case (1 h y p len off)
  show ?case
  proof (cases "off < len")
    case True
    have "drop off (take len p) \<noteq> []" using True 1(2) by simp
    from pad16_step[OF this] load_block_eq[OF True 1(2)] 1 True show ?thesis
      by (subst ghash_loop.simps) (simp add: add.commute)
  next
    case False
    then show ?thesis by (subst ghash_loop.simps) (simp add: pad16_def)
  qed
qed

lemma ghash_fold_word:
  assumes "length h = 16" "\<forall>b \<in> set bs. length b = 16" "length y = 16"
  shows "block_word (foldl (ghash_block h) y bs) = foldl (\<lambda>y b. gf_prod (y XOR block_word b) (block_word h)) (block_word y) bs
    \<and> length (foldl (ghash_block h) y bs) = 16"
  using assms(2,3)
proof (induction bs arbitrary: y)
  case (Cons b bs)
  have l: "length (xor16 y b) = 16" by (simp add: xor16_def)
  have "block_word (ghash_block h y b) = gf_prod (block_word y XOR block_word b) (block_word h)" "length (ghash_block h y b) = 16"
    using gf_mul_prod[OF l assms(1)] block_word_xor[of y b] Cons.prems assms(1) by (simp_all add: ghash_block_def map_rd_take)
  then show ?case using Cons by simp
qed simp

lemma gcm_put_be64_eq: "8 * n < 2 ^ 64 \<Longrightarrow> gcm_put_be64 (of_nat n * 8) = be_bytes 8 (8 * n)"
proof -
  assume a: "8 * n < 2 ^ 64"
  have "map (\<lambda>i. ucast (drop_bit (56 - i * 8) v) :: u8) [0..<8] = map (\<lambda>i. ucast (drop_bit ((8 - 1 - i) * 8) v) :: u8) [0..<8]" for v :: u64
    by (intro map_cong) (simp_all add: diff_mult_distrib)
  then have "gcm_put_be64 v = be_bytes 8 (unat v)" for v by (simp only: gcm_put_be64_def pn_bytes_eq)
  moreover have "of_nat n * 8 = (of_nat (8 * n) :: u64)" by simp
  ultimately show ?thesis using a by (simp only: unat_of_nat) simp
qed

text \<open>C39: The GCM tag is that of SP 800-38D: with the product of the field GF(2\<open>^\<close>128) on 128-bit words, the tag
  is the GHASH of the zero-padded associated data, the zero-padded ciphertext and the two bit lengths, under the
  encryption of the zero block, masked with the encryption of the initial counter block.\<close>

theorem gcm_tag_correct:
  assumes "aad_len \<le> length aad" "ct_len \<le> length ct" "8 * aad_len < 2 ^ 64" "8 * ct_len < 2 ^ 64"
    and "gcm_setup a nonce = (h, j0)"
  shows "block_word (gcm_tag a h j0 aad aad_len ct ct_len) =
    ghash_ref (block_word (quic_aes128_encrypt a (replicate 16 0)))
      (pad16 (take aad_len aad) @ pad16 (take ct_len ct) @ be_bytes 8 (8 * aad_len) @ be_bytes 8 (8 * ct_len))
    XOR block_word (quic_aes128_encrypt a j0)"
proof -
  let ?A = "pad16 (take aad_len aad)" and ?C = "pad16 (take ct_len ct)" and ?L = "be_bytes 8 (8 * aad_len) @ be_bytes 8 (8 * ct_len)"
  have h: "h = quic_aes128_encrypt a (replicate 16 0)" using assms(5) by (simp add: gcm_setup_def)
  define y where "y = foldl (ghash_block h) (replicate 16 0) (chunks 16 (?A @ ?C @ ?L))"
  have c: "chunks 16 (?A @ ?C @ ?L) = chunks 16 ?A @ chunks 16 ?C @ [?L]"
    using chunks_append[of 16 ?A "?C @ ?L"] chunks_append[of 16 ?C ?L] length_pad16 chunks.simps[of 16 ?L] by simp
  have z: "block_word (replicate 16 0) = 0" by (rule bit_word_eqI) (simp add: bit_block_word)
  have bl: "\<forall>b \<in> set (chunks 16 (?A @ ?C @ ?L)). length b = 16" using chunks_len by blast
  have g: "block_word y = foldl (\<lambda>y b. gf_prod (y XOR block_word b) (block_word h)) (block_word (replicate 16 0)) (chunks 16 (?A @ ?C @ ?L)) \<and> length y = 16"
    unfolding y_def by (rule ghash_fold_word[OF _ bl]) (simp_all only: h length_encrypt length_replicate)
  have y: "block_word y = ghash_ref (block_word h) (?A @ ?C @ ?L)" "length y = 16"
    using g unfolding z ghash_ref_def by blast+
  have "gcm_tag a h j0 aad aad_len ct ct_len = map (\<lambda>i. y ! i XOR quic_aes128_encrypt a j0 ! i) [0..<16]"
    using assms(1-4) by (simp add: gcm_tag_def ghash_bytes_def ghash_loop_chunks gcm_put_be64_eq y_def c)
  then have t: "gcm_tag a h j0 aad aad_len ct ct_len = xor16 y (quic_aes128_encrypt a j0)"
    using y(2) by (simp add: xor16_def)
  show ?thesis unfolding t using block_word_xor[of y] h y by simp
qed

theorem gcm_tag_correct_witness:
  "block_word (gcm_tag (quic_aes128_init (replicate 16 0)) (fst (gcm_setup (quic_aes128_init (replicate 16 0)) (replicate 12 0)))
      (snd (gcm_setup (quic_aes128_init (replicate 16 0)) (replicate 12 0))) [1] 1 [2] 1) =
    ghash_ref (block_word (quic_aes128_encrypt (quic_aes128_init (replicate 16 0)) (replicate 16 0)))
      (pad16 [1] @ pad16 [2] @ be_bytes 8 8 @ be_bytes 8 8)
    XOR block_word (quic_aes128_encrypt (quic_aes128_init (replicate 16 0)) (snd (gcm_setup (quic_aes128_init (replicate 16 0)) (replicate 12 0))))"
  using gcm_tag_correct[of 1 "[1]" 1 "[2]" "quic_aes128_init (replicate 16 0)" "replicate 12 0", OF _ _ _ _ surjective_pairing] by simp

section \<open>The cipher\<close>

lemma XTIME_if: "XTIME x = push_bit 1 x XOR (if bit x 7 then 0x1b else 0)"
proof -
  have "drop_bit 7 x = (if bit x 7 then 1 else 0)"
  proof (rule bit_word_eqI)
    fix n
    have "\<not> bit x (7 + n)" if "n \<noteq> 0" using that bit_imp_le_length[of x "7 + n"] by auto
    then show "bit (drop_bit 7 x) n = bit (if bit x 7 then 1 else 0 :: u8) n" by (cases "n = 0") (auto simp: bit_simps bit_1_iff)
  qed
  then show ?thesis by (simp add: XTIME_def)
qed

lemma XTIME_xor: "XTIME (a XOR b) = XTIME a XOR XTIME b"
  by (rule bit_word_eqI) (auto simp: XTIME_if bit_simps)

lemma xor_left_self: "a XOR (a XOR b) = (b :: 'a :: len word)"
  by (simp add: xor.assoc[symmetric])

lemmas xor_ac = xor.assoc xor.commute xor.left_commute xor_left_self

text \<open>Multiplication in the field of AES, and its powers of \<open>3\<close>, which are all nonzero elements.\<close>

definition aes_mul :: "u8 \<Rightarrow> u8 \<Rightarrow> u8" where
  "aes_mul x y = xsum (\<lambda>i. if bit y i then (XTIME ^^ i) x else 0) 8"

definition aes_affine :: "u8 \<Rightarrow> u8" where
  "aes_affine x = (let r = (\<lambda>k. push_bit k x OR drop_bit (8 - k) x) in x XOR r 1 XOR r 2 XOR r 3 XOR r 4 XOR 0x63)"

definition mul3 :: "u8 \<Rightarrow> u8" where
  "mul3 x = x XOR XTIME x"

definition aes_pow3 :: "u8 list" where
  "aes_pow3 =
   [0x01, 0x03, 0x05, 0x0f, 0x11, 0x33, 0x55, 0xff, 0x1a, 0x2e, 0x72, 0x96, 0xa1, 0xf8, 0x13, 0x35,
    0x5f, 0xe1, 0x38, 0x48, 0xd8, 0x73, 0x95, 0xa4, 0xf7, 0x02, 0x06, 0x0a, 0x1e, 0x22, 0x66, 0xaa,
    0xe5, 0x34, 0x5c, 0xe4, 0x37, 0x59, 0xeb, 0x26, 0x6a, 0xbe, 0xd9, 0x70, 0x90, 0xab, 0xe6, 0x31,
    0x53, 0xf5, 0x04, 0x0c, 0x14, 0x3c, 0x44, 0xcc, 0x4f, 0xd1, 0x68, 0xb8, 0xd3, 0x6e, 0xb2, 0xcd,
    0x4c, 0xd4, 0x67, 0xa9, 0xe0, 0x3b, 0x4d, 0xd7, 0x62, 0xa6, 0xf1, 0x08, 0x18, 0x28, 0x78, 0x88,
    0x83, 0x9e, 0xb9, 0xd0, 0x6b, 0xbd, 0xdc, 0x7f, 0x81, 0x98, 0xb3, 0xce, 0x49, 0xdb, 0x76, 0x9a,
    0xb5, 0xc4, 0x57, 0xf9, 0x10, 0x30, 0x50, 0xf0, 0x0b, 0x1d, 0x27, 0x69, 0xbb, 0xd6, 0x61, 0xa3,
    0xfe, 0x19, 0x2b, 0x7d, 0x87, 0x92, 0xad, 0xec, 0x2f, 0x71, 0x93, 0xae, 0xe9, 0x20, 0x60, 0xa0,
    0xfb, 0x16, 0x3a, 0x4e, 0xd2, 0x6d, 0xb7, 0xc2, 0x5d, 0xe7, 0x32, 0x56, 0xfa, 0x15, 0x3f, 0x41,
    0xc3, 0x5e, 0xe2, 0x3d, 0x47, 0xc9, 0x40, 0xc0, 0x5b, 0xed, 0x2c, 0x74, 0x9c, 0xbf, 0xda, 0x75,
    0x9f, 0xba, 0xd5, 0x64, 0xac, 0xef, 0x2a, 0x7e, 0x82, 0x9d, 0xbc, 0xdf, 0x7a, 0x8e, 0x89, 0x80,
    0x9b, 0xb6, 0xc1, 0x58, 0xe8, 0x23, 0x65, 0xaf, 0xea, 0x25, 0x6f, 0xb1, 0xc8, 0x43, 0xc5, 0x54,
    0xfc, 0x1f, 0x21, 0x63, 0xa5, 0xf4, 0x07, 0x09, 0x1b, 0x2d, 0x77, 0x99, 0xb0, 0xcb, 0x46, 0xca,
    0x45, 0xcf, 0x4a, 0xde, 0x79, 0x8b, 0x86, 0x91, 0xa8, 0xe3, 0x3e, 0x42, 0xc6, 0x51, 0xf3, 0x0e,
    0x12, 0x36, 0x5a, 0xee, 0x29, 0x7b, 0x8d, 0x8c, 0x8f, 0x8a, 0x85, 0x94, 0xa7, 0xf2, 0x0d, 0x17,
    0x39, 0x4b, 0xdd, 0x7c, 0x84, 0x97, 0xa2, 0xfd, 0x1c, 0x24, 0x6c, 0xb4, 0xc7, 0x52, 0xf6]"

lemma mul3_pow3: "map mul3 aes_pow3 = rotate1 aes_pow3"
  unfolding aes_pow3_def by (simp add: mul3_def XTIME_def)

lemma sbox_pow3: "map aes_affine (1 # rev (tl aes_pow3)) = map sbox aes_pow3"
  unfolding aes_pow3_def by (simp add: aes_affine_def sbox_def SBOX_def)

lemma distinct_unat: "distinct (map unat xs) \<Longrightarrow> distinct xs"
  by (simp add: distinct_map)

lemma distinct_pow3: "distinct aes_pow3"
  by (rule distinct_unat) (simp add: aes_pow3_def)

lemma distinct_SBOX: "distinct SBOX"
  by (rule distinct_unat) (simp add: SBOX_def)

lemma pow3_length: "length aes_pow3 = 255" "aes_pow3 ! 0 = 1" "0 \<notin> set aes_pow3" "length SBOX = 256"
  unfolding aes_pow3_def SBOX_def by simp_all

lemma mul3_xor: "mul3 (a XOR b) = mul3 a XOR mul3 b"
  by (simp add: mul3_def XTIME_xor xor_ac)

lemma mul3_0 [simp]: "mul3 0 = 0" "XTIME 0 = 0"
  by (simp_all add: mul3_def XTIME_def)

lemma mul3_XTIME: "XTIME (mul3 x) = mul3 (XTIME x)"
  by (simp add: mul3_def XTIME_xor)

lemma XTIME_pow_mul3: "(XTIME ^^ i) (mul3 x) = mul3 ((XTIME ^^ i) x)"
  by (induction i) (simp_all add: mul3_XTIME)

lemma mul3_xsum: "mul3 (xsum f n) = xsum (\<lambda>i. mul3 (f i)) n"
  by (induction n) (simp_all add: mul3_xor)

lemma aes_mul_mul3: "aes_mul (mul3 x) y = mul3 (aes_mul x y)"
  unfolding aes_mul_def mul3_xsum by (rule xsum_cong) (simp add: XTIME_pow_mul3)

lemma XTIME_pow_one: "i < 8 \<Longrightarrow> (XTIME ^^ i) 1 = push_bit i 1"
proof (induction i)
  case (Suc i)
  then have "(XTIME ^^ Suc i) 1 = XTIME (push_bit i 1)" by simp
  also have "\<dots> = push_bit (Suc i) 1" using Suc.prems unfolding XTIME_if by (auto simp: bit_simps bit_1_iff push_bit_push_bit)
  finally show ?case .
qed simp

lemma aes_mul_1: "aes_mul 1 y = y"
proof (rule bit_word_eqI)
  fix n assume n: "n < LENGTH(8)"
  have "bit (xsum (\<lambda>i. if bit y i then push_bit i 1 else 0) k :: u8) n \<longleftrightarrow> n < k \<and> bit y n" for k
  proof (induction k)
    case (Suc k)
    have "bit (if bit y k then push_bit k 1 else 0 :: u8) n \<longleftrightarrow> n = k \<and> bit y n" using n by (auto simp: bit_simps bit_1_iff)
    then show ?case using Suc by (auto simp: bit_simps)
  qed simp
  moreover have "aes_mul 1 y = xsum (\<lambda>i. if bit y i then push_bit i 1 else 0) 8"
    unfolding aes_mul_def by (rule xsum_cong) (simp add: XTIME_pow_one)
  ultimately show "bit (aes_mul 1 y) n = bit y n" using n by simp
qed

lemma aes_mul_pow3: "aes_mul ((mul3 ^^ i) 1) y = (mul3 ^^ i) y"
  by (induction i) (simp_all add: aes_mul_mul3 aes_mul_1)

lemma nth_pow3: "i < 255 \<Longrightarrow> aes_pow3 ! i = (mul3 ^^ i) 1"
proof (induction i)
  case (Suc i)
  have "mul3 (aes_pow3 ! i) = rotate1 aes_pow3 ! i" using mul3_pow3 Suc.prems pow3_length(1) by (metis Suc_lessD nth_map)
  also have "\<dots> = aes_pow3 ! Suc i" using Suc.prems pow3_length(1) by (simp add: nth_rotate1)
  finally show ?case using Suc by simp
qed (simp add: pow3_length)

lemma pow3_order: "(mul3 ^^ 255) 1 = 1"
proof -
  have "mul3 (aes_pow3 ! 254) = rotate1 aes_pow3 ! 254" using nth_map[of 254 aes_pow3 mul3] mul3_pow3 pow3_length(1) by simp
  then show ?thesis using nth_pow3[of 254] pow3_length by (simp add: nth_rotate1 numeral_eq_Suc)
qed

lemma pow3_all: "b \<noteq> 0 \<Longrightarrow> \<exists>i < 255. b = (mul3 ^^ i) 1"
proof -
  assume b: "b \<noteq> 0"
  have "card (set aes_pow3) = 255" using distinct_card[OF distinct_pow3] pow3_length(1) by simp
  moreover have "card (UNIV - {0 :: u8}) = 255" by (simp add: card_word)
  moreover have "set aes_pow3 \<subseteq> UNIV - {0}" using pow3_length(3) by auto
  ultimately have "set aes_pow3 = UNIV - {0}" by (intro card_subset_eq) simp_all
  then have "b \<in> set aes_pow3" using b by simp
  then show ?thesis using nth_pow3 pow3_length(1) by (auto simp: in_set_conv_nth)
qed

lemma sbox_inverse: "b \<noteq> 0 \<Longrightarrow> \<exists>c. aes_mul b c = 1 \<and> sbox b = aes_affine c"
proof -
  assume "b \<noteq> 0"
  then obtain i where i: "i < 255" "b = (mul3 ^^ i) 1" using pow3_all by blast
  let ?l = "1 # rev (tl aes_pow3)"
  have l: "length ?l = 255" "i < length aes_pow3" using pow3_length(1) i by simp_all
  have "?l ! i = (mul3 ^^ (255 - i)) 1"
  proof (cases i)
    case 0
    then show ?thesis using pow3_order by simp
  next
    case (Suc k)
    then have "Suc (253 - k) = 254 - k" using i by simp
    then have "rev (tl aes_pow3) ! k = aes_pow3 ! (254 - k)"
      using i Suc pow3_length(1) by (simp add: rev_nth nth_tl)
    then show ?thesis using Suc i nth_pow3[of "254 - k"] by (simp add: Suc_diff_le)
  qed
  moreover have "aes_affine (?l ! i) = sbox (aes_pow3 ! i)"
    using sbox_pow3 l nth_map[of i ?l aes_affine] nth_map[of i aes_pow3 sbox] i by (metis length_map)
  moreover have "aes_mul b ((mul3 ^^ (255 - i)) 1) = 1"
    using i pow3_order aes_mul_pow3[of i] funpow_add[of i "255 - i" mul3] by simp
  ultimately show ?thesis using i nth_pow3 by auto
qed

lemma xor_right_cancel: "a XOR c = b XOR c \<longleftrightarrow> a = (b :: 'a :: len word)"
  by (metis xor.assoc xor.right_neutral xor_self_eq)

lemma sbox_inj: "sbox a = sbox b \<Longrightarrow> a = b"
proof -
  assume "sbox a = sbox b"
  moreover have "unat a < length SBOX" "unat b < length SBOX"
    using unsigned_less[of a, where ?'a = nat] unsigned_less[of b, where ?'a = nat] by (simp_all add: pow3_length(4))
  ultimately have "unat a = unat b" using distinct_SBOX by (simp add: sbox_def nth_eq_iff_index_eq)
  then show ?thesis by (simp add: word_unat_eq_iff)
qed

lemma mix_twice: "mix_one (mix_one [a, b, c, d]) =
  (let f = \<lambda>x. XTIME (XTIME x) in [f a XOR a XOR f c, f b XOR b XOR f d, f a XOR f c XOR c, f b XOR f d XOR d])"
  by (simp add: mix_one_def Let_def XTIME_xor xor_ac)

lemma mix_inverse: "mix_one (mix_one (mix_one (mix_one [a, b, c, d]))) = [a, b, c, d]"
  unfolding mix_twice Let_def by (simp add: XTIME_xor xor_ac)

lemma mix_one_inj: "mix_one x = mix_one y \<Longrightarrow> x ! 0 = y ! 0 \<and> x ! 1 = y ! 1 \<and> x ! 2 = y ! 2 \<and> x ! 3 = y ! 3"
proof -
  assume a: "mix_one x = mix_one y"
  have m: "mix_one z = mix_one [z ! 0, z ! 1, z ! 2, z ! 3]" for z by (simp add: mix_one_def eval_nat_numeral)
  have "[x ! 0, x ! 1, x ! 2, x ! 3] = [y ! 0, y ! 1, y ! 2, y ! 3]"
    using mix_inverse[of "x ! 0" "x ! 1" "x ! 2" "x ! 3"] mix_inverse[of "y ! 0" "y ! 1" "y ! 2" "y ! 3"] a by (simp only: m[symmetric])
  then show ?thesis by simp
qed

lemma list16_eqI:
  assumes "length s = 16" "length t = 16"
    and "\<forall>c < 4. \<forall>r < 4. s ! (4 * c + r) = t ! (4 * c + r)"
  shows "s = t"
proof (rule nth_equalityI)
  fix i assume "i < length s"
  then have "i div 4 < 4" "i mod 4 < 4" "4 * (i div 4) + i mod 4 = i" using assms(1) by simp_all
  then show "s ! i = t ! i" using assms(3) by metis
qed (use assms in simp)

lemma all4: "(\<forall>c < 4. P c) \<longleftrightarrow> P 0 \<and> P 1 \<and> P 2 \<and> P (3 :: nat)"
  by (auto simp: numeral_eq_Suc All_less_Suc)

lemma round_steps_len [simp]:
  "length (sub_bytes s) = 16" "length (shift_rows s) = 16" "length (mix_columns s) = 16"
  by (simp_all add: sub_bytes_def shift_rows_def shift_col_def mix_columns_def mix_one_def Let_def upt4)

lemma add_round_key_inj:
  "length s = 16 \<Longrightarrow> length t = 16 \<Longrightarrow> add_round_key s rk = add_round_key t rk \<Longrightarrow> s = t"
  by (rule list16_eqI) (simp_all add: add_round_key_def upt4 all4 xor_right_cancel)

lemma sub_bytes_inj: "length s = 16 \<Longrightarrow> length t = 16 \<Longrightarrow> sub_bytes s = sub_bytes t \<Longrightarrow> s = t"
  by (rule nth_equalityI) (auto simp: sub_bytes_def dest: sbox_inj)

lemma shift_rows_inj: "length s = 16 \<Longrightarrow> length t = 16 \<Longrightarrow> shift_rows s = shift_rows t \<Longrightarrow> s = t"
  by (rule list16_eqI) (simp_all add: shift_rows_def shift_col_def upt4 all4)

lemma mix_columns_inj:
  assumes "length s = 16" "length t = 16" "mix_columns s = mix_columns t"
  shows "s = t"
proof (rule list16_eqI[OF assms(1,2)])
  have l: "length (mix_one x) = 4" for x by (simp add: mix_one_def Let_def)
  have "\<forall>c < 4. mix_one (drop (4 * c) s) = mix_one (drop (4 * c) t)"
    using assms(3) by (simp add: mix_columns_def upt4 all4 l)
  then have "mix_one (drop (4 * c) s) = mix_one (drop (4 * c) t)" if "c < 4" for c using that by blast
  from mix_one_inj[OF this] have m: "\<forall>r < 4. drop (4 * c) s ! r = drop (4 * c) t ! r" if "c < 4" for c
    using that unfolding all4 by blast
  show "\<forall>c < 4. \<forall>r < 4. s ! (4 * c + r) = t ! (4 * c + r)"
  proof (intro allI impI)
    fix c r :: nat assume cr: "c < 4" "r < 4"
    then show "s ! (4 * c + r) = t ! (4 * c + r)" using m[OF cr(1)] assms(1,2) by simp
  qed
qed

lemma rounds_inj:
  assumes "length s = 16" "length t = 16" "fold (\<lambda>r s. round_full s (drop (4 * r) a)) rs s = fold (\<lambda>r s. round_full s (drop (4 * r) a)) rs t"
  shows "s = t"
  using assms
proof (induction rs arbitrary: s t)
  case (Cons r rs)
  have "round_full s (drop (4 * r) a) = round_full t (drop (4 * r) a)" using Cons by (simp add: round_full_def)
  then show ?case unfolding round_full_def using add_round_key_inj mix_columns_inj shift_rows_inj sub_bytes_inj Cons.prems(1,2) by (metis round_steps_len)
qed simp

lemma length_fold_rounds: "length s = 16 \<Longrightarrow> length (fold (\<lambda>r s. round_full s (drop (4 * r) a)) rs s) = 16"
  by (induction rs arbitrary: s) (simp_all add: round_full_def)

lemma encrypt_inj:
  assumes "length x = 16" "length y = 16" "quic_aes128_encrypt a x = quic_aes128_encrypt a y"
  shows "x = y"
proof -
  let ?f = "fold (\<lambda>r s. round_full s (drop (4 * r) a)) [1..<10]"
  have "round_last (?f (add_round_key x a)) (drop 40 a) = round_last (?f (add_round_key y a)) (drop 40 a)"
    using assms by (simp add: quic_aes128_encrypt_def map_rd_take Let_def)
  then have "?f (add_round_key x a) = ?f (add_round_key y a)"
    unfolding round_last_def using add_round_key_inj shift_rows_inj sub_bytes_inj length_fold_rounds by (metis round_steps_len length_add_round_key)
  then have "add_round_key x a = add_round_key y a" using rounds_inj length_add_round_key by blast
  then show ?thesis using add_round_key_inj assms by blast
qed

text \<open>C38: The S-box is the table of FIPS 197: the inverse in the field with 256 elements (0 for 0) followed by the affine
  map. And for every key schedule the cipher is a permutation of the blocks: no
  two blocks have the same encryption.\<close>

theorem aes_cipher_correct:
  "sbox 0 = aes_affine 0 \<and> (\<forall>b. b \<noteq> 0 \<longrightarrow> (\<exists>c. aes_mul b c = 1 \<and> sbox b = aes_affine c))
   \<and> inj_on (quic_aes128_encrypt a) {x. length x = 16}"
  using sbox_inverse encrypt_inj by (auto simp: inj_on_def sbox_def SBOX_def aes_affine_def)

theorem aes_cipher_correct_witness:
  "(\<exists>c. aes_mul 2 c = 1 \<and> sbox 2 = aes_affine c)
   \<and> quic_aes128_encrypt (replicate 44 7) (replicate 16 0) \<noteq> quic_aes128_encrypt (replicate 44 7) (replicate 16 1)"
  using aes_cipher_correct[of "replicate 44 7"] inj_onD[of "quic_aes128_encrypt (replicate 44 7)" "{x. length x = 16}" "replicate 16 0" "replicate 16 1"]
  by auto

end
