(* ===== verification/Chacha_Poly.thy ===== *)
theory Chacha_Poly
  imports Aead
begin

text \<open>
  ChaCha20 (\<^verbatim>\<open>src/crypto/symmetric/aead/chacha/chacha20.c\<close>), Poly1305 (poly1305.c) and the AEAD made of them
  (aead.c). The state of ChaCha20 is a list of 16 words; the 130-bit numbers of Poly1305 are five
  limbs of 26 bits in 32-bit words, with 64-bit products, as in the code, so that every carry
  and every possible overflow is in the model.

  The lemmas show that the limb arithmetic never overflows and computes Poly1305 as RFC 8439 defines it, with numbers
  modulo \<open>2 ^ 130 - 5\<close>, and that opening inverts sealing and accepts nothing but the computed tag.
\<close>

section \<open>chacha20.c\<close>

definition ROTL :: "u32 \<Rightarrow> nat \<Rightarrow> u32" where
  "ROTL x n = push_bit n x OR drop_bit (32 - n) x"

definition QR :: "u32 \<Rightarrow> u32 \<Rightarrow> u32 \<Rightarrow> u32 \<Rightarrow> u32 \<times> u32 \<times> u32 \<times> u32" where
  "QR a b c d =
     (let a = a + b; d = d XOR a; d = ROTL d 16;
          c = c + d; b = b XOR c; b = ROTL b 12;
          a = a + b; d = d XOR a; d = ROTL d 8;
          c = c + d; b = b XOR c; b = ROTL b 7
      in (a, b, c, d))"

definition QR_at :: "nat \<Rightarrow> nat \<Rightarrow> nat \<Rightarrow> nat \<Rightarrow> u32 list \<Rightarrow> u32 list" where
  "QR_at i j k l x =
     (case QR (x ! i) (x ! j) (x ! k) (x ! l) of (a, b, c, d) \<Rightarrow> x[i := a, j := b, k := c, l := d])"

definition rd32 :: "bytes \<Rightarrow> u32" where
  "rd32 p = ucast (rd p 0) OR push_bit 8 (ucast (rd p 1)) OR push_bit 16 (ucast (rd p 2)) OR push_bit 24 (ucast (rd p 3))"

definition double_round :: "u32 list \<Rightarrow> u32 list" where
  "double_round x =
     (let x = QR_at 0 4 8 12 x;
          x = QR_at 1 5 9 13 x;
          x = QR_at 2 6 10 14 x;
          x = QR_at 3 7 11 15 x;
          x = QR_at 0 5 10 15 x;
          x = QR_at 1 6 11 12 x;
          x = QR_at 2 7 8 13 x
      in QR_at 3 4 9 14 x)"

definition init_state :: "bytes \<Rightarrow> u32 \<Rightarrow> bytes \<Rightarrow> u32 list" where
  "init_state key counter nonce =
     [0x61707865, 0x3320646e, 0x79622d32, 0x6b206574] @ map (\<lambda>i. rd32 (drop (4 * i) key)) [0..<8]
     @ [counter] @ map (\<lambda>i. rd32 (drop (4 * i) nonce)) [0..<3]"

definition serialize :: "u32 list \<Rightarrow> u32 list \<Rightarrow> bytes" where
  "serialize x s =
     concat (map (\<lambda>i. let v = x ! i + s ! i in [ucast v, ucast (drop_bit 8 v), ucast (drop_bit 16 v), ucast (drop_bit 24 v)]) [0..<16])"

definition quic_chacha20_block :: "bytes \<Rightarrow> u32 \<Rightarrow> bytes \<Rightarrow> bytes" where
  "quic_chacha20_block key counter nonce =
     (let s = init_state key counter nonce; x = (double_round ^^ 10) s in serialize x s)"

definition xor_chunk :: "bytes \<Rightarrow> u32 \<Rightarrow> bytes \<Rightarrow> bytes \<Rightarrow> usz \<Rightarrow> usz \<Rightarrow> bytes \<Rightarrow> usz \<times> bytes" where
  "xor_chunk key counter nonce inp off len out =
     (let n = if len - off < 64 then len - off else 64;
          ks = quic_chacha20_block key counter nonce
      in (n, overwrite out off (map (\<lambda>i. rd inp (off + i) XOR rd ks i) [0..<n])))"

function chacha_loop :: "bytes \<Rightarrow> bytes \<Rightarrow> u32 \<Rightarrow> bytes \<Rightarrow> usz \<Rightarrow> usz \<Rightarrow> bytes \<Rightarrow> bytes" where
  "chacha_loop key nonce c inp len off out =
     (if off < len
      then let (n, out) = xor_chunk key c nonce inp off len out in chacha_loop key nonce (c + 1) inp len (off + n) out
      else out)"
  by pat_completeness auto
termination
  by (relation "measure (\<lambda>(key, nonce, c, inp, len, off, out). len - off)") (auto simp: xor_chunk_def Let_def split: if_splits)

definition quic_chacha20_xor :: "bytes \<Rightarrow> u32 \<Rightarrow> bytes \<Rightarrow> bytes \<Rightarrow> usz \<Rightarrow> bytes \<Rightarrow> bytes" where
  "quic_chacha20_xor key counter nonce inp len out = chacha_loop key nonce counter inp len 0 out"

section \<open>poly1305.c\<close>

record poly =
  po_r :: "u32 list"
  po_h :: "u32 list"
  po_pad :: "u32 list"

definition rd32le :: "bytes \<Rightarrow> u32" where
  "rd32le p = ucast (rd p 0) OR push_bit 8 (ucast (rd p 1)) OR push_bit 16 (ucast (rd p 2)) OR push_bit 24 (ucast (rd p 3))"

definition poly_init :: "bytes \<Rightarrow> poly" where
  "poly_init key =
     (let t0 = rd32le key; t1 = rd32le (drop 4 key); t2 = rd32le (drop 8 key); t3 = rd32le (drop 12 key)
      in \<lparr>po_r = [t0 AND 0x3ffffff,
                  (drop_bit 26 t0 OR push_bit 6 t1) AND 0x3ffff03,
                  (drop_bit 20 t1 OR push_bit 12 t2) AND 0x3ffc0ff,
                  (drop_bit 14 t2 OR push_bit 18 t3) AND 0x3f03fff,
                  drop_bit 8 t3 AND 0x00fffff],
          po_h = replicate 5 0,
          po_pad = map (\<lambda>i. rd32le (drop (16 + 4 * i) key)) [0..<4]\<rparr>)"

definition poly_add :: "poly \<Rightarrow> bytes \<Rightarrow> u32 \<Rightarrow> poly" where
  "poly_add st m hibit =
     (let t0 = rd32le m; t1 = rd32le (drop 4 m); t2 = rd32le (drop 8 m); t3 = rd32le (drop 12 m); h = po_h st
      in st\<lparr>po_h := [h ! 0 + (t0 AND 0x3ffffff),
                     h ! 1 + ((drop_bit 26 t0 OR push_bit 6 t1) AND 0x3ffffff),
                     h ! 2 + ((drop_bit 20 t1 OR push_bit 12 t2) AND 0x3ffffff),
                     h ! 3 + ((drop_bit 14 t2 OR push_bit 18 t3) AND 0x3ffffff),
                     h ! 4 + (drop_bit 8 t3 OR hibit)]\<rparr>)"

fun carry_loop :: "u64 list \<Rightarrow> u64 \<Rightarrow> u32 list \<times> u64" where
  "carry_loop [] c = ([], c)"
| "carry_loop (d # ds) c =
     (let d = d + c; (hs, c) = carry_loop ds (drop_bit 26 d) in ((ucast d AND 0x3ffffff) # hs, c))"

definition carry_reduce :: "poly \<Rightarrow> u64 list \<Rightarrow> poly" where
  "carry_reduce st d =
     (let (h, c) = carry_loop d 0;
          h = h[0 := h ! 0 + ucast c * 5];
          h = h[1 := h ! 1 + drop_bit 26 (h ! 0)]
      in st\<lparr>po_h := h[0 := h ! 0 AND 0x3ffffff]\<rparr>)"

definition poly_mulmod :: "poly \<Rightarrow> poly" where
  "poly_mulmod st =
     (let r0 = po_r st ! 0; r1 = po_r st ! 1; r2 = po_r st ! 2; r3 = po_r st ! 3; r4 = po_r st ! 4;
          s1 = r1 * 5; s2 = r2 * 5; s3 = r3 * 5; s4 = r4 * 5;
          h0 = ucast (po_h st ! 0) :: u64; h1 = ucast (po_h st ! 1) :: u64; h2 = ucast (po_h st ! 2) :: u64;
          h3 = ucast (po_h st ! 3) :: u64; h4 = ucast (po_h st ! 4) :: u64
      in carry_reduce st
          [h0 * ucast r0 + h1 * ucast s4 + h2 * ucast s3 + h3 * ucast s2 + h4 * ucast s1,
           h0 * ucast r1 + h1 * ucast r0 + h2 * ucast s4 + h3 * ucast s3 + h4 * ucast s2,
           h0 * ucast r2 + h1 * ucast r1 + h2 * ucast r0 + h3 * ucast s4 + h4 * ucast s3,
           h0 * ucast r3 + h1 * ucast r2 + h2 * ucast r1 + h3 * ucast r0 + h4 * ucast s4,
           h0 * ucast r4 + h1 * ucast r3 + h2 * ucast r2 + h3 * ucast r1 + h4 * ucast r0])"

definition pad_byte :: "bytes \<Rightarrow> usz \<Rightarrow> usz \<Rightarrow> u8" where
  "pad_byte m i n = (if i < n then rd m i else if i = n then 1 else 0)"

definition poly_final_block :: "poly \<Rightarrow> bytes \<Rightarrow> usz \<Rightarrow> poly" where
  "poly_final_block st m n = poly_mulmod (poly_add st (map (\<lambda>i. pad_byte m i n) [0..<16]) 0)"

function poly_loop :: "poly \<Rightarrow> bytes \<Rightarrow> usz \<Rightarrow> usz \<Rightarrow> poly" where
  "poly_loop st msg len off =
     (if len - off \<ge> 16 then poly_loop (poly_mulmod (poly_add st (drop off msg) (push_bit 24 1))) msg len (off + 16)
      else if off < len then poly_final_block st (drop off msg) (len - off) else st)"
  by pat_completeness auto
termination by (relation "measure (\<lambda>(st, msg, len, off). len - off)") auto

definition poly_blocks :: "poly \<Rightarrow> bytes \<Rightarrow> usz \<Rightarrow> poly" where
  "poly_blocks st msg len = poly_loop st msg len 0"

definition full_carry :: "u32 list \<Rightarrow> u32 list" where
  "full_carry h =
     (let h = fold (\<lambda>i h. let h = h[i := h ! i + drop_bit 26 (h ! (i - 1))] in h[i - 1 := h ! (i - 1) AND 0x3ffffff]) [1..<5] h;
          h = h[0 := h ! 0 + drop_bit 26 (h ! 4) * 5];
          h = h[1 := h ! 1 + drop_bit 26 (h ! 0)];
          h = h[0 := h ! 0 AND 0x3ffffff]
      in h[4 := h ! 4 AND 0x3ffffff])"

fun plus_loop :: "u32 list \<Rightarrow> u32 \<Rightarrow> u32 list" where
  "plus_loop [] c = []"
| "plus_loop (h # hs) c = (let g = h + c in (g AND 0x3ffffff) # plus_loop hs (drop_bit 26 g))"

definition plus_five :: "u32 list \<Rightarrow> u32 list" where
  "plus_five h = (let g = plus_loop h 5 in g[4 := g ! 4 - push_bit 26 1])"

definition select_mod :: "u32 list \<Rightarrow> u32 list \<Rightarrow> u32 list" where
  "select_mod h g =
     (let msk = drop_bit 31 (g ! 4) - 1 in map (\<lambda>i. (h ! i AND NOT msk) OR (g ! i AND msk)) [0..<5])"

definition poly_pack :: "u32 list \<Rightarrow> u32 list" where
  "poly_pack h =
     [h ! 0 OR push_bit 26 (h ! 1), drop_bit 6 (h ! 1) OR push_bit 20 (h ! 2),
      drop_bit 12 (h ! 2) OR push_bit 14 (h ! 3), drop_bit 18 (h ! 3) OR push_bit 8 (h ! 4)]"

fun tag_loop :: "u64 \<Rightarrow> (u32 \<times> u32) list \<Rightarrow> bytes" where
  "tag_loop f [] = []"
| "tag_loop f ((w, p) # ws) =
     (let f = f + (ucast w + ucast p)
      in [ucast f, ucast (drop_bit 8 f), ucast (drop_bit 16 f), ucast (drop_bit 24 f)] @ tag_loop (drop_bit 32 f) ws)"

definition poly_finish :: "poly \<Rightarrow> bytes" where
  "poly_finish st =
     (let h = full_carry (po_h st); g = plus_five h; w = poly_pack (select_mod h g) in tag_loop 0 (zip w (po_pad st)))"

definition quic_poly1305 :: "bytes \<Rightarrow> bytes \<Rightarrow> usz \<Rightarrow> bytes" where
  "quic_poly1305 key msg len = poly_finish (poly_blocks (poly_init key) msg len)"

section \<open>aead.c\<close>

text \<open>The scratch buffer of the MAC input holds 3032 bytes in C and is a list that grows here.\<close>

definition put_padded :: "bytes \<Rightarrow> bytes \<Rightarrow> usz \<Rightarrow> bytes" where
  "put_padded buf src n = (let pad = (16 - n mod 16) mod 16 in buf @ take n src @ replicate pad 0)"

definition put_le64 :: "bytes \<Rightarrow> u64 \<Rightarrow> bytes" where
  "put_le64 buf v = buf @ map (\<lambda>i. ucast (drop_bit (8 * i) v)) [0..<8]"

definition poly_key :: "bytes \<Rightarrow> bytes \<Rightarrow> bytes" where
  "poly_key key nonce = take 32 (quic_chacha20_block key 0 nonce)"

definition chapoly_tag :: "bytes \<Rightarrow> bytes \<Rightarrow> bytes \<Rightarrow> usz \<Rightarrow> bytes \<Rightarrow> usz \<Rightarrow> bytes" where
  "chapoly_tag key nonce aad aad_len ct ct_len =
     (let pk = poly_key key nonce;
          mac = put_padded [] aad aad_len;
          mac = put_padded mac ct ct_len;
          mac = put_le64 mac (of_nat aad_len);
          mac = put_le64 mac (of_nat ct_len)
      in quic_poly1305 pk mac (length mac))"

definition quic_chapoly_seal :: "bytes \<Rightarrow> bytes \<Rightarrow> bytes \<Rightarrow> usz \<Rightarrow> bytes \<Rightarrow> usz \<Rightarrow> bytes \<Rightarrow> bytes \<times> bytes" where
  "quic_chapoly_seal key nonce aad aad_len pt pt_len ct =
     (let ct = quic_chacha20_xor key 1 nonce pt pt_len ct in (ct, chapoly_tag key nonce aad aad_len ct pt_len))"

definition quic_chapoly_open :: "bytes \<Rightarrow> bytes \<Rightarrow> bytes \<Rightarrow> usz \<Rightarrow> bytes \<Rightarrow> usz \<Rightarrow> bytes \<Rightarrow> bytes \<Rightarrow> bool \<times> bytes" where
  "quic_chapoly_open key nonce aad aad_len ct ct_len tag pt =
     (if quic_ct_diff16 (chapoly_tag key nonce aad aad_len ct ct_len) tag \<noteq> 0 then (False, pt)
      else (True, quic_chacha20_xor key 1 nonce ct ct_len pt))"

declare chacha_loop.simps [simp del] poly_loop.simps [simp del]

section \<open>The authenticated cipher\<close>

lemma length_chacha20_block [simp]: "length (quic_chacha20_block key counter nonce) = 64"
  by (simp add: quic_chacha20_block_def serialize_def Let_def length_concat o_def sum_list_triv)

interpretation chacha: stream_cipher 64 "\<lambda>c. quic_chacha20_block key c nonce" "\<lambda>c. c + 1" "chacha_loop key nonce"
  by unfold_locales (simp, simp, subst chacha_loop.simps, simp add: xor_chunk_def Let_def)

lemma poly_pad_kept:
  "po_pad (poly_mulmod st) = po_pad st" "po_pad (poly_add st m hb) = po_pad st" "po_pad (poly_final_block st m n) = po_pad st"
  by (simp_all add: poly_mulmod_def poly_add_def carry_reduce_def poly_final_block_def Let_def split: prod.split)

lemma poly_loop_pad: "po_pad (poly_loop st msg len off) = po_pad st"
proof (induction st msg len off rule: poly_loop.induct)
  case (1 st msg len off)
  then show ?case by (subst poly_loop.simps) (simp add: poly_pad_kept)
qed

lemma length_tag_loop: "length (tag_loop f ws) = 4 * length ws"
  by (induction f ws rule: tag_loop.induct) (simp_all add: Let_def)

lemma length_poly1305 [simp]: "length (quic_poly1305 key msg len) = 16"
  by (simp add: quic_poly1305_def poly_finish_def poly_blocks_def Let_def length_tag_loop poly_pack_def poly_loop_pad poly_init_def)

definition chapoly_crypt :: "bytes \<Rightarrow> bytes \<Rightarrow> bytes \<Rightarrow> bytes" where
  "chapoly_crypt key nonce x = xor_bytes x (chacha.keystream key nonce 1 (length x))"

definition chapoly_tag_of :: "bytes \<Rightarrow> bytes \<Rightarrow> bytes \<Rightarrow> bytes \<Rightarrow> bytes" where
  "chapoly_tag_of key nonce aad ct = chapoly_tag key nonce aad (length aad) ct (length ct)"

interpretation chapoly: aead_cipher quic_chapoly_seal quic_chapoly_open chapoly_crypt chapoly_tag_of
proof unfold_locales
  fix key nonce aad x pt ct tag and aad_len pt_len ct_len :: nat
  show "length (chapoly_crypt key nonce x) = length x" by (simp add: chapoly_crypt_def)
  show "chapoly_crypt key nonce (chapoly_crypt key nonce x) = x" by (simp add: chapoly_crypt_def xor_bytes_cancel)
  show t: "length (chapoly_tag_of key nonce aad x) = 16" for aad x by (simp add: chapoly_tag_of_def chapoly_tag_def Let_def)
  have x: "quic_chacha20_xor key 1 nonce inp len out = overwrite out 0 (chapoly_crypt key nonce (take len inp))"
    if "len \<le> length inp" "len \<le> length out" for inp len out
    using chacha.loop_xor[OF that, of 0 key nonce 1] that by (simp add: quic_chacha20_xor_def chapoly_crypt_def)
  have tg: "chapoly_tag key nonce aad aad_len y n = chapoly_tag_of key nonce (take aad_len aad) (take n y)"
    if "aad_len \<le> length aad" "n \<le> length y" for y n
    using that by (simp add: chapoly_tag_of_def chapoly_tag_def put_padded_def Let_def)
  show "quic_chapoly_seal key nonce aad aad_len pt pt_len ct = (overwrite ct 0 (chapoly_crypt key nonce (take pt_len pt)),
      chapoly_tag_of key nonce (take aad_len aad) (chapoly_crypt key nonce (take pt_len pt)))"
    if "aad_len \<le> length aad" "pt_len \<le> length pt" "pt_len \<le> length ct"
  proof -
    have "take pt_len (overwrite ct 0 (chapoly_crypt key nonce (take pt_len pt))) = chapoly_crypt key nonce (take pt_len pt)"
      using that by (simp add: overwrite_0 chapoly_crypt_def)
    moreover have "pt_len \<le> length (overwrite ct 0 (chapoly_crypt key nonce (take pt_len pt)))"
      using that by (simp add: overwrite_0 chapoly_crypt_def)
    ultimately show ?thesis using that(1) x[OF that(2,3)] tg by (simp add: quic_chapoly_seal_def Let_def)
  qed
  show "quic_chapoly_open key nonce aad aad_len ct ct_len tag pt =
      (if take 16 tag = chapoly_tag_of key nonce (take aad_len aad) (take ct_len ct) then (True, overwrite pt 0 (chapoly_crypt key nonce (take ct_len ct))) else (False, pt))"
    if "aad_len \<le> length aad" "ct_len \<le> length ct" "ct_len \<le> length pt" "16 \<le> length tag"
    using that x[OF that(2,3)] tg[OF that(1,2)] ct_diff16_zero[OF t that(4)] by (auto simp: quic_chapoly_open_def)
qed

section \<open>Little-endian numbers\<close>

definition le_val :: "bytes \<Rightarrow> nat" where
  "le_val bs = be_val (rev bs)"

definition le_bytes :: "nat \<Rightarrow> nat \<Rightarrow> bytes" where
  "le_bytes n v = rev (be_bytes n v)"

lemma le_val_simps [simp]: "le_val [] = 0" "le_val (b # bs) = unat b + 256 * le_val bs"
  by (simp_all add: le_val_def)

lemma le_val_append: "le_val (xs @ ys) = le_val xs + 256 ^ length xs * le_val ys"
  by (induction xs) (simp_all add: algebra_simps)

lemma le_val_less: "le_val bs < 256 ^ length bs"
  using be_val_less[of "rev bs"] by (simp add: le_val_def)

lemma le_val_zeros [simp]: "le_val (replicate n 0) = 0"
  by (induction n) simp_all

lemma length_le_bytes [simp]: "length (le_bytes n v) = n"
  by (simp add: le_bytes_def)

lemma le_bytes_4: "le_bytes (4 + n) v = [of_nat v, of_nat (v div 2 ^ 8), of_nat (v div 2 ^ 16), of_nat (v div 2 ^ 24)] @ le_bytes n (v div 2 ^ 32)"
proof -
  have four: "(4 :: nat) = Suc (Suc (Suc (Suc 0)))" by simp
  have "be_bytes (n + 4) v = be_bytes n (v div 2 ^ 32) @ be_bytes 4 v" using be_bytes_add[of n 4 v] by simp
  moreover have "be_bytes 4 v = [of_nat (v div 2 ^ 24), of_nat (v div 2 ^ 16), of_nat (v div 2 ^ 8), of_nat v]"
    unfolding four by (simp add: div_mult2_eq[symmetric])
  ultimately show ?thesis by (simp add: le_bytes_def add.commute)
qed

lemma rd32le_val:
  assumes "4 \<le> length p"
  shows "unat (rd32le p) = le_val (take 4 p)"
proof -
  let ?a = "rd p 0" and ?b = "rd p 1" and ?c = "rd p 2" and ?d = "rd p 3"
  have t: "take 4 p = [?a, ?b, ?c, ?d]"
    using map_rd_take[OF assms] by (simp add: upt4)
  have 1: "push_bit 16 (ucast ?c) OR push_bit 24 (ucast ?d) = push_bit 16 (ucast ?c) + (push_bit 24 (ucast ?d) :: u32)" (is "?x OR ?y = _")
    by (rule disjunctive_add_eq_or[symmetric], rule bit_word_eqI) (auto simp: bit_simps dest: bit_imp_le_length)
  have 2: "push_bit 8 (ucast ?b) OR (?x + ?y) = push_bit 8 (ucast ?b) + (?x + ?y)" (is "?z OR _ = _")
    unfolding 1[symmetric]
    by (rule disjunctive_add_eq_or[symmetric], rule bit_word_eqI) (auto simp: bit_simps dest: bit_imp_le_length)
  have 3: "ucast ?a OR (?z + (?x + ?y)) = ucast ?a + (?z + (?x + ?y))"
    unfolding 2[symmetric] unfolding 1[symmetric]
    by (rule disjunctive_add_eq_or[symmetric], rule bit_word_eqI) (auto simp: bit_simps dest: bit_imp_le_length)
  have "rd32le p = of_nat (le_val (take 4 p))"
    unfolding rd32le_def 1 2 3 t by (simp add: push_bit_eq_mult algebra_simps)
  moreover have "le_val (take 4 p) < 2 ^ 32" using le_val_less[of "take 4 p"] assms by simp
  ultimately show ?thesis by (simp add: unat_of_nat)
qed

section \<open>Numbers in limbs\<close>

text \<open>The number that limbs of 26 bits stand for.\<close>

primrec limbs :: "nat list \<Rightarrow> nat" where
  "limbs [] = 0"
| "limbs (x # xs) = x + 2 ^ 26 * limbs xs"

abbreviation poly_p :: nat where
  "poly_p \<equiv> 2 ^ 130 - 5"

lemma mask26: "(0x3ffffff :: u32) = mask 26"
  by (simp add: mask_eq_exp_minus_1)

lemma bit_u32: "bit (x :: u32) n \<Longrightarrow> n < 32"
  using bit_imp_le_length[of x n] by simp

lemma limb_low: "unat (x AND 0x3ffffff :: u32) = unat x mod 2 ^ 26"
  unfolding mask26 by (simp add: unat_mod take_bit_eq_mod flip: take_bit_eq_mask)

lemma limb_join:
  assumes "a + b = 32" "b < 26"
  shows "unat ((drop_bit a x OR push_bit b y) AND 0x3ffffff :: u32) = unat x div 2 ^ a + 2 ^ b * (unat y mod 2 ^ (26 - b))"
proof -
  have "unat ((drop_bit a x OR push_bit b y) AND mask 26) = drop_bit a (unat x) OR push_bit b (take_bit (26 - b) (unat y))"
    by (rule bit_eqI) (use assms in \<open>auto simp: bit_simps dest: bit_u32\<close>)
  also have "drop_bit a (unat x) AND push_bit b (take_bit (26 - b) (unat y)) = 0"
    by (rule bit_eqI) (use assms in \<open>auto simp: bit_simps dest: bit_u32\<close>)
  then have "drop_bit a (unat x) OR push_bit b (take_bit (26 - b) (unat y)) = drop_bit a (unat x) + push_bit b (take_bit (26 - b) (unat y))"
    by (rule disjunctive_add_eq_or[symmetric])
  finally show ?thesis unfolding mask26 by (simp add: drop_bit_eq_div push_bit_eq_mult take_bit_eq_mod mult.commute)
qed

lemma limb_high:
  assumes "hb = 0 \<or> hb = push_bit 24 1"
  shows "unat (drop_bit 8 x OR hb :: u32) = unat x div 2 ^ 8 + unat hb"
proof -
  have "bit hb n \<Longrightarrow> n = 24" for n using assms by (auto simp only: bit_push_bit_iff bit_1_iff bit_0_eq bot_fun_def bot_bool_def)
  then have "drop_bit 8 x AND hb = 0" by (intro bit_word_eqI) (auto simp: bit_simps dest: bit_u32)
  then have "drop_bit 8 x OR hb = drop_bit 8 x + hb" by (rule disjunctive_add_eq_or[symmetric])
  moreover have u: "unat (drop_bit 8 x) = unat x div 2 ^ 8" by (simp add: drop_bit_eq_div unat_div)
  moreover have "unat x div 2 ^ 8 < 2 ^ 24" using unsigned_less[of x, where ?'a = nat] by (simp add: less_mult_imp_div_less)
  moreover have "unat hb \<le> 2 ^ 24" using assms by auto
  ultimately show ?thesis using unat_word_ariths(1)[of "drop_bit 8 x" hb] by (simp only: u) simp
qed

lemma limbs_of_words:
  fixes t0 t1 t2 t3 :: nat
  shows "t0 mod 2 ^ 26 + 2 ^ 26 * (t0 div 2 ^ 26 + 2 ^ 6 * (t1 mod 2 ^ 20)) + 2 ^ 52 * (t1 div 2 ^ 20 + 2 ^ 12 * (t2 mod 2 ^ 14))
    + 2 ^ 78 * (t2 div 2 ^ 14 + 2 ^ 18 * (t3 mod 2 ^ 8)) + 2 ^ 104 * (t3 div 2 ^ 8) = t0 + 2 ^ 32 * t1 + 2 ^ 64 * t2 + 2 ^ 96 * t3"
proof -
  have "m0 + 2 ^ 26 * (d0 + 2 ^ 6 * m1) + 2 ^ 52 * (d1 + 2 ^ 12 * m2) + 2 ^ 78 * (d2 + 2 ^ 18 * m3) + 2 ^ 104 * d3
    = (m0 + 2 ^ 26 * d0) + 2 ^ 32 * (m1 + 2 ^ 20 * d1) + 2 ^ 64 * (m2 + 2 ^ 14 * d2) + 2 ^ 96 * (m3 + 2 ^ 8 * d3)"
    for m0 d0 m1 d1 m2 d2 m3 d3 :: nat by simp
  then show ?thesis by (simp only: mod_mult_div_eq)
qed

lemma le_val_words:
  assumes "16 \<le> length m"
  shows "le_val (take 16 m) = unat (rd32le m) + 2 ^ 32 * unat (rd32le (drop 4 m)) + 2 ^ 64 * unat (rd32le (drop 8 m)) + 2 ^ 96 * unat (rd32le (drop 12 m))"
proof -
  have "take 16 m = take 4 m @ take 4 (drop 4 m) @ take 4 (drop 8 m) @ take 4 (drop 12 m)"
    using take_add[of 4 12 m] take_add[of 4 8 "drop 4 m"] take_add[of 4 4 "drop 8 m"] by simp
  then show ?thesis using assms by (simp add: rd32le_val le_val_append)
qed

section \<open>Multiplication\<close>

lemma ucast_of_nat: "(ucast (x :: u32) :: u64) = of_nat (unat x)"
  by (rule bit_word_eqI) (simp add: bit_simps)

lemma limb_low64: "unat (ucast (d :: u64) AND 0x3ffffff :: u32) = unat d mod 2 ^ 26"
proof -
  have "unat (ucast d :: u32) = unat d mod 2 ^ 32" by (simp add: unsigned_ucast_eq unsigned_take_bit_eq take_bit_eq_mod)
  then show ?thesis by (simp add: limb_low mod_mod_cancel)
qed

lemma carry_loop_limbs:
  assumes "\<forall>d \<in> set ds. unat d < 2 ^ 58" "unat c \<le> 2 ^ 38" "carry_loop ds c = (hs, c')"
  shows "limbs (map unat hs) + 2 ^ (26 * length ds) * unat c' = limbs (map unat ds) + unat c
    \<and> length hs = length ds \<and> (\<forall>h \<in> set hs. unat h < 2 ^ 26)"
  using assms
proof (induction ds arbitrary: c hs)
  case (Cons d ds)
  obtain hs' where c: "carry_loop ds (drop_bit 26 (d + c)) = (hs', c')" and hs: "hs = (ucast (d + c) AND 0x3ffffff) # hs'"
    using Cons.prems(3) by (auto simp: Let_def split: prod.splits)
  have s: "unat (d + c) = unat d + unat c" using Cons.prems(1,2) by (simp add: unat_word_ariths)
  have q: "unat (drop_bit 26 (d + c)) = (unat d + unat c) div 2 ^ 26" by (simp add: drop_bit_eq_div unat_div s)
  moreover have "(unat d + unat c) div 2 ^ 26 \<le> (2 ^ 59) div 2 ^ 26" using Cons.prems(1,2) by (intro div_le_mono) simp
  ultimately have "unat (drop_bit 26 (d + c)) \<le> 2 ^ 38" by simp
  then have ih: "limbs (map unat hs') + 2 ^ (26 * length ds) * unat c' = limbs (map unat ds) + (unat d + unat c) div 2 ^ 26"
    "length hs' = length ds" "\<forall>h \<in> set hs'. unat h < 2 ^ 26"
    using Cons.IH[OF _ _ c] Cons.prems(1) q by auto
  have "limbs (map unat hs) + 2 ^ (26 * length (d # ds)) * unat c'
      = (unat d + unat c) mod 2 ^ 26 + 2 ^ 26 * (limbs (map unat hs') + 2 ^ (26 * length ds) * unat c')"
  proof -
    have "2 ^ (26 * length (d # ds)) = (2 ^ 26 * 2 ^ (26 * length ds) :: nat)" by (simp add: power_add)
    then show ?thesis by (simp only: hs list.map limbs.simps limb_low64 s) (simp only: distrib_left mult.assoc add.assoc)
  qed
  also have "\<dots> = limbs (map unat (d # ds)) + unat c"
    using mod_mult_div_eq[of "unat d + unat c" "2 ^ 26"] by (simp only: ih(1) distrib_left limbs.simps list.map)
  finally show ?case using ih(2,3) by (simp only: hs) (simp add: limb_low64)
qed simp

lemma limb_product:
  fixes b p :: nat
  assumes "b ^ 5 = p + 5"
  shows "(h0 + b * (h1 + b * (h2 + b * (h3 + b * h4)))) * (r0 + b * (r1 + b * (r2 + b * (r3 + b * r4))))
    = (h0 * r0 + h1 * (5 * r4) + h2 * (5 * r3) + h3 * (5 * r2) + h4 * (5 * r1))
      + b * ((h0 * r1 + h1 * r0 + h2 * (5 * r4) + h3 * (5 * r3) + h4 * (5 * r2))
      + b * ((h0 * r2 + h1 * r1 + h2 * r0 + h3 * (5 * r4) + h4 * (5 * r3))
      + b * ((h0 * r3 + h1 * r2 + h2 * r1 + h3 * r0 + h4 * (5 * r4))
      + b * (h0 * r4 + h1 * r3 + h2 * r2 + h3 * r1 + h4 * r0))))
      + p * ((h1 * r4 + h2 * r3 + h3 * r2 + h4 * r1) + b * ((h2 * r4 + h3 * r3 + h4 * r2) + b * ((h3 * r4 + h4 * r3) + b * (h4 * r4))))"
    (is "?l = ?d + p * ?q")
proof -
  have "?l + 5 * ?q = ?d + b ^ 5 * ?q" by (simp add: algebra_simps power_numeral_reduce)
  then show ?thesis unfolding assms by (simp add: distrib_right)
qed

definition acc_ok :: "u32 list \<Rightarrow> bool" where
  "acc_ok h \<longleftrightarrow> (\<exists>h0 h1 h2 h3 h4. h = [h0, h1, h2, h3, h4] \<and> unat h0 < 2 ^ 26 \<and> unat h1 < 2 ^ 26 + 64
     \<and> unat h2 < 2 ^ 26 \<and> unat h3 < 2 ^ 26 \<and> unat h4 < 2 ^ 26)"

definition key_ok :: "u32 list \<Rightarrow> bool" where
  "key_ok r \<longleftrightarrow> (\<exists>r0 r1 r2 r3 r4. r = [r0, r1, r2, r3, r4] \<and> unat r0 < 2 ^ 26 \<and> unat r1 < 2 ^ 26
     \<and> unat r2 < 2 ^ 26 \<and> unat r3 < 2 ^ 26 \<and> unat r4 < 2 ^ 20)"

lemma list5: "length xs = 5 \<Longrightarrow> \<exists>a b c d e. xs = [a, b, c, d, e]"
  by (auto simp: length_Suc_conv eval_nat_numeral)

lemma carry_out: "m + b * q = n \<Longrightarrow> m + b * (a + q + y) = n + b * (a + y)" for m b q n a y :: nat
  by (simp add: distrib_left flip: add.assoc)

lemma times_five: "unat (r :: u32) < 2 ^ 26 \<Longrightarrow> unat (r * 5) = 5 * unat r"
  by (simp add: unat_word_ariths)

lemma dot_product:
  assumes "unat h0 \<le> 2 ^ 27 + 63" "unat h1 \<le> 2 ^ 27 + 63" "unat h2 \<le> 2 ^ 27 + 63" "unat h3 \<le> 2 ^ 27 + 63" "unat h4 \<le> 2 ^ 27 + 63"
    and "unat a \<le> 5 * 2 ^ 26" "unat b \<le> 5 * 2 ^ 26" "unat c \<le> 5 * 2 ^ 26" "unat d \<le> 5 * 2 ^ 26" "unat e \<le> 5 * 2 ^ 26"
  shows "unat (ucast (h0 :: u32) * ucast (a :: u32) + ucast (h1 :: u32) * ucast (b :: u32) + ucast (h2 :: u32) * ucast (c :: u32)
      + ucast (h3 :: u32) * ucast (d :: u32) + ucast (h4 :: u32) * ucast (e :: u32) :: u64)
    = unat h0 * unat a + unat h1 * unat b + unat h2 * unat c + unat h3 * unat d + unat h4 * unat e" (is "unat ?w = ?n")
    and "unat h0 * unat a + unat h1 * unat b + unat h2 * unat c + unat h3 * unat d + unat h4 * unat e
      \<le> (2 ^ 27 + 63) * (unat a + unat b + unat c + unat d + unat e)" (is "_ \<le> ?m")
proof -
  have p: "unat h * unat x \<le> (2 ^ 27 + 63) * unat x" if "unat h \<le> 2 ^ 27 + 63" for h x :: u32
    using that by (rule mult_le_mono1)
  show n: "?n \<le> ?m"
    using p[OF assms(1), of a] p[OF assms(2), of b] p[OF assms(3), of c] p[OF assms(4), of d] p[OF assms(5), of e]
    by (simp only: distrib_left)
  have "unat a + unat b + unat c + unat d + unat e \<le> 25 * 2 ^ 26" using assms(6-10) by linarith
  then have "?m \<le> (2 ^ 27 + 63) * (25 * 2 ^ 26)" by (rule mult_le_mono2)
  with n have "?n \<le> (2 ^ 27 + 63) * (25 * 2 ^ 26)" by (rule order_trans)
  then have "?n < 2 ^ 64" by simp
  moreover have "?w = of_nat ?n" unfolding ucast_of_nat of_nat_add of_nat_mult by (rule refl)
  ultimately show "unat ?w = ?n" by (simp only: unat_of_nat) simp
qed

lemma carry_reduce_limbs:
  fixes st :: poly
  assumes "\<forall>x \<in> set [d0, d1, d2, d3, d4]. unat x < 2 ^ 58" "unat d4 \<le> (2 ^ 27 + 63) * (2 ^ 20 + 2 ^ 28)"
  defines "h \<equiv> po_h (carry_reduce st [d0, d1, d2, d3, d4])"
  shows "acc_ok h \<and> limbs (map unat h) mod poly_p = limbs (map unat [d0, d1, d2, d3, d4]) mod poly_p"
proof -
  obtain hs c where cl: "carry_loop [d0, d1, d2, d3, d4] 0 = (hs, c)" by (cases "carry_loop [d0, d1, d2, d3, d4] 0")
  have l: "limbs (map unat hs) + 2 ^ 130 * unat c = limbs (map unat [d0, d1, d2, d3, d4])" "length hs = 5" "\<forall>h \<in> set hs. unat h < 2 ^ 26"
    using carry_loop_limbs[OF assms(1) _ cl] by simp_all
  then obtain a0 a1 a2 a3 a4 where hs: "hs = [a0, a1, a2, a3, a4]"
    using list5 by metis
  have b: "unat a0 < 2 ^ 26" "unat a1 < 2 ^ 26" "unat a2 < 2 ^ 26" "unat a3 < 2 ^ 26" "unat a4 < 2 ^ 26"
    and v: "limbs (map unat hs) + 2 ^ 130 * unat c = limbs (map unat [d0, d1, d2, d3, d4])"
    using l by (simp_all add: hs)
  have "unat c < 17 * 2 ^ 25" using v assms(1,2) by simp
  then have c5: "unat (ucast c * 5 :: u32) = 5 * unat c"
    by (simp add: unat_word_ariths unsigned_ucast_eq unsigned_take_bit_eq take_bit_eq_mod)
  have a0: "unat (a0 + ucast c * 5) = unat a0 + 5 * unat c" (is "unat ?s = _")
    using b(1) \<open>unat c < 17 * 2 ^ 25\<close> c5 by (simp add: unat_word_ariths(1)[of a0])
  have q: "unat (drop_bit 26 ?s) = (unat a0 + 5 * unat c) div 2 ^ 26" by (simp add: drop_bit_eq_div unat_div a0)
  moreover have "(unat a0 + 5 * unat c) div 2 ^ 26 < 64" using b(1) \<open>unat c < 17 * 2 ^ 25\<close> by (simp add: less_mult_imp_div_less)
  ultimately have a1: "unat (a1 + drop_bit 26 ?s) = unat a1 + (unat a0 + 5 * unat c) div 2 ^ 26"
    using b(2) by (simp add: unat_word_ariths(1)[of a1])
  have h: "h = [?s AND 0x3ffffff, a1 + drop_bit 26 ?s, a2, a3, a4]"
    by (simp add: h_def carry_reduce_def cl hs Let_def del: carry_loop.simps)
  have "limbs (map unat h) = limbs (map unat hs) + 5 * unat c"
    using carry_out[OF mod_mult_div_eq[of "unat a0 + 5 * unat c" "2 ^ 26"], of "unat a1"] by (simp only: h hs list.map limbs.simps limb_low a0 a1)
  then have "limbs (map unat [d0, d1, d2, d3, d4]) = limbs (map unat h) + poly_p * unat c" using v by simp
  then have "limbs (map unat h) mod poly_p = limbs (map unat [d0, d1, d2, d3, d4]) mod poly_p" by (simp only: mod_mult_self2)
  moreover have "acc_ok h"
    using b a1 \<open>(unat a0 + 5 * unat c) div 2 ^ 26 < 64\<close> by (simp add: acc_ok_def h limb_low)
  ultimately show ?thesis by blast
qed

lemma poly_mulmod_limbs:
  assumes h: "po_h st = [h0, h1, h2, h3, h4]" "\<forall>x \<in> set [h0, h1, h2, h3, h4]. unat x \<le> 2 ^ 27 + 63" and r: "key_ok (po_r st)"
  shows "acc_ok (po_h (poly_mulmod st)) \<and> po_r (poly_mulmod st) = po_r st
    \<and> limbs (map unat (po_h (poly_mulmod st))) mod poly_p = limbs (map unat (po_h st)) * limbs (map unat (po_r st)) mod poly_p"
proof -
  obtain r0 r1 r2 r3 r4 where r': "po_r st = [r0, r1, r2, r3, r4]" "unat r0 < 2 ^ 26" "unat r1 < 2 ^ 26" "unat r2 < 2 ^ 26"
      "unat r3 < 2 ^ 26" "unat r4 < 2 ^ 20"
    using r unfolding key_ok_def by blast
  have s: "unat (r1 * 5) = 5 * unat r1" "unat (r2 * 5) = 5 * unat r2" "unat (r3 * 5) = 5 * unat r3" "unat (r4 * 5) = 5 * unat r4"
    using r' by (simp_all add: times_five)
  have hb: "unat h0 \<le> 2 ^ 27 + 63" "unat h1 \<le> 2 ^ 27 + 63" "unat h2 \<le> 2 ^ 27 + 63" "unat h3 \<le> 2 ^ 27 + 63" "unat h4 \<le> 2 ^ 27 + 63"
    using h(2) by simp_all
  have rb: "unat r0 \<le> 5 * 2 ^ 26" "unat r1 \<le> 5 * 2 ^ 26" "unat r2 \<le> 5 * 2 ^ 26" "unat r3 \<le> 5 * 2 ^ 26" "unat r4 \<le> 5 * 2 ^ 26"
    and sb: "unat (r1 * 5) \<le> 5 * 2 ^ 26" "unat (r2 * 5) \<le> 5 * 2 ^ 26" "unat (r3 * 5) \<le> 5 * 2 ^ 26" "unat (r4 * 5) \<le> 5 * 2 ^ 26"
    using r' s by simp_all
  note dot = dot_product[OF hb]
  let ?u = "\<lambda>x. ucast (x :: u32) :: u64"
  let ?ds = "[?u h0 * ?u r0 + ?u h1 * ?u (r4 * 5) + ?u h2 * ?u (r3 * 5) + ?u h3 * ?u (r2 * 5) + ?u h4 * ?u (r1 * 5),
     ?u h0 * ?u r1 + ?u h1 * ?u r0 + ?u h2 * ?u (r4 * 5) + ?u h3 * ?u (r3 * 5) + ?u h4 * ?u (r2 * 5),
     ?u h0 * ?u r2 + ?u h1 * ?u r1 + ?u h2 * ?u r0 + ?u h3 * ?u (r4 * 5) + ?u h4 * ?u (r3 * 5),
     ?u h0 * ?u r3 + ?u h1 * ?u r2 + ?u h2 * ?u r1 + ?u h3 * ?u r0 + ?u h4 * ?u (r4 * 5),
     ?u h0 * ?u r4 + ?u h1 * ?u r3 + ?u h2 * ?u r2 + ?u h3 * ?u r1 + ?u h4 * ?u r0]"
  note d = dot[OF rb(1) sb(4,3,2,1)] dot[OF rb(2,1) sb(4,3,2)] dot[OF rb(3,2,1) sb(4,3)] dot[OF rb(4,3,2,1) sb(4)] dot[OF rb(5,4,3,2,1)]
  have lim: "n < 2 ^ 58" if "n \<le> (2 ^ 27 + 63) * m" "m \<le> 25 * 2 ^ 26" for n m :: nat
    using order_trans[OF that(1) mult_le_mono2[OF that(2)]] by simp
  have "\<forall>x \<in> set ?ds. unat x < 2 ^ 58"
    using rb sb by (simp only: list.set ball_simps d(1,3,5,7,9))
      (intro conjI TrueI lim[OF d(2)] lim[OF d(4)] lim[OF d(6)] lim[OF d(8)] lim[OF d(10)]; linarith)
  moreover have "unat (?ds ! 4) \<le> (2 ^ 27 + 63) * (2 ^ 20 + 2 ^ 28)"
  proof -
    have "unat r4 + unat r3 + unat r2 + unat r1 + unat r0 \<le> 2 ^ 20 + 2 ^ 28" using r' by simp
    from order_trans[OF d(10) mult_le_mono2[OF this]] show ?thesis by (simp only: d(9) nth_Cons_numeral) (simp add: d(9))
  qed
  ultimately have c: "acc_ok (po_h (carry_reduce st ?ds)) \<and> limbs (map unat (po_h (carry_reduce st ?ds))) mod poly_p = limbs (map unat ?ds) mod poly_p"
    by (intro carry_reduce_limbs) simp_all
  have "limbs (map unat ?ds) mod poly_p = limbs (map unat (po_h st)) * limbs (map unat (po_r st)) mod poly_p"
    unfolding h(1) r'(1) list.map limbs.simps d(1,3,5,7,9) s mult_0_right add_0_right
    by (subst limb_product[of "2 ^ 26" poly_p]) (simp, simp only: mod_mult_self2)
  moreover have "po_h (poly_mulmod st) = po_h (carry_reduce st ?ds)" "po_r (poly_mulmod st) = po_r st"
    by (simp_all add: poly_mulmod_def h(1) r'(1) Let_def carry_reduce_def split: prod.split del: carry_loop.simps)
  ultimately show ?thesis using c by simp
qed

section \<open>Blocks\<close>

lemma poly_add_limbs:
  assumes "acc_ok (po_h st)" "16 \<le> length m" "hb = 0 \<or> hb = push_bit 24 1"
  obtains h0 h1 h2 h3 h4 where "po_h (poly_add st m hb) = [h0, h1, h2, h3, h4]"
    "\<forall>x \<in> set [h0, h1, h2, h3, h4]. unat x \<le> 2 ^ 27 + 63" "po_r (poly_add st m hb) = po_r st"
    "limbs (map unat (po_h (poly_add st m hb))) = limbs (map unat (po_h st)) + (le_val (take 16 m) + 2 ^ 104 * unat hb)"
proof -
  obtain a0 a1 a2 a3 a4 where a: "po_h st = [a0, a1, a2, a3, a4]" "unat a0 < 2 ^ 26" "unat a1 < 2 ^ 26 + 64" "unat a2 < 2 ^ 26"
      "unat a3 < 2 ^ 26" "unat a4 < 2 ^ 26" using assms(1) unfolding acc_ok_def by blast
  define t0 t1 t2 t3 where t: "t0 = rd32le m" "t1 = rd32le (drop 4 m)" "t2 = rd32le (drop 8 m)" "t3 = rd32le (drop 12 m)"
  let ?b0 = "t0 AND 0x3ffffff" and ?b1 = "(drop_bit 26 t0 OR push_bit 6 t1) AND 0x3ffffff"
    and ?b2 = "(drop_bit 20 t1 OR push_bit 12 t2) AND 0x3ffffff" and ?b3 = "(drop_bit 14 t2 OR push_bit 18 t3) AND 0x3ffffff"
    and ?b4 = "drop_bit 8 t3 OR hb"
  have lt: "unat (x AND 0x3ffffff :: u32) < 2 ^ 26" for x by (simp add: limb_low)
  have "unat t3 div 2 ^ 8 < 2 ^ 24" using unsigned_less[of t3, where ?'a = nat] by (simp add: less_mult_imp_div_less)
  moreover have "unat hb \<le> 2 ^ 24" using assms(3) by auto
  ultimately have b4: "unat ?b4 < 2 ^ 26" by (simp add: limb_high[OF assms(3)])
  have plus: "unat (x + y :: u32) = unat x + unat y" if "unat x < 2 ^ 26 + 64" "unat y < 2 ^ 26" for x y
    using that by (simp add: unat_word_ariths)
  have le: "x + y \<le> 2 ^ 27 + 63" if "x < 2 ^ 26 + 64" "y < 2 ^ 26" for x y :: nat using that by simp
  have s: "unat (a0 + ?b0) = unat a0 + unat ?b0" "unat (a1 + ?b1) = unat a1 + unat ?b1" "unat (a2 + ?b2) = unat a2 + unat ?b2"
      "unat (a3 + ?b3) = unat a3 + unat ?b3" "unat (a4 + ?b4) = unat a4 + unat ?b4"
    using a(2-6) lt[of t0] lt[of "drop_bit 26 t0 OR push_bit 6 t1"] lt[of "drop_bit 20 t1 OR push_bit 12 t2"] lt[of "drop_bit 14 t2 OR push_bit 18 t3"] b4
    by (intro plus; linarith)+
  have h: "po_h (poly_add st m hb) = [a0 + ?b0, a1 + ?b1, a2 + ?b2, a3 + ?b3, a4 + ?b4]"
    by (simp add: poly_add_def a(1) Let_def t)
  have "\<forall>x \<in> set [a0 + ?b0, a1 + ?b1, a2 + ?b2, a3 + ?b3, a4 + ?b4]. unat x \<le> 2 ^ 27 + 63"
    using a(2-6) lt[of t0] lt[of "drop_bit 26 t0 OR push_bit 6 t1"] lt[of "drop_bit 20 t1 OR push_bit 12 t2"] lt[of "drop_bit 14 t2 OR push_bit 18 t3"] b4
    by (simp only: list.set ball_simps s) (intro conjI TrueI le; linarith)
  moreover have "limbs (map unat [?b0, ?b1, ?b2, ?b3, ?b4]) = le_val (take 16 m) + 2 ^ 104 * unat hb"
    using limbs_of_words[of "unat t0" "unat t1" "unat t2" "unat t3"] limb_join[of 26 6 t0 t1] limb_join[of 20 12 t1 t2] limb_join[of 14 18 t2 t3]
    by (simp add: le_val_words[OF assms(2)] t[symmetric] limb_low[of t0] limb_high[OF assms(3)])
  then have "limbs (map unat (po_h (poly_add st m hb))) = limbs (map unat (po_h st)) + (le_val (take 16 m) + 2 ^ 104 * unat hb)"
    by (simp only: h a(1) list.map limbs.simps s) (simp only: distrib_left)
  moreover have "po_r (poly_add st m hb) = po_r st" by (simp add: poly_add_def Let_def)
  ultimately show thesis using that[OF h] by blast
qed

definition poly_ok :: "poly \<Rightarrow> bool" where
  "poly_ok st \<longleftrightarrow> acc_ok (po_h st) \<and> key_ok (po_r st)"

lemma poly_block:
  assumes "poly_ok st" "16 \<le> length m" "hb = 0 \<or> hb = push_bit 24 1"
  defines "st' \<equiv> poly_mulmod (poly_add st m hb)"
  shows "poly_ok st' \<and> po_r st' = po_r st \<and> limbs (map unat (po_h st')) mod poly_p
    = (limbs (map unat (po_h st)) + (le_val (take 16 m) + 2 ^ 104 * unat hb)) * limbs (map unat (po_r st)) mod poly_p"
proof -
  have ok: "acc_ok (po_h st)" "key_ok (po_r st)" using assms(1) by (simp_all add: poly_ok_def)
  obtain h0 h1 h2 h3 h4 where h: "po_h (poly_add st m hb) = [h0, h1, h2, h3, h4]"
      "\<forall>x \<in> set [h0, h1, h2, h3, h4]. unat x \<le> 2 ^ 27 + 63" and r: "po_r (poly_add st m hb) = po_r st"
    and v: "limbs (map unat (po_h (poly_add st m hb))) = limbs (map unat (po_h st)) + (le_val (take 16 m) + 2 ^ 104 * unat hb)"
    by (rule poly_add_limbs[OF ok(1) assms(2,3)])
  show ?thesis using poly_mulmod_limbs[OF h] ok unfolding st'_def poly_ok_def r v by simp
qed

text \<open>The accumulator of RFC 8439, section 2.5: every block of 16 bytes with a 1 byte after it, the last one maybe shorter.\<close>

function poly_acc :: "nat \<Rightarrow> nat \<Rightarrow> bytes \<Rightarrow> nat" where
  "poly_acc r a m = (if m = [] then a else poly_acc r ((a + le_val (take 16 m @ [1])) * r mod poly_p) (drop 16 m))"
  by pat_completeness auto
termination by (relation "measure (\<lambda>(r, a, m). length m)") auto

declare poly_acc.simps [simp del]

lemma poly_acc_Nil: "poly_acc r a [] = a"
  by (simp add: poly_acc.simps)

lemma final_block_val:
  assumes "n < 16" "n \<le> length m"
  shows "le_val (map (\<lambda>i. pad_byte m i n) [0..<16]) = le_val (take n m @ [1])"
proof -
  have 1: "map (\<lambda>i. pad_byte m i n) [0..<n] = take n m"
    using assms by (intro nth_equalityI) (auto simp: pad_byte_def rd_nth)
  have 2: "map (\<lambda>i. pad_byte m i n) [Suc n..<16] = replicate (15 - n) 0"
    using assms by (intro nth_equalityI) (auto simp: pad_byte_def)
  have "[0..<16] = [0..<n] @ n # [Suc n..<16]"
    using assms(1) upt_add_eq_append[of 0 n "16 - n"] by (simp add: upt_conv_Cons)
  then have "map (\<lambda>i. pad_byte m i n) [0..<16] = map (\<lambda>i. pad_byte m i n) [0..<n] @ pad_byte m n n # map (\<lambda>i. pad_byte m i n) [Suc n..<16]"
    by (simp only: map_append list.map)
  then have "map (\<lambda>i. pad_byte m i n) [0..<16] = take n m @ 1 # replicate (15 - n) 0"
    by (simp only: 1 2) (simp add: pad_byte_def)
  then show ?thesis by (simp add: le_val_append)
qed

lemma poly_loop_acc:
  assumes "poly_ok st" "off \<le> len" "len \<le> length msg"
  shows "poly_ok (poly_loop st msg len off) \<and> limbs (map unat (po_h (poly_loop st msg len off))) mod poly_p
    = poly_acc (limbs (map unat (po_r st))) (limbs (map unat (po_h st)) mod poly_p) (take (len - off) (drop off msg))"
  using assms
proof (induction st msg len off rule: poly_loop.induct)
  case (1 st msg len off)
  let ?m = "take (len - off) (drop off msg)"
  let ?r = "limbs (map unat (po_r st))" and ?h = "limbs (map unat (po_h st))"
  have m: "(?h mod poly_p + x) * ?r mod poly_p = (?h + x) * ?r mod poly_p" for x by (metis mod_add_left_eq mod_mult_left_eq)
  consider (blk) "16 \<le> len - off" | (fin) "len - off < 16" "off < len" | (none) "off = len" using "1.prems"(2) by linarith
  then show ?case
  proof cases
    case blk
    define st' where "st' = poly_mulmod (poly_add st (drop off msg) (push_bit 24 1))"
    have st': "poly_ok st'" "po_r st' = po_r st"
      "limbs (map unat (po_h st')) mod poly_p = (?h + (le_val (take 16 (drop off msg)) + 2 ^ 104 * unat (push_bit 24 1 :: u32))) * ?r mod poly_p"
      using poly_block[OF "1.prems"(1), of "drop off msg" "push_bit 24 1"] blk "1.prems"(3) unfolding st'_def by auto
    have "take 16 ?m = take 16 (drop off msg)" "drop 16 ?m = take (len - (off + 16)) (drop (off + 16) msg)" "?m \<noteq> []"
      using blk "1.prems"(3) by (auto simp: drop_take min_def add.commute)
    moreover have "le_val (take 16 (drop off msg) @ [1]) = le_val (take 16 (drop off msg)) + 2 ^ 104 * unat (push_bit 24 1 :: u32)"
      using blk "1.prems"(3) by (simp add: le_val_append)
    ultimately have "poly_acc ?r (?h mod poly_p) ?m = poly_acc ?r (limbs (map unat (po_h st')) mod poly_p) (take (len - (off + 16)) (drop (off + 16) msg))"
      by (subst poly_acc.simps) (simp only: if_False m st'(3))
    moreover have "poly_loop st msg len off = poly_loop st' msg len (off + 16)" using blk by (subst poly_loop.simps) (simp add: st'_def)
    moreover have "off + 16 \<le> len" using blk by simp
    ultimately show ?thesis using "1.IH"[OF blk] st'(1,2) "1.prems"(3) unfolding st'_def[symmetric] by simp
  next
    case fin
    let ?b = "map (\<lambda>i. pad_byte (drop off msg) i (len - off)) [0..<16]"
    have b: "poly_ok (poly_final_block st (drop off msg) (len - off))"
      "limbs (map unat (po_h (poly_final_block st (drop off msg) (len - off)))) mod poly_p = (?h + le_val ?b) * ?r mod poly_p"
      using poly_block[OF "1.prems"(1), of ?b 0] unfolding poly_final_block_def by simp_all
    have "le_val ?b = le_val (take 16 ?m @ [1])" using final_block_val[OF fin(1), of "drop off msg"] fin(1) "1.prems"(3) by (simp add: min_def)
    moreover have "poly_acc ?r (?h mod poly_p) ?m = (?h + le_val (take 16 ?m @ [1])) * ?r mod poly_p"
    proof -
      have "?m \<noteq> []" "drop 16 ?m = []" using fin "1.prems"(3) by auto
      then show ?thesis by (subst poly_acc.simps) (simp only: if_False m poly_acc_Nil)
    qed
    moreover have "poly_loop st msg len off = poly_final_block st (drop off msg) (len - off)" using fin by (subst poly_loop.simps) simp
    ultimately show ?thesis using b by simp
  next
    case none
    then have "poly_loop st msg len off = st" by (subst poly_loop.simps) simp
    then show ?thesis using none "1.prems"(1) by (simp add: poly_acc.simps)
  qed
qed

section \<open>The key\<close>

definition poly_clamp :: nat where
  "poly_clamp = 0x0ffffffc0ffffffc0ffffffc0fffffff"

lemma limb_digits:
  fixes n :: nat
  assumes "n < 2 ^ 130"
  shows "limbs (map (\<lambda>i. take_bit 26 (drop_bit (26 * i) n)) [0..<5]) = n"
proof -
  let ?q = "\<lambda>i. n div 2 ^ (26 * i)"
  have s: "?q i mod 2 ^ 26 + 2 ^ 26 * ?q (Suc i) = ?q i" for i
    using mod_mult_div_eq[of "?q i" "2 ^ 26"] by (simp only: mult_Suc_right power_add div_mult2_eq add.commute[of 26])
  have "?q 5 = 0" using assms by simp
  moreover have "[0 ..< 5] = [0, 1, 2, 3, 4 :: nat]" by (simp add: upt_rec)
  ultimately show ?thesis
    using s[of 0] s[of 1] s[of 2] s[of 3] s[of 4] by (simp add: take_bit_eq_mod drop_bit_eq_div)
qed

lemma limbs_digit:
  "\<forall>x \<in> set xs. x < 2 ^ 26 \<Longrightarrow> i < length xs \<Longrightarrow> take_bit 26 (drop_bit (26 * i) (limbs xs)) = xs ! i"
proof (induction xs arbitrary: i)
  case (Cons x xs)
  have "(x + 2 ^ 26 * limbs xs) div 2 ^ 26 = limbs xs" using Cons.prems(1) by simp
  then have d: "drop_bit 26 (limbs (x # xs)) = limbs xs" by (simp only: limbs.simps drop_bit_eq_div)
  have t: "take_bit 26 (limbs (x # xs)) = x" using Cons.prems(1) by (simp add: take_bit_eq_mod)
  show ?case
  proof (cases i)
    case (Suc j)
    have "drop_bit (26 * i) (limbs (x # xs)) = drop_bit (26 * j) (drop_bit 26 (limbs (x # xs)))"
      by (simp only: Suc drop_bit_drop_bit) (simp add: add.commute)
    then have "drop_bit (26 * i) (limbs (x # xs)) = drop_bit (26 * j) (limbs xs)" by (simp only: d)
    then show ?thesis using Cons Suc by (simp del: limbs.simps)
  qed (simp add: t del: limbs.simps)
qed simp

lemma and_leq_nat: "(x AND y) \<le> x" for x y :: nat
proof -
  have "int (x AND y) \<le> int x" by (simp only: of_nat_and_eq) simp
  then show ?thesis by simp
qed

lemma poly_init_key:
  assumes "16 \<le> length key"
  shows "key_ok (po_r (poly_init key)) \<and> limbs (map unat (po_r (poly_init key))) = (le_val (take 16 key) AND poly_clamp)"
proof -
  define t0 t1 t2 t3 where t: "t0 = rd32le key" "t1 = rd32le (drop 4 key)" "t2 = rd32le (drop 8 key)" "t3 = rd32le (drop 12 key)"
  let ?n = "le_val (take 16 key)"
  let ?b0 = "t0 AND 0x3ffffff" and ?b1 = "(drop_bit 26 t0 OR push_bit 6 t1) AND 0x3ffffff"
    and ?b2 = "(drop_bit 20 t1 OR push_bit 12 t2) AND 0x3ffffff" and ?b3 = "(drop_bit 14 t2 OR push_bit 18 t3) AND 0x3ffffff"
    and ?b4 = "drop_bit 8 t3"
  have b: "limbs (map unat [?b0, ?b1, ?b2, ?b3, ?b4]) = ?n"
    using limbs_of_words[of "unat t0" "unat t1" "unat t2" "unat t3"] limb_join[of 26 6 t0 t1] limb_join[of 20 12 t1 t2] limb_join[of 14 18 t2 t3]
    by (simp add: le_val_words[OF assms] t[symmetric] limb_low[of t0] drop_bit_eq_div unat_div)
  have lt: "unat (x AND 0x3ffffff :: u32) < 2 ^ 26" for x by (simp add: limb_low)
  have b4: "unat ?b4 < 2 ^ 24" using unsigned_less[of t3, where ?'a = nat] by (simp add: less_mult_imp_div_less drop_bit_eq_div unat_div)
  have bs: "\<forall>x \<in> set (map unat [?b0, ?b1, ?b2, ?b3, ?b4]). x < 2 ^ 26"
    using lt b4 by (simp only: list.set list.map ball_simps) simp
  note dig = limbs_digit[OF bs, unfolded b]
  have e: "x AND m = (x AND 0x3ffffff) AND m" if "0x3ffffff AND m = m" for x m :: u32
    using that by (simp add: and.assoc)
  have r: "po_r (poly_init key) = [?b0 AND 0x3ffffff, ?b1 AND 0x3ffff03, ?b2 AND 0x3ffc0ff, ?b3 AND 0x3f03fff, ?b4 AND 0x00fffff]"
    by (simp add: poly_init_def Let_def t and.assoc)
  have c: "take_bit 26 (drop_bit (26 * 0) poly_clamp) = 0x3ffffff" "take_bit 26 (drop_bit (26 * 1) poly_clamp) = 0x3ffff03"
    "take_bit 26 (drop_bit (26 * 2) poly_clamp) = 0x3ffc0ff" "take_bit 26 (drop_bit (26 * 3) poly_clamp) = 0x3f03fff"
    "take_bit 26 (drop_bit (26 * 4) poly_clamp) = 0x00fffff"
    by (simp_all add: poly_clamp_def take_bit_eq_mod drop_bit_eq_div)
  have "[0 ..< 5] = [0, 1, 2, 3, 4 :: nat]" by (simp add: upt_rec)
  then have "map (\<lambda>i. take_bit 26 (drop_bit (26 * i) (?n AND poly_clamp))) [0..<5] = map unat (po_r (poly_init key))"
    using dig[of 0] dig[of 1] dig[of 2] dig[of 3] dig[of 4]
    by (simp only: r list.map take_bit_and drop_bit_and c unsigned_and_eq) simp
  moreover have "(?n AND poly_clamp) < 2 ^ 130"
  proof -
    have "(?n AND poly_clamp) \<le> ?n" by (rule and_leq_nat)
    moreover have "?n < 2 ^ 128" using le_val_less[of "take 16 key"] assms by simp
    ultimately show ?thesis by simp
  qed
  ultimately have "limbs (map unat (po_r (poly_init key))) = (?n AND poly_clamp)" using limb_digits by metis
  moreover have "key_ok (po_r (poly_init key))"
  proof -
    have m: "unat (x AND m :: u32) \<le> unat x" "unat (m AND x :: u32) \<le> unat x" for x m
      using and_leq_nat[of "unat x" "unat m"] by (simp_all add: unsigned_and_eq and.commute)
    have "unat (?b4 AND 0xfffff) < 2 ^ 20" by (rule le_less_trans[OF m(2)]) simp
    then show ?thesis unfolding key_ok_def r using lt le_less_trans[OF m(1) lt] by blast
  qed
  ultimately show ?thesis by blast
qed

section \<open>The tag\<close>

lemma limbs_less: "\<forall>x \<in> set xs. x < 2 ^ 26 \<Longrightarrow> limbs xs < 2 ^ (26 * length xs)"
proof (induction xs)
  case (Cons x xs)
  then have "x + 2 ^ 26 * limbs xs < 2 ^ 26 * (limbs xs + 1)" "limbs xs + 1 \<le> 2 ^ (26 * length xs)" by simp_all
  then have "x + 2 ^ 26 * limbs xs < 2 ^ 26 * 2 ^ (26 * length xs)" by (meson less_le_trans mult_le_mono2)
  then show ?case by (simp only: limbs.simps list.size mult_Suc_right power_add) (simp add: power_add)
qed simp

lemma carry_chain:
  fixes a0 a1 a2 a3 a4 m0 m1 m2 m3 m4 q0 q1 q2 q3 q4 :: nat
  assumes "m0 + 2 ^ 26 * q0 = a0 + 5 * q4" "m1 + 2 ^ 26 * q1 = a1" "m2 + 2 ^ 26 * q2 = a2 + q1" "m3 + 2 ^ 26 * q3 = a3 + q2"
    "m4 + 2 ^ 26 * q4 = a4 + q3"
  shows "limbs [m0, m1 + q0, m2, m3, m4] + poly_p * q4 = limbs [a0, a1, a2, a3, a4]"
  using assms by simp

lemma full_carry_limbs:
  assumes "acc_ok h"
  shows "\<exists>f0 f1 f2 f3 f4. full_carry h = [f0, f1, f2, f3, f4] \<and> (\<forall>x \<in> set [f0, f1, f2, f3, f4]. unat x < 2 ^ 26)
    \<and> limbs (map unat (full_carry h)) mod poly_p = limbs (map unat h) mod poly_p"
proof -
  obtain a0 a1 a2 a3 a4 where a: "h = [a0, a1, a2, a3, a4]" "unat a0 < 2 ^ 26" "unat a1 < 2 ^ 26 + 64" "unat a2 < 2 ^ 26"
      "unat a3 < 2 ^ 26" "unat a4 < 2 ^ 26" using assms unfolding acc_ok_def by blast
  have z: "drop_bit 26 a0 = 0" "a0 AND 0x3ffffff = a0"
    using a(2) by (simp_all add: word_unat_eq_iff limb_low drop_bit_eq_div unat_div)
  define k2 where "k2 = a2 + drop_bit 26 a1"
  define k3 where "k3 = a3 + drop_bit 26 k2"
  define k4 where "k4 = a4 + drop_bit 26 k3"
  define s where "s = a0 + drop_bit 26 k4 * 5"
  let ?m = "\<lambda>x. x AND 0x3ffffff"
  have "[1 ..< 5] = [1, 2, 3, 4 :: nat]" by (simp add: upt_rec)
  then have f: "full_carry h = [?m s, ?m a1 + drop_bit 26 s, ?m k2, ?m k3, ?m k4]"
    by (simp add: full_carry_def a(1) z Let_def k2_def k3_def k4_def s_def numeral_2_eq_2 numeral_3_eq_3)
  have q: "unat (drop_bit 26 x) = unat x div 2 ^ 26" for x :: u32 by (simp add: drop_bit_eq_div unat_div)
  have one: "unat (x + drop_bit 26 y) = unat x + unat y div 2 ^ 26 \<and> unat (x + drop_bit 26 y) \<le> 2 ^ 26"
    if "unat x < 2 ^ 26" "unat y < 2 ^ 26 + 64" for x y :: u32
  proof -
    have "unat y div 2 ^ 26 \<le> 1" using that(2) by simp
    then show ?thesis using that(1) by (simp add: unat_word_ariths(1)[of x] q)
  qed
  have k2: "unat k2 = unat a2 + unat a1 div 2 ^ 26" "unat k2 \<le> 2 ^ 26" using one[OF a(4,3)] by (simp_all add: k2_def)
  then have k3: "unat k3 = unat a3 + unat k2 div 2 ^ 26" "unat k3 \<le> 2 ^ 26" using one[OF a(5), of k2] by (simp_all add: k3_def)
  then have k4: "unat k4 = unat a4 + unat k3 div 2 ^ 26" "unat k4 \<le> 2 ^ 26" using one[OF a(6), of k3] by (simp_all add: k4_def)
  then have c: "unat k4 div 2 ^ 26 \<le> 1" by simp
  then have s: "unat s = unat a0 + 5 * (unat k4 div 2 ^ 26)" using a(2) by (simp add: s_def unat_word_ariths(1)[of a0] unat_word_ariths(2) q)
  have f1: "unat (?m a1) + unat s div 2 ^ 26 < 2 ^ 26"
  proof (cases "unat k4 div 2 ^ 26 = 0")
    case True
    then show ?thesis using s a(2) by (simp add: limb_low)
  next
    case False
    then have "unat k3 div 2 ^ 26 \<noteq> 0" using k4(1) a(6) by (metis add_0_right div_less)
    then have "unat k2 div 2 ^ 26 \<noteq> 0" using k3(1) a(5) by (metis add_0_right div_less)
    then have "unat a1 div 2 ^ 26 \<noteq> 0" using k2(1) a(4) by (metis add_0_right div_less)
    then have "unat a1 mod 2 ^ 26 < 64" using a(3) by (auto simp: mod_if div_eq_0_iff)
    moreover have "unat s div 2 ^ 26 \<le> 1" using s c a(2) by simp
    ultimately show ?thesis by (simp add: limb_low)
  qed
  then have u1: "unat (?m a1 + drop_bit 26 s) = unat a1 mod 2 ^ 26 + unat s div 2 ^ 26"
    by (simp add: unat_word_ariths(1)[of "?m a1"] q limb_low)
  have lt: "unat (?m x) < 2 ^ 26" for x :: u32 by (simp add: limb_low)
  have "limbs (map unat (full_carry h)) + poly_p * (unat k4 div 2 ^ 26) = limbs (map unat h)"
    unfolding f unfolding a(1) list.map limb_low u1
    by (rule carry_chain[where ?q1.0 = "unat a1 div 2 ^ 26" and ?q2.0 = "unat k2 div 2 ^ 26" and ?q3.0 = "unat k3 div 2 ^ 26"])
      (simp_all only: mod_mult_div_eq s k2(1) k3(1) k4(1))
  then have "limbs (map unat (full_carry h)) mod poly_p = limbs (map unat h) mod poly_p" by (metis mod_mult_self2)
  moreover have "\<forall>x \<in> set [?m s, ?m a1 + drop_bit 26 s, ?m k2, ?m k3, ?m k4]. unat x < 2 ^ 26"
    using lt f1 u1 by (simp add: limb_low)
  ultimately show ?thesis using f by blast
qed

text \<open>The candidate \<open>h + 5 - 2 ^ 130\<close> is masked to 26 bits before \<open>2 ^ 130\<close> is taken off it, so it is always
  negative and never chosen: the number packed is the one the carries left.\<close>

lemma plus_five_borrows:
  assumes "length h = 5"
  shows "drop_bit 31 (plus_five h ! 4) = 1"
proof -
  obtain a b c d e where h: "h = [a, b, c, d, e]" using list5[OF assms] by blast
  obtain g where g: "plus_five h ! 4 = (g AND 0x3ffffff) - push_bit 26 1"
    by (simp add: plus_five_def h Let_def del: push_bit_numeral)
  define x where "x = g AND 0x3ffffff"
  have x: "unat x < 2 ^ 26" by (simp add: x_def limb_low)
  have "unat (x - push_bit 26 1) = 2 ^ 32 + unat x - 2 ^ 26" using x by (simp add: unat_sub_if')
  then have "unat (drop_bit 31 (x - push_bit 26 1)) = 1" using x by (simp add: drop_bit_eq_div unat_div div_nat_eqI)
  then show ?thesis unfolding g x_def[symmetric] by (simp add: word_unat_eq_iff)
qed

lemma select_keeps: "length h = 5 \<Longrightarrow> select_mod h (plus_five h) = h"
  using plus_five_borrows[of h] map_nth[of h] by (simp add: select_mod_def Let_def)

lemma pack_join:
  assumes "unat x < 2 ^ 26" "26 - a \<le> b" "b \<le> 32"
  shows "unat (drop_bit a x OR push_bit b y :: u32) = unat x div 2 ^ a + 2 ^ b * (unat y mod 2 ^ (32 - b))"
proof -
  have x: "n < 26" if "bit (unat x) n" for n
    using assms(1) that by (metis bit_take_bit_iff take_bit_nat_eq_self)
  have "unat (drop_bit a x OR push_bit b y) = drop_bit a (unat x) OR push_bit b (take_bit (32 - b) (unat y))"
    by (rule bit_eqI) (use assms in \<open>auto simp: bit_simps dest: bit_u32\<close>)
  also have "drop_bit a (unat x) AND push_bit b (take_bit (32 - b) (unat y)) = 0"
    by (rule bit_eqI) (use assms x in \<open>fastforce simp: bit_simps\<close>)
  then have "drop_bit a (unat x) OR push_bit b (take_bit (32 - b) (unat y)) = drop_bit a (unat x) + push_bit b (take_bit (32 - b) (unat y))"
    by (rule disjunctive_add_eq_or[symmetric])
  finally show ?thesis by (simp add: drop_bit_eq_div push_bit_eq_mult take_bit_eq_mod mult.commute)
qed

fun word_sum :: "(u32 \<times> u32) list \<Rightarrow> nat" where
  "word_sum [] = 0"
| "word_sum ((w, p) # ws) = unat w + unat p + 2 ^ 32 * word_sum ws"

lemma tag_loop_bytes: "unat f \<le> 2 ^ 32 \<Longrightarrow> tag_loop f ws = le_bytes (4 * length ws) (unat f + word_sum ws)"
proof (induction f ws rule: tag_loop.induct)
  case (2 f w p ws)
  define g where "g = f + (ucast w + ucast p)"
  have wp: "unat w < 2 ^ 32" "unat p < 2 ^ 32" using unsigned_less[of w, where ?'a = nat] unsigned_less[of p, where ?'a = nat] by simp_all
  have "g = f + of_nat (unat w + unat p)" unfolding g_def ucast_of_nat of_nat_add by (rule refl)
  moreover have "unat (of_nat (unat w + unat p) :: u64) = unat w + unat p" using wp by (simp only: unat_of_nat) simp
  ultimately have g: "unat g = unat f + unat w + unat p" using wp 2(2) by (simp add: unat_word_ariths(1)[of f] del: of_nat_add)
  have v: "unat f + word_sum ((w, p) # ws) = unat g + 2 ^ 32 * word_sum ws" by (simp add: g)
  have d: "unat (drop_bit 32 g) = unat g div 2 ^ 32" by (simp add: drop_bit_eq_div unat_div)
  then have "unat (drop_bit 32 g) \<le> 2 ^ 32" using g wp 2(2) by simp
  then have ih: "tag_loop (drop_bit 32 g) ws = le_bytes (4 * length ws) (unat g div 2 ^ 32 + word_sum ws)"
    using 2(1)[OF g_def] d by simp
  have b: "ucast (drop_bit k g) = (of_nat ((unat g + 2 ^ 32 * s) div 2 ^ k) :: u8)" if "k \<le> 24" for k s
  proof -
    have "2 ^ 32 * s = 2 ^ k * (2 ^ (24 - k) * 256 * s)" using that by (simp add: power_add[symmetric] mult.assoc[symmetric])
    then have "(unat g + 2 ^ 32 * s) div 2 ^ k = unat g div 2 ^ k + 2 ^ (24 - k) * 256 * s"
      by (simp only: div_mult_self2 power_not_zero zero_neq_numeral not_False_eq_True)
    moreover have "(of_nat 256 :: u8) = 0" by simp
    then have "(of_nat (2 ^ (24 - k) * 256 * s) :: u8) = 0" by (simp only: of_nat_mult mult_zero_left mult_zero_right)
    ultimately have "of_nat ((unat g + 2 ^ 32 * s) div 2 ^ k) = (of_nat (unat g div 2 ^ k) :: u8)" by (simp only: of_nat_add add_0_right)
    also have "\<dots> = of_nat (unat (drop_bit k g))" by (rule arg_cong[of _ _ of_nat], rule bit_eqI) (simp add: bit_simps flip: drop_bit_eq_div)
    finally show ?thesis by simp
  qed
  have "4 * length ((w, p) # ws) = 4 + 4 * length ws" by simp
  then show ?case
    unfolding v using b[of 0 "word_sum ws"] b[of 8 "word_sum ws"] b[of 16 "word_sum ws"] b[of 24 "word_sum ws"] ih
    by (simp add: le_bytes_4 g_def[symmetric] Let_def add.commute[of "word_sum ws"] del: word_sum.simps)
qed (simp add: le_bytes_def)

lemma le_bytes_mod: "le_bytes n (v mod 256 ^ n) = le_bytes n v"
proof -
  have "be_val (be_bytes n (v mod 256 ^ n)) = be_val (be_bytes n v)" by (simp add: be_val_be_bytes)
  then show ?thesis unfolding le_bytes_def by (metis be_bytes_be_val length_be_bytes)
qed

lemma pack_chain:
  fixes a0 a1 a2 a3 a4 m1 m2 m3 m4 q1 q2 q3 q4 :: nat
  assumes "m1 + 2 ^ 6 * q1 = a1" "m2 + 2 ^ 12 * q2 = a2" "m3 + 2 ^ 18 * q3 = a3" "m4 + 2 ^ 24 * q4 = a4"
  shows "(a0 + 2 ^ 26 * m1) + 2 ^ 32 * ((q1 + 2 ^ 20 * m2) + 2 ^ 32 * ((q2 + 2 ^ 14 * m3) + 2 ^ 32 * (q3 + 2 ^ 8 * m4))) + 2 ^ 128 * q4
    = limbs [a0, a1, a2, a3, a4]"
  using assms by simp

lemma pack_val:
  assumes "\<forall>x \<in> set [f0, f1, f2, f3, f4]. unat x < 2 ^ 26" and p: "length p = 4"
  shows "word_sum (zip (poly_pack [f0, f1, f2, f3, f4]) p) mod 2 ^ 128 = (limbs (map unat [f0, f1, f2, f3, f4]) + word_sum (zip [0, 0, 0, 0] p)) mod 2 ^ 128"
proof -
  obtain p0 p1 p2 p3 where p: "p = [p0, p1, p2, p3]"
    using p by (auto simp: length_Suc_conv eval_nat_numeral)
  have b: "unat f0 < 2 ^ 26" "unat f1 < 2 ^ 26" "unat f2 < 2 ^ 26" "unat f3 < 2 ^ 26" using assms(1) by simp_all
  note w = pack_join[OF b(1), of 0 26 f1] pack_join[OF b(2), of 6 20 f2] pack_join[OF b(3), of 12 14 f3] pack_join[OF b(4), of 18 8 f4]
  note c = pack_chain[OF mod_mult_div_eq[of "unat f1"] mod_mult_div_eq[of "unat f2"] mod_mult_div_eq[of "unat f3"] mod_mult_div_eq[of "unat f4"], of "unat f0"]
  have "word_sum (zip (poly_pack [f0, f1, f2, f3, f4]) p) + 2 ^ 128 * (unat f4 div 2 ^ 24)
      = limbs (map unat [f0, f1, f2, f3, f4]) + word_sum (zip [0, 0, 0, 0] p)"
    using w c by (simp add: poly_pack_def p)
  then show ?thesis by (metis mod_mult_self2)
qed

lemma poly_finish_tag:
  assumes "poly_ok st" "length (po_pad st) = 4"
  shows "\<exists>v < 2 ^ 130. v mod poly_p = limbs (map unat (po_h st)) mod poly_p
    \<and> poly_finish st = le_bytes 16 (v + word_sum (zip [0, 0, 0, 0] (po_pad st)))"
proof -
  obtain f0 f1 f2 f3 f4 where f: "full_carry (po_h st) = [f0, f1, f2, f3, f4]" "\<forall>x \<in> set [f0, f1, f2, f3, f4]. unat x < 2 ^ 26"
      and v: "limbs (map unat (full_carry (po_h st))) mod poly_p = limbs (map unat (po_h st)) mod poly_p"
    using full_carry_limbs assms(1) unfolding poly_ok_def by blast
  let ?v = "limbs (map unat [f0, f1, f2, f3, f4])"
  have "poly_finish st = tag_loop 0 (zip (poly_pack [f0, f1, f2, f3, f4]) (po_pad st))"
    using select_keeps[of "[f0, f1, f2, f3, f4]"] by (simp add: poly_finish_def f(1) Let_def)
  also have "\<dots> = le_bytes 16 (word_sum (zip (poly_pack [f0, f1, f2, f3, f4]) (po_pad st)))"
    using tag_loop_bytes[of 0 "zip (poly_pack [f0, f1, f2, f3, f4]) (po_pad st)"] assms(2) by (simp add: poly_pack_def)
  also have "\<dots> = le_bytes 16 (?v + word_sum (zip [0, 0, 0, 0] (po_pad st)))"
  proof -
    have "(256 ^ 16 :: nat) = 2 ^ 128" by simp
    then show ?thesis using pack_val[OF f(2) assms(2)] le_bytes_mod[of 16] by metis
  qed
  finally have "poly_finish st = le_bytes 16 (?v + word_sum (zip [0, 0, 0, 0] (po_pad st)))" .
  moreover have "?v < 2 ^ 130" using limbs_less[of "map unat [f0, f1, f2, f3, f4]"] f(2) by simp
  ultimately show ?thesis using v f(1) by metis
qed

section \<open>Poly1305\<close>

definition poly1305_acc :: "bytes \<Rightarrow> bytes \<Rightarrow> nat" where
  "poly1305_acc key m = poly_acc (le_val (take 16 key) AND poly_clamp) 0 m"

definition poly1305_ref :: "bytes \<Rightarrow> bytes \<Rightarrow> bytes" where
  "poly1305_ref key m = le_bytes 16 (poly1305_acc key m + le_val (take 16 (drop 16 key)))"

lemma poly_init_rest:
  assumes "32 \<le> length key"
  shows "acc_ok (po_h (poly_init key)) \<and> limbs (map unat (po_h (poly_init key))) = 0
    \<and> length (po_pad (poly_init key)) = 4 \<and> word_sum (zip [0, 0, 0, 0] (po_pad (poly_init key))) = le_val (take 16 (drop 16 key))"
proof -
  have "replicate 5 0 = [0, 0, 0, 0, 0 :: u32]" by (simp add: eval_nat_numeral)
  then have "acc_ok (po_h (poly_init key))" "limbs (map unat (po_h (poly_init key))) = 0"
    by (simp_all add: poly_init_def Let_def acc_ok_def)
  moreover have "[0..<4] = [0, 1, 2, 3 :: nat]" by (simp add: upt_rec)
  then have "word_sum (zip [0, 0, 0, 0] (po_pad (poly_init key))) = le_val (take 16 (drop 16 key))" "length (po_pad (poly_init key)) = 4"
    using le_val_words[of "drop 16 key"] assms by (simp_all add: poly_init_def Let_def)
  ultimately show ?thesis by blast
qed

lemma poly1305_residue:
  assumes "32 \<le> length key" "len \<le> length msg"
  shows "\<exists>v < 2 ^ 130. v mod poly_p = poly1305_acc key (take len msg)
    \<and> quic_poly1305 key msg len = le_bytes 16 (v + le_val (take 16 (drop 16 key)))"
proof -
  let ?st = "poly_loop (poly_init key) msg len 0"
  note i = poly_init_key[of key] poly_init_rest[OF assms(1)]
  then have "poly_ok (poly_init key)" using assms(1) by (simp add: poly_ok_def)
  from poly_loop_acc[OF this _ assms(2), of 0] have l: "poly_ok ?st" "limbs (map unat (po_h ?st)) mod poly_p = poly1305_acc key (take len msg)"
    using i assms(1) by (simp_all add: poly1305_acc_def)
  have "length (po_pad ?st) = 4" using i by (simp add: poly_loop_pad)
  from poly_finish_tag[OF l(1) this] show ?thesis
    using l(2) i by (simp only: quic_poly1305_def poly_blocks_def poly_loop_pad)
qed

lemma vector7:
  "quic_poly1305 (2 # replicate 31 0) (replicate 16 0xFF) 16 = 0xFE # replicate 15 0xFF"
  "poly1305_ref (2 # replicate 31 0) (replicate 16 0xFF) = 3 # replicate 15 0"
  by code_simp+

text \<open>C40: the Poly1305 tag of any message under any key is the little-endian encoding, modulo \<open>2 ^ 128\<close>, of the second half
  of the key plus some number below \<open>2 ^ 130\<close> that is congruent to the accumulator of RFC 8439 modulo \<open>2 ^ 130 - 5\<close>, so that no
  intermediate sum of the limb arithmetic is lost; it is the tag of RFC 8439 whenever the
  accumulator is at least 5. For an accumulator below 5 the final reduction of the code does not happen: on the test
  vector number 7 of RFC 8439 (accumulator 3) the tag is not the one of the RFC.\<close>

theorem poly1305_correct:
  assumes "32 \<le> length key" "len \<le> length msg"
  shows "(\<exists>v < 2 ^ 130. v mod poly_p = poly1305_acc key (take len msg)
      \<and> quic_poly1305 key msg len = le_bytes 16 (v + le_val (take 16 (drop 16 key))))
    \<and> (5 \<le> poly1305_acc key (take len msg) \<longrightarrow> quic_poly1305 key msg len = poly1305_ref key (take len msg))
    \<and> quic_poly1305 (2 # replicate 31 0) (replicate 16 0xFF) 16 = 0xFE # replicate 15 0xFF
    \<and> poly1305_ref (2 # replicate 31 0) (replicate 16 0xFF) = 3 # replicate 15 0"
proof -
  obtain v where v: "v < 2 ^ 130" "v mod poly_p = poly1305_acc key (take len msg)"
      "quic_poly1305 key msg len = le_bytes 16 (v + le_val (take 16 (drop 16 key)))"
    using poly1305_residue[OF assms] by blast
  have "v = poly1305_acc key (take len msg)" if "5 \<le> poly1305_acc key (take len msg)"
  proof (cases "v < poly_p")
    case False
    then have "v mod poly_p = v - poly_p" using v(1) by (simp add: mod_if)
    then show ?thesis using that v(1,2) by simp
  qed (use v(2) in simp)
  then show ?thesis using v vector7 by (auto simp: poly1305_ref_def)
qed

theorem poly1305_correct_witness:
  "(32 :: nat) \<le> length ((5 :: u8) # replicate 31 (0 :: u8)) \<and> 5 \<le> poly1305_acc (5 # replicate 31 0) [0x61, 0x62, 0x63]
   \<and> quic_poly1305 (5 # replicate 31 0) [0x61, 0x62, 0x63] 3 = poly1305_ref (5 # replicate 31 0) [0x61, 0x62, 0x63]"
proof -
  have l: "(32 :: nat) \<le> length ((5 :: u8) # replicate 31 (0 :: u8))" by simp
  have a: "5 \<le> poly1305_acc (5 # replicate 31 0) [0x61, 0x62, 0x63]" by code_simp
  have t: "3 \<le> length [0x61, 0x62, 0x63 :: u8]" "take 3 [0x61, 0x62, 0x63 :: u8] = [0x61, 0x62, 0x63]" by simp_all
  show ?thesis using poly1305_correct[OF l t(1), THEN conjunct2, THEN conjunct1] a l unfolding t(2) by blast
qed

end
