(* ===== verification/Packet_Protection.thy ===== *)
theory Packet_Protection
  imports Aes_Gcm Chacha_Poly
begin

text \<open>
  Packet protection: the header-protection masks (\<^verbatim>\<open>src/transport/packet/protect/hp\<close>), the AES pipeline
  (protect.c), the choice by cipher suite (\<^verbatim>\<open>protect_suite\<close>) and the suite-aware pipeline
  (protectcs.c), over the ciphers of \<^verbatim>\<open>Aes_Gcm\<close> and \<^verbatim>\<open>Chacha_Poly\<close>.

  A packet is a byte list; a pointer into it is an offset or the list from there, and an in-place operation returns
  the changed list. The ciphers read a byte of their input no later than they write the output byte of
  the same index, so that decrypting in place is the same as decrypting into another buffer.
  The length that the seal functions return is the plaintext length; no caller reads it.

  The lemmas show that removing header protection inverts applying it, that the AES pipeline and the suite-aware
  pipeline open what they sealed, and that what they open is exactly what sealing the opened buffer produces.
\<close>

section \<open>hp.c, hp\_chacha.c, hpapply.c, hpsample.c\<close>

definition QUIC_HP_LONG_MASK :: u8 where "QUIC_HP_LONG_MASK = 0x0f"
definition QUIC_HP_SHORT_MASK :: u8 where "QUIC_HP_SHORT_MASK = 0x1f"

definition quic_hp_mask :: "quic_aes128 \<Rightarrow> bytes \<Rightarrow> bytes" where
  "quic_hp_mask hp sample = take 5 (quic_aes128_encrypt hp sample)"

definition quic_hp_apply :: "bytes \<Rightarrow> bytes \<Rightarrow> usz \<Rightarrow> usz \<Rightarrow> u8 \<Rightarrow> bytes" where
  "quic_hp_apply msk pkt pn_off pn_len bits_mask =
     (let pkt = pkt[0 := rd pkt 0 XOR (rd msk 0 AND bits_mask)]
      in overwrite pkt pn_off (map (\<lambda>i. rd pkt (pn_off + i) XOR rd msk (1 + i)) [0..<pn_len]))"

definition quic_hp_chacha_mask :: "bytes \<Rightarrow> bytes \<Rightarrow> bytes" where
  "quic_hp_chacha_mask hp_key sample =
     (let counter = ucast (rd sample 0) OR push_bit 8 (ucast (rd sample 1)) OR push_bit 16 (ucast (rd sample 2)) OR push_bit 24 (ucast (rd sample 3));
          block = quic_chacha20_block hp_key counter (drop 4 sample)
      in take 5 block)"

definition quic_hp_protect_byte0 :: "u8 \<Rightarrow> u8 \<Rightarrow> bool \<Rightarrow> u8" where
  "quic_hp_protect_byte0 byte0 mask0 is_long = byte0 XOR (mask0 AND (if is_long then 0x0f else 0x1f))"

definition quic_hp_protect_pn :: "bytes \<Rightarrow> usz \<Rightarrow> bytes \<Rightarrow> bytes" where
  "quic_hp_protect_pn pn pn_len msk = overwrite pn 0 (map (\<lambda>i. rd pn i XOR rd msk (1 + i)) [0..<pn_len])"

definition quic_hp_sample_offset :: "usz \<Rightarrow> usz" where
  "quic_hp_sample_offset pn_offset = usz_add pn_offset 4"

definition quic_hp_sample_ok :: "usz \<Rightarrow> usz \<Rightarrow> bool" where
  "quic_hp_sample_ok packet_len sample_offset \<longleftrightarrow> usz_add sample_offset 16 \<le> packet_len"

section \<open>protect.c\<close>

record quic_initial_keys =
  ik_key :: bytes
  ik_iv :: bytes
  ik_hp :: bytes

definition quic_protect_nonce :: "bytes \<Rightarrow> u64 \<Rightarrow> bytes" where
  "quic_protect_nonce iv pn =
     fold (\<lambda>i nonce. nonce[11 - i := nonce ! (11 - i) XOR ucast (drop_bit (8 * i) pn)]) [0..<8] (map (rd iv) [0..<12])"

definition seal_into :: "quic_initial_keys \<Rightarrow> bytes \<Rightarrow> usz \<Rightarrow> u64 \<Rightarrow> bytes \<Rightarrow> usz \<Rightarrow> bytes \<Rightarrow> usz \<Rightarrow> usz \<times> bytes" where
  "seal_into keys hdr hdr_len pn payload pl out cap =
     (let need = usz_add (usz_add hdr_len pl) 16
      in if need > cap then (0, out)
         else let out = overwrite out 0 (take hdr_len hdr);
                  nonce = quic_protect_nonce (ik_iv keys) pn;
                  aead = quic_aes128_init (ik_key keys);
                  (ct, tag) = quic_gcm_seal aead nonce hdr hdr_len payload pl (drop hdr_len out);
                  out = take hdr_len out @ ct
              in (need, overwrite out (hdr_len + pl) tag))"

definition protect_header :: "quic_aes128 \<Rightarrow> bytes \<Rightarrow> usz \<Rightarrow> usz \<Rightarrow> bytes" where
  "protect_header hp_aes out pn_off pn_len =
     quic_hp_apply (quic_hp_mask hp_aes (drop (pn_off + 4) out)) out pn_off pn_len QUIC_HP_LONG_MASK"

definition quic_protect_seal ::
    "quic_initial_keys \<Rightarrow> quic_aes128 \<Rightarrow> bytes \<Rightarrow> usz \<Rightarrow> usz \<Rightarrow> usz \<Rightarrow> u64 \<Rightarrow> bytes \<Rightarrow> usz \<Rightarrow> bytes \<Rightarrow> usz \<Rightarrow> usz \<times> bytes" where
  "quic_protect_seal keys hp_aes hdr hdr_len pn_off pn_len pn payload payload_len out cap =
     (case seal_into keys hdr hdr_len pn payload payload_len out cap of (tot, out) \<Rightarrow>
        if tot = 0 then (0, out) else (tot, protect_header hp_aes out pn_off pn_len))"

definition quic_protect_open ::
    "quic_initial_keys \<Rightarrow> quic_aes128 \<Rightarrow> bytes \<Rightarrow> usz \<Rightarrow> usz \<Rightarrow> usz \<Rightarrow> usz \<Rightarrow> u64 \<Rightarrow> usz \<times> bytes" where
  "quic_protect_open keys hp_aes pkt pkt_len hdr_len pn_off pn_len pn =
     (let ct_len = usz_sub (usz_sub pkt_len hdr_len) 16;
          pkt = protect_header hp_aes pkt pn_off pn_len;
          nonce = quic_protect_nonce (ik_iv keys) pn;
          aead = quic_aes128_init (ik_key keys);
          (ok, pt) = quic_gcm_open aead nonce pkt hdr_len (drop hdr_len pkt) ct_len (drop (usz_add hdr_len ct_len) pkt) (drop hdr_len pkt);
          pkt = take hdr_len pkt @ pt
      in if \<not> ok then (0, pkt) else (ct_len, pkt))"

section \<open>aead\_suite.c and hp\_suite.c\<close>

definition QUIC_TLS_AES_128_GCM_SHA256 :: u16 where "QUIC_TLS_AES_128_GCM_SHA256 = 0x1301"
definition QUIC_TLS_CHACHA20_POLY1305_SHA256 :: u16 where "QUIC_TLS_CHACHA20_POLY1305_SHA256 = 0x1303"

definition suite_nonce :: "bytes \<Rightarrow> u64 \<Rightarrow> bytes" where
  "suite_nonce iv pn =
     fold (\<lambda>i nonce. nonce[11 - i := nonce ! (11 - i) XOR ucast (drop_bit (8 * i) pn)]) [0..<8] (map (rd iv) [0..<12])"

definition gcm_seal :: "bytes \<Rightarrow> bytes \<Rightarrow> bytes \<Rightarrow> usz \<Rightarrow> bytes \<Rightarrow> usz \<Rightarrow> bytes \<Rightarrow> usz \<times> bytes" where
  "gcm_seal key nonce aad aad_len pt pt_len out =
     (let a = quic_aes128_init key;
          (out, tag) = quic_gcm_seal a nonce aad aad_len pt pt_len out
      in (usz_add pt_len 16, overwrite out pt_len tag))"

definition cha_seal :: "bytes \<Rightarrow> bytes \<Rightarrow> bytes \<Rightarrow> usz \<Rightarrow> bytes \<Rightarrow> usz \<Rightarrow> bytes \<Rightarrow> usz \<times> bytes" where
  "cha_seal key nonce aad aad_len pt pt_len out =
     (let (out, tag) = quic_chapoly_seal key nonce aad aad_len pt pt_len out
      in (usz_add pt_len 16, overwrite out pt_len tag))"

definition quic_aead_suite_seal ::
    "u16 \<Rightarrow> bytes \<Rightarrow> bytes \<Rightarrow> u64 \<Rightarrow> bytes \<Rightarrow> usz \<Rightarrow> bytes \<Rightarrow> usz \<Rightarrow> bytes \<Rightarrow> usz \<times> bytes" where
  "quic_aead_suite_seal suite key iv pn aad aad_len pt pt_len out =
     (let nonce = suite_nonce iv pn
      in if suite = QUIC_TLS_AES_128_GCM_SHA256 then gcm_seal key nonce aad aad_len pt pt_len out
         else if suite = QUIC_TLS_CHACHA20_POLY1305_SHA256 then cha_seal key nonce aad aad_len pt pt_len out
         else (0, out))"

definition gcm_open :: "bytes \<Rightarrow> bytes \<Rightarrow> bytes \<Rightarrow> usz \<Rightarrow> bytes \<Rightarrow> usz \<Rightarrow> bytes \<Rightarrow> usz \<times> bytes" where
  "gcm_open key nonce aad aad_len ct ct_len pt =
     (let a = quic_aes128_init key;
          (ok, pt) = quic_gcm_open a nonce aad aad_len ct ct_len (drop ct_len ct) pt
      in if \<not> ok then (0, pt) else (ct_len, pt))"

definition cha_open :: "bytes \<Rightarrow> bytes \<Rightarrow> bytes \<Rightarrow> usz \<Rightarrow> bytes \<Rightarrow> usz \<Rightarrow> bytes \<Rightarrow> usz \<times> bytes" where
  "cha_open key nonce aad aad_len ct ct_len pt =
     (let (ok, pt) = quic_chapoly_open key nonce aad aad_len ct ct_len (drop ct_len ct) pt
      in if \<not> ok then (0, pt) else (ct_len, pt))"

definition quic_aead_suite_open ::
    "u16 \<Rightarrow> bytes \<Rightarrow> bytes \<Rightarrow> u64 \<Rightarrow> bytes \<Rightarrow> usz \<Rightarrow> bytes \<Rightarrow> usz \<Rightarrow> bytes \<Rightarrow> usz \<times> bytes" where
  "quic_aead_suite_open suite key iv pn aad aad_len ct ct_len pt =
     (let nonce = suite_nonce iv pn
      in if suite = QUIC_TLS_AES_128_GCM_SHA256 then gcm_open key nonce aad aad_len ct ct_len pt
         else if suite = QUIC_TLS_CHACHA20_POLY1305_SHA256 then cha_open key nonce aad aad_len ct ct_len pt
         else (0, pt))"

definition quic_hp_suite_mask :: "u16 \<Rightarrow> bytes \<Rightarrow> bytes \<Rightarrow> bytes option" where
  "quic_hp_suite_mask suite hp_key sample =
     (if suite = QUIC_TLS_AES_128_GCM_SHA256 then let hp = quic_aes128_init hp_key in Some (quic_hp_mask hp sample)
      else if suite = QUIC_TLS_CHACHA20_POLY1305_SHA256 then Some (quic_hp_chacha_mask hp_key sample)
      else None)"

section \<open>protectcs.c\<close>

definition form_mask :: "u8 \<Rightarrow> u8" where
  "form_mask byte0 = (if byte0 AND 0x80 \<noteq> 0 then QUIC_HP_LONG_MASK else QUIC_HP_SHORT_MASK)"

definition quic_protectcs_seal ::
    "u16 \<Rightarrow> bytes \<Rightarrow> bytes \<Rightarrow> bytes \<Rightarrow> u64 \<Rightarrow> bytes \<Rightarrow> usz \<Rightarrow> u8 \<Rightarrow> usz \<Rightarrow> usz option \<times> bytes" where
  "quic_protectcs_seal suite key iv hp_key pn pkt pn_off pn_len payload_len =
     (let hdr_len = usz_add pn_off (unat pn_len);
          (n, body) = quic_aead_suite_seal suite key iv pn pkt hdr_len (drop hdr_len pkt) payload_len (drop hdr_len pkt);
          pkt = take hdr_len pkt @ body
      in if n = 0 then (None, pkt)
         else case quic_hp_suite_mask suite hp_key (drop (pn_off + 4) pkt) of
                None \<Rightarrow> (None, pkt)
              | Some msk \<Rightarrow> (Some (usz_add hdr_len n), quic_hp_apply msk pkt pn_off (unat pn_len) (form_mask (rd pkt 0))))"

definition pcs_read_pn :: "bytes \<Rightarrow> usz \<Rightarrow> usz \<Rightarrow> u64" where
  "pcs_read_pn pkt pn_off pn_len = fold (\<lambda>i pn. push_bit 8 pn OR ucast (rd pkt (pn_off + i))) [0..<pn_len] 0"

definition pcs_remove_hp :: "u16 \<Rightarrow> bytes \<Rightarrow> bytes \<Rightarrow> usz \<Rightarrow> usz \<times> bytes" where
  "pcs_remove_hp suite hp_key pkt pn_off =
     (case quic_hp_suite_mask suite hp_key (drop (pn_off + 4) pkt) of
        None \<Rightarrow> (0, pkt)
      | Some msk \<Rightarrow>
          let pkt = pkt[0 := rd pkt 0 XOR (rd msk 0 AND form_mask (rd pkt 0))];
              pn_len = unat (rd pkt 0 AND 0x03) + 1
          in (pn_len, take pn_off pkt @ quic_hp_protect_pn (drop pn_off pkt) pn_len msk))"

definition quic_protectcs_open ::
    "u16 \<Rightarrow> bytes \<Rightarrow> bytes \<Rightarrow> bytes \<Rightarrow> bytes \<Rightarrow> usz \<Rightarrow> usz \<Rightarrow> (bytes \<times> usz) option \<times> bytes" where
  "quic_protectcs_open suite key iv hp_key pkt len pn_off =
     (case pcs_remove_hp suite hp_key pkt pn_off of (pn_len, pkt) \<Rightarrow>
        if pn_len = 0 then (None, pkt)
        else let hdr_len = usz_add pn_off pn_len;
                 ct_len = usz_sub (usz_sub len hdr_len) 16;
                 pn = pcs_read_pn pkt pn_off pn_len;
                 (n, body) = quic_aead_suite_open suite key iv pn pkt hdr_len (drop hdr_len pkt) ct_len (drop hdr_len pkt);
                 pkt = take hdr_len pkt @ body
             in if n = 0 then (None, pkt) else (Some (take ct_len (drop hdr_len pkt), ct_len), pkt))"

section \<open>Header protection\<close>

lemma length_hp_mask [simp]: "length (quic_hp_mask hp s) = 5"
  by (simp add: quic_hp_mask_def)

lemma rd_take: "i < n \<Longrightarrow> rd (take n xs) i = rd xs i"
  by (simp add: rd_def)

lemma hp_mask_take: "quic_hp_mask hp (take 16 s) = quic_hp_mask hp s"
proof -
  have "map (rd (take 16 s)) [0..<16] = map (rd s) [0..<16]" by (simp add: rd_take)
  then show ?thesis by (simp only: quic_hp_mask_def quic_aes128_encrypt_def)
qed

lemma length_hp_chacha_mask [simp]: "length (quic_hp_chacha_mask key s) = 5"
  by (simp add: quic_hp_chacha_mask_def Let_def)

lemma hp_chacha_mask_take: "quic_hp_chacha_mask key (take 16 s) = quic_hp_chacha_mask key s"
proof -
  have r: "rd32 (drop (4 * i) (drop 4 (take 16 s))) = rd32 (drop (4 * i) (drop 4 s))" if "i < 3" for i
    using that by (simp add: rd32_def rd_drop rd_take)
  have "map (\<lambda>i. rd32 (drop (4 * i) (drop 4 (take 16 s)))) [0..<3] = map (\<lambda>i. rd32 (drop (4 * i) (drop 4 s))) [0..<3]"
    by (simp only: map_eq_conv set_upt) (use r in auto)
  then show ?thesis by (simp only: quic_hp_chacha_mask_def quic_chacha20_block_def init_state_def) (simp add: rd_take)
qed

lemma map_xor_bytes:
  "length xs \<le> length ys \<Longrightarrow> (\<And>i. i < length xs \<Longrightarrow> f i = xs ! i XOR ys ! i) \<Longrightarrow> map f [0..<length xs] = xor_bytes xs ys"
  by (intro nth_equalityI) (simp_all add: xor_bytes_def)

lemma hp_apply_parts:
  assumes "length msk = 5" "length pnb \<le> 4"
  shows "quic_hp_apply msk (b0 # mid @ pnb @ body) (Suc (length mid)) (length pnb) bits
    = (b0 XOR (rd msk 0 AND bits)) # mid @ xor_bytes pnb (drop 1 msk) @ body"
proof -
  have "map (\<lambda>i. rd (b # mid @ pnb @ body) (Suc (length mid) + i) XOR rd msk (1 + i)) [0..<length pnb] = xor_bytes pnb (drop 1 msk)" for b
    using assms by (intro map_xor_bytes) (simp_all add: rd_def nth_append)
  then show ?thesis using assms by (simp add: quic_hp_apply_def Let_def overwrite_def)
qed

lemma protect_pn_parts:
  assumes "length msk = 5" "length pnb \<le> 4"
  shows "quic_hp_protect_pn (pnb @ body) (length pnb) msk = xor_bytes pnb (drop 1 msk) @ body"
proof -
  have "map (\<lambda>i. rd (pnb @ body) i XOR rd msk (1 + i)) [0..<length pnb] = xor_bytes pnb (drop 1 msk)"
    using assms by (intro map_xor_bytes) (simp_all add: rd_def nth_append)
  then show ?thesis using assms by (simp add: quic_hp_protect_pn_def overwrite_0)
qed

lemma xor_bytes_twice: "length xs \<le> length ys \<Longrightarrow> xor_bytes (xor_bytes xs ys) ys = xs"
  by (intro nth_equalityI) (simp_all add: xor_bytes_def xor.assoc)

section \<open>Protected packets\<close>

text \<open>What the pipelines need of a cipher: encryption and tag under a packet number, and the mask of a sample. \<open>wire\<close> is the
  packet they build from a header (ending in the packet number at \<open>pn_off\<close>) and a payload.\<close>

locale packet_cipher =
  fixes crypt :: "u64 \<Rightarrow> bytes \<Rightarrow> bytes"
    and tag_of :: "u64 \<Rightarrow> bytes \<Rightarrow> bytes \<Rightarrow> bytes"
    and hmask :: "bytes \<Rightarrow> bytes"
  assumes crypt_length [simp]: "length (crypt pn x) = length x"
    and crypt_involution [simp]: "crypt pn (crypt pn x) = x"
    and tag_length [simp]: "length (tag_of pn aad x) = 16"
    and hmask_length [simp]: "length (hmask s) = 5"
    and hmask_take: "hmask (take 16 s) = hmask s"
begin

definition body :: "bytes \<Rightarrow> u64 \<Rightarrow> bytes \<Rightarrow> bytes" where
  "body hdr pn payload = crypt pn payload @ tag_of pn hdr (crypt pn payload)"

definition wire :: "u8 \<Rightarrow> bytes \<Rightarrow> usz \<Rightarrow> u64 \<Rightarrow> bytes \<Rightarrow> bytes" where
  "wire bits hdr pn_off pn payload =
     (let pkt = hdr @ body hdr pn payload
      in quic_hp_apply (hmask (drop (pn_off + 4) pkt)) pkt pn_off (length hdr - pn_off) bits)"

lemma length_body [simp]: "length (body hdr pn payload) = length payload + 16"
  by (simp add: body_def)

lemma hdr_parts:
  assumes "0 < pn_off" "pn_off \<le> length hdr"
  shows "hdr = hdr ! 0 # take (pn_off - 1) (tl hdr) @ drop pn_off hdr" "Suc (length (take (pn_off - 1) (tl hdr))) = pn_off"
proof -
  show "Suc (length (take (pn_off - 1) (tl hdr))) = pn_off" using assms by simp
  show "hdr = hdr ! 0 # take (pn_off - 1) (tl hdr) @ drop pn_off hdr"
    using assms by (cases hdr; cases pn_off) simp_all
qed

lemma sample_kept:
  assumes "pn_off \<le> length hdr" "length hdr \<le> pn_off + 4" "pn_off + 4 \<le> length hdr + length payload" "length h = length hdr"
  shows "hmask (drop (pn_off + 4) (h @ body hdr pn payload @ rest)) = hmask (drop (pn_off + 4) (hdr @ body hdr pn payload))"
proof -
  have "take 16 (drop (pn_off + 4) (h @ body hdr pn payload @ rest)) = take 16 (drop (pn_off + 4) (hdr @ body hdr pn payload))"
    using assms by simp
  then show ?thesis by (metis hmask_take)
qed

lemma wire_parts:
  fixes pn :: u64
  assumes "0 < pn_off" "pn_off \<le> length hdr" "length hdr \<le> pn_off + 4" "pn_off + 4 \<le> length hdr + length payload"
  defines "m \<equiv> hmask (drop (pn_off + 4) (hdr @ body hdr pn payload))"
  shows "wire bits hdr pn_off pn payload = (hdr ! 0 XOR (rd m 0 AND bits)) # take (pn_off - 1) (tl hdr)
      @ xor_bytes (drop pn_off hdr) (drop 1 m) @ body hdr pn payload"
    and "length (wire bits hdr pn_off pn payload) = length hdr + length payload + 16"
    and "hmask (drop (pn_off + 4) (wire bits hdr pn_off pn payload @ rest)) = m"
proof -
  note p = hdr_parts[OF assms(1,2)]
  have m: "length m = 5" by (simp add: m_def)
  have "wire bits hdr pn_off pn payload = quic_hp_apply m (hdr ! 0 # take (pn_off - 1) (tl hdr) @ drop pn_off hdr @ body hdr pn payload)
      (Suc (length (take (pn_off - 1) (tl hdr)))) (length (drop pn_off hdr)) bits"
    using p(2) arg_cong[OF p(1), of "\<lambda>h. h @ body hdr pn payload"] by (simp only: wire_def Let_def m_def length_drop append_Cons append_assoc)
  also have "\<dots> = (hdr ! 0 XOR (rd m 0 AND bits)) # take (pn_off - 1) (tl hdr) @ xor_bytes (drop pn_off hdr) (drop 1 m) @ body hdr pn payload"
    by (rule hp_apply_parts[OF m]) (use assms(3) in simp)
  finally show w: "wire bits hdr pn_off pn payload = \<dots>" .
  let ?h = "(hdr ! 0 XOR (rd m 0 AND bits)) # take (pn_off - 1) (tl hdr) @ xor_bytes (drop pn_off hdr) (drop 1 m)"
  have h: "length ?h = length hdr" using assms(1-3) m by simp
  then show "length (wire bits hdr pn_off pn payload) = length hdr + length payload + 16" unfolding w by simp
  show "hmask (drop (pn_off + 4) (wire bits hdr pn_off pn payload @ rest)) = m"
    using sample_kept[OF assms(2-4) h, of pn rest] unfolding w m_def by simp
qed

lemma wire_unmasked:
  fixes pn :: u64 and bits :: u8 and rest :: bytes
  assumes "0 < pn_off" "pn_off \<le> length hdr" "length hdr \<le> pn_off + 4" "pn_off + 4 \<le> length hdr + length payload"
  defines "pkt \<equiv> wire bits hdr pn_off pn payload @ rest"
  defines "m \<equiv> hmask (drop (pn_off + 4) pkt)"
  shows "rd (pkt[0 := rd pkt 0 XOR (rd m 0 AND bits)]) 0 = hdr ! 0"
    and "take pn_off (pkt[0 := rd pkt 0 XOR (rd m 0 AND bits)])
        @ quic_hp_protect_pn (drop pn_off (pkt[0 := rd pkt 0 XOR (rd m 0 AND bits)])) (length hdr - pn_off) m
      = hdr @ body hdr pn payload @ rest"
    and "rd pkt 0 = hdr ! 0 XOR (rd m 0 AND bits)"
proof -
  note p = hdr_parts[OF assms(1,2)]
  note w = wire_parts[OF assms(1-4), where pn = pn]
  have m: "m = hmask (drop (pn_off + 4) (hdr @ body hdr pn payload))" "length m = 5" using w(3) by (simp_all add: m_def pkt_def)
  let ?x = "xor_bytes (drop pn_off hdr) (drop 1 m)"
  have pkt: "pkt = (hdr ! 0 XOR (rd m 0 AND bits)) # take (pn_off - 1) (tl hdr) @ ?x @ body hdr pn payload @ rest"
    unfolding pkt_def w(1) m(1) by simp
  show r: "rd pkt 0 = hdr ! 0 XOR (rd m 0 AND bits)" by (simp add: pkt)
  have b: "pkt[0 := rd pkt 0 XOR (rd m 0 AND bits)] = hdr ! 0 # take (pn_off - 1) (tl hdr) @ ?x @ body hdr pn payload @ rest" (is "?p = _")
    unfolding r by (simp add: pkt xor.assoc)
  then show "rd ?p 0 = hdr ! 0" by simp
  have x: "length ?x = length hdr - pn_off" using assms(2,3) m(2) by simp
  have "take pn_off ?p = hdr ! 0 # take (pn_off - 1) (tl hdr)" "drop pn_off ?p = ?x @ body hdr pn payload @ rest"
    unfolding b using p(2) by (metis append_Cons append_eq_conv_conj length_Cons)+
  moreover have "quic_hp_protect_pn (?x @ body hdr pn payload @ rest) (length hdr - pn_off) m = xor_bytes ?x (drop 1 m) @ body hdr pn payload @ rest"
    using protect_pn_parts[OF m(2), of ?x] x assms(3) by simp
  moreover have "xor_bytes ?x (drop 1 m) = drop pn_off hdr" using assms(3) m(2) by (simp add: xor_bytes_twice)
  ultimately show "take pn_off ?p @ quic_hp_protect_pn (drop pn_off ?p) (length hdr - pn_off) m = hdr @ body hdr pn payload @ rest"
    using p(1) by (metis append_Cons append_assoc)
qed

end

interpretation aesp: packet_cipher
  "\<lambda>pn. gcm_crypt (quic_aes128_init (ik_key (keys :: quic_initial_keys))) (quic_protect_nonce (ik_iv keys) pn)"
  "\<lambda>pn. gcm_tag_of (quic_aes128_init (ik_key keys)) (quic_protect_nonce (ik_iv keys) pn)" "quic_hp_mask hp"
  by unfold_locales (simp_all add: hp_mask_take)

text \<open>The cipher that a suite selects.\<close>

definition suite_known :: "u16 \<Rightarrow> bool" where
  "suite_known suite \<longleftrightarrow> suite = QUIC_TLS_AES_128_GCM_SHA256 \<or> suite = QUIC_TLS_CHACHA20_POLY1305_SHA256"

definition suite_crypt :: "u16 \<Rightarrow> bytes \<Rightarrow> bytes \<Rightarrow> u64 \<Rightarrow> bytes \<Rightarrow> bytes" where
  "suite_crypt suite key iv pn x =
     (if suite = QUIC_TLS_AES_128_GCM_SHA256 then gcm_crypt (quic_aes128_init key) (suite_nonce iv pn) x
      else chapoly_crypt key (suite_nonce iv pn) x)"

definition suite_tag :: "u16 \<Rightarrow> bytes \<Rightarrow> bytes \<Rightarrow> u64 \<Rightarrow> bytes \<Rightarrow> bytes \<Rightarrow> bytes" where
  "suite_tag suite key iv pn aad x =
     (if suite = QUIC_TLS_AES_128_GCM_SHA256 then gcm_tag_of (quic_aes128_init key) (suite_nonce iv pn) aad x
      else chapoly_tag_of key (suite_nonce iv pn) aad x)"

definition suite_mask :: "u16 \<Rightarrow> bytes \<Rightarrow> bytes \<Rightarrow> bytes" where
  "suite_mask suite hp_key s =
     (if suite = QUIC_TLS_AES_128_GCM_SHA256 then quic_hp_mask (quic_aes128_init hp_key) s else quic_hp_chacha_mask hp_key s)"

interpretation suitep: packet_cipher "suite_crypt suite key iv" "suite_tag suite key iv" "suite_mask suite hp_key"
  by unfold_locales (simp_all add: suite_crypt_def suite_tag_def suite_mask_def hp_mask_take hp_chacha_mask_take)

lemma suites_distinct: "QUIC_TLS_CHACHA20_POLY1305_SHA256 \<noteq> QUIC_TLS_AES_128_GCM_SHA256"
  by (simp add: QUIC_TLS_AES_128_GCM_SHA256_def QUIC_TLS_CHACHA20_POLY1305_SHA256_def)

lemma hp_suite_mask_eq: "quic_hp_suite_mask suite hp_key s = (if suite_known suite then Some (suite_mask suite hp_key s) else None)"
  using suites_distinct by (auto simp: quic_hp_suite_mask_def suite_known_def suite_mask_def Let_def)

lemma aead_suite_seal_eq:
  assumes "aad_len \<le> length aad" "pt_len \<le> length pt" "pt_len + 16 \<le> length out" "pt_len + 16 < 2 ^ 64"
  shows "quic_aead_suite_seal suite key iv pn aad aad_len pt pt_len out =
    (if suite_known suite then (pt_len + 16, overwrite out 0 (suitep.body suite key iv (take aad_len aad) pn (take pt_len pt))) else (0, out))"
proof -
  have o: "overwrite (overwrite out 0 x) pt_len t = overwrite out 0 (x @ t)" if "length x = pt_len" for x t
    using overwrite_overwrite[of 0 x out t] that assms(3) by simp
  have l: "pt_len \<le> length out" using assms(3) by simp
  show ?thesis
    using suites_distinct assms(2,4) gcm.seal_eq[OF assms(1,2) l] chapoly.seal_eq[OF assms(1,2) l]
    by (auto simp: quic_aead_suite_seal_def gcm_seal_def cha_seal_def suite_known_def suitep.body_def suite_crypt_def suite_tag_def o
        usz_add_nowrap Let_def)
qed

lemma aead_suite_open_eq:
  assumes "aad_len \<le> length aad" "ct_len + 16 \<le> length ct" "ct_len \<le> length pt"
  shows "quic_aead_suite_open suite key iv pn aad aad_len ct ct_len pt =
    (if suite_known suite \<and> take 16 (drop ct_len ct) = suite_tag suite key iv pn (take aad_len aad) (take ct_len ct)
     then (ct_len, overwrite pt 0 (suite_crypt suite key iv pn (take ct_len ct))) else (0, pt))"
proof -
  have l: "ct_len \<le> length ct" "16 \<le> length (drop ct_len ct)" using assms(2) by simp_all
  show ?thesis
    using suites_distinct gcm.opn_eq[OF assms(1) l(1) assms(3) l(2)] chapoly.opn_eq[OF assms(1) l(1) assms(3) l(2)]
    by (auto simp: quic_aead_suite_open_def gcm_open_def cha_open_def suite_known_def suite_crypt_def suite_tag_def Let_def)
qed

section \<open>The suite-aware pipeline\<close>

lemma hp_apply_eq:
  assumes "pn_off \<le> length pkt"
  shows "quic_hp_apply msk pkt pn_off n bits =
    (let pkt = pkt[0 := rd pkt 0 XOR (rd msk 0 AND bits)] in take pn_off pkt @ quic_hp_protect_pn (drop pn_off pkt) n msk)"
  by (simp add: quic_hp_apply_def quic_hp_protect_pn_def Let_def overwrite_def rd_drop add.commute)

lemma pkt_parts:
  assumes "0 < pn_off" "pn_off + n \<le> length pkt"
  obtains b0 mid pnb body where "pkt = b0 # mid @ pnb @ body" "pn_off = Suc (length mid)" "length pnb = n"
proof
  show "pkt = hd pkt # take (pn_off - 1) (tl pkt) @ take n (drop pn_off pkt) @ drop (pn_off + n) pkt"
    using assms append_take_drop_id[of n "drop pn_off pkt"] by (cases pkt; cases pn_off) (simp_all add: add.commute)
  show "pn_off = Suc (length (take (pn_off - 1) (tl pkt)))" "length (take n (drop pn_off pkt)) = n" using assms by simp_all
qed

lemma hp_apply_facts:
  assumes "length msk = 5" "n \<le> 4" "0 < pn_off" "pn_off + n \<le> length pkt"
  shows "quic_hp_apply msk (quic_hp_apply msk pkt pn_off n bits) pn_off n bits = pkt"
    and "length (quic_hp_apply msk pkt pn_off n bits) = length pkt"
    and "pn_off + n \<le> k \<Longrightarrow> drop k (quic_hp_apply msk pkt pn_off n bits) = drop k pkt"
    and "rd (quic_hp_apply msk pkt pn_off n bits) 0 = rd pkt 0 XOR (rd msk 0 AND bits)"
proof -
  obtain b0 mid pnb body where p: "pkt = b0 # mid @ pnb @ body" "pn_off = Suc (length mid)" "length pnb = n"
    by (rule pkt_parts[OF assms(3,4)])
  have x: "length (xor_bytes pnb (drop 1 msk)) = n" using assms(1,2) p(3) by simp
  have a: "quic_hp_apply msk pkt pn_off n bits = (b0 XOR (rd msk 0 AND bits)) # mid @ xor_bytes pnb (drop 1 msk) @ body"
    using hp_apply_parts[OF assms(1), of pnb] assms(2) p by simp
  show "quic_hp_apply msk (quic_hp_apply msk pkt pn_off n bits) pn_off n bits = pkt"
    using hp_apply_parts[OF assms(1), of "xor_bytes pnb (drop 1 msk)"] assms(1,2) p x unfolding a by (simp add: xor.assoc xor_bytes_twice)
  show "length (quic_hp_apply msk pkt pn_off n bits) = length pkt" unfolding a unfolding p(1) using x p(3) by simp
  show "rd (quic_hp_apply msk pkt pn_off n bits) 0 = rd pkt 0 XOR (rd msk 0 AND bits)" unfolding a unfolding p(1) by simp
  show "drop k (quic_hp_apply msk pkt pn_off n bits) = drop k pkt" if "pn_off + n \<le> k"
    using that x p(2,3) unfolding a unfolding p(1) by (cases k) simp_all
qed

lemma form_mask_stable: "form_mask (b XOR (x AND form_mask b)) = form_mask b"
proof -
  have "(b XOR (x AND m)) AND 0x80 = b AND 0x80" if "m AND 0x80 = 0" for m :: u8
    using that by (simp add: bit.conj_xor_distrib2 and.assoc)
  moreover have "form_mask b AND 0x80 = 0" by (simp add: form_mask_def QUIC_HP_LONG_MASK_def QUIC_HP_SHORT_MASK_def)
  ultimately show ?thesis by (simp add: form_mask_def)
qed

lemma pcs_remove_hp_eq:
  fixes hp_key :: bytes and suite :: u16
  assumes "pn_off \<le> length pkt"
  defines "msk \<equiv> suite_mask suite hp_key (drop (pn_off + 4) pkt)"
  defines "n \<equiv> unat ((rd pkt 0 XOR (rd msk 0 AND form_mask (rd pkt 0))) AND 0x03) + 1"
  shows "pkt \<noteq> [] \<Longrightarrow> pcs_remove_hp suite hp_key pkt pn_off =
    (if suite_known suite then (n, quic_hp_apply msk pkt pn_off n (form_mask (rd pkt 0))) else (0, pkt))"
  using assms(1) by (simp add: pcs_remove_hp_def hp_suite_mask_eq hp_apply_eq n_def Let_def flip: msk_def)

lemma fold_be_val:
  "k + n \<le> length p \<Longrightarrow> fold (\<lambda>i v. push_bit 8 v OR ucast (rd p (k + i))) [0..<n] 0 = (of_nat (be_val (take n (drop k p))) :: u64)"
proof (induction n)
  case (Suc n)
  have "take (Suc n) (drop k p) = take n (drop k p) @ [p ! (k + n)]" using Suc.prems by (simp add: take_Suc_conv_app_nth)
  moreover have "(ucast b :: u64) = of_nat (unat b)" for b :: u8 by (rule bit_word_eqI) (simp add: bit_simps)
  ultimately show ?case using Suc by (simp add: load_step rd_def)
qed simp

context packet_cipher
begin

lemma wire_rest:
  assumes "0 < pn_off" "pn_off \<le> length hdr" "length hdr \<le> pn_off + 4" "pn_off + 4 \<le> length hdr + length payload"
  shows "quic_hp_apply (hmask (drop (pn_off + 4) (hdr @ body hdr pn payload @ rest))) (hdr @ body hdr pn payload @ rest)
      pn_off (length hdr - pn_off) bits = wire bits hdr pn_off pn payload @ rest"
proof -
  define m where "m = hmask (drop (pn_off + 4) (hdr @ body hdr pn payload))"
  have m: "length m = 5" "length (drop pn_off hdr) \<le> 4" using assms(3) by (simp_all add: m_def)
  note p = hdr_parts[OF assms(1,2)]
  have "hdr @ body hdr pn payload @ rest = hdr ! 0 # take (pn_off - 1) (tl hdr) @ drop pn_off hdr @ body hdr pn payload @ rest"
    using arg_cong[OF p(1), of "\<lambda>h. h @ body hdr pn payload @ rest"] by (simp only: append_Cons append_assoc)
  then have "quic_hp_apply m (hdr @ body hdr pn payload @ rest) pn_off (length hdr - pn_off) bits
      = (hdr ! 0 XOR (rd m 0 AND bits)) # take (pn_off - 1) (tl hdr) @ xor_bytes (drop pn_off hdr) (drop 1 m) @ body hdr pn payload @ rest"
    using hp_apply_parts[OF m, of "hdr ! 0" "take (pn_off - 1) (tl hdr)" "body hdr pn payload @ rest" bits] p(2) by (simp only: length_drop)
  then show ?thesis
    unfolding sample_kept[OF assms(2-4) refl] wire_parts(1)[OF assms] m_def[symmetric] by simp
qed

end

lemma overwrite_at: "overwrite (xs @ ys) (length xs) zs = xs @ overwrite ys 0 zs"
  by (simp add: overwrite_def)

lemma protectcs_seal_eq:
  fixes pn :: u64 and iv key :: bytes
  assumes "1 \<le> n" "n \<le> 4" "pn_off + n + plen + 16 \<le> length pkt" "length pkt < 2 ^ 64" and k: "suite_known suite"
  defines "h \<equiv> take (pn_off + n) pkt"
  defines "p \<equiv> overwrite pkt (pn_off + n) (suitep.body suite key iv h pn (take plen (drop (pn_off + n) pkt)))"
  shows "quic_protectcs_seal suite key iv hp_key pn pkt pn_off (of_nat n) plen =
    (Some (pn_off + n + plen + 16), quic_hp_apply (suite_mask suite hp_key (drop (pn_off + 4) p)) p pn_off n (form_mask (rd p 0)))"
proof -
  have u: "unat (of_nat n :: u8) = n" using assms(2) by (simp add: unat_of_nat)
  have s: "quic_aead_suite_seal suite key iv pn pkt (pn_off + n) (drop (pn_off + n) pkt) plen (drop (pn_off + n) pkt) =
      (plen + 16, overwrite (drop (pn_off + n) pkt) 0 (suitep.body suite key iv h pn (take plen (drop (pn_off + n) pkt))))"
    using aead_suite_seal_eq[of "pn_off + n" pkt plen "drop (pn_off + n) pkt" "drop (pn_off + n) pkt"] assms(3,4) k by (simp add: h_def)
  have "take (pn_off + n) pkt @ overwrite (drop (pn_off + n) pkt) 0 x = overwrite pkt (pn_off + n) x" for x
    using assms(3) by (simp add: overwrite_def add.commute)
  then show ?thesis using assms(3,4) k unfolding quic_protectcs_seal_def u
    by (simp add: s hp_suite_mask_eq Let_def p_def del: drop_append)
qed

lemma protectcs_open_eq:
  fixes iv key hp_key :: bytes and suite :: u16
  assumes "0 < pn_off" "pn_off + 20 \<le> len" "len \<le> length pkt" "len < 2 ^ 64" and k: "suite_known suite"
  defines "msk \<equiv> suite_mask suite hp_key (drop (pn_off + 4) pkt)"
  defines "n \<equiv> unat ((rd pkt 0 XOR (rd msk 0 AND form_mask (rd pkt 0))) AND 0x03) + 1"
  defines "p \<equiv> quic_hp_apply msk pkt pn_off n (form_mask (rd pkt 0))"
  defines "c \<equiv> len - (pn_off + n) - 16"
  defines "ct \<equiv> take c (drop (pn_off + n) p)" and "h \<equiv> take (pn_off + n) p" and "pn \<equiv> pcs_read_pn p pn_off n"
  shows "quic_protectcs_open suite key iv hp_key pkt len pn_off =
    (if take 16 (drop (pn_off + n + c) p) = suite_tag suite key iv pn h ct \<and> c \<noteq> 0
     then (Some (suite_crypt suite key iv pn ct, c), overwrite p (pn_off + n) (suite_crypt suite key iv pn ct))
     else (None, p))"
    and "1 \<le> n" "n \<le> 4" "length p = length pkt" "pn_off + n + c + 16 = len"
proof -
  have "unat (x AND 0x03 :: u8) \<le> 3" for x
  proof -
    have "x AND 0x03 = take_bit 2 x" by (simp add: take_bit_eq_mask mask_eq_exp_minus_1)
    then show ?thesis using take_bit_nat_less_exp[of 2 "unat x"] by (simp add: unsigned_take_bit_eq)
  qed
  then show n: "1 \<le> n" "n \<le> 4" by (simp_all add: n_def)
  have m: "length msk = 5" by (simp add: msk_def)
  show l: "length p = length pkt" unfolding p_def using hp_apply_facts(2)[OF m n(2) assms(1)] n assms(2,3) by simp
  show c: "pn_off + n + c + 16 = len" using n assms(2) by (simp add: c_def)
  have "pn_off \<le> length pkt" "pkt \<noteq> []" using assms(2,3) by auto
  from pcs_remove_hp_eq[OF this] have r: "pcs_remove_hp suite hp_key pkt pn_off = (n, p)"
    using k by (simp only: n_def p_def msk_def if_True)
  have o: "quic_aead_suite_open suite key iv pn p (pn_off + n) (drop (pn_off + n) p) c (drop (pn_off + n) p) =
     (if take 16 (drop (pn_off + n + c) p) = suite_tag suite key iv pn h ct then (c, overwrite (drop (pn_off + n) p) 0 (suite_crypt suite key iv pn ct))
      else (0, drop (pn_off + n) p))"
    using aead_suite_open_eq[of "pn_off + n" p c "drop (pn_off + n) p" "drop (pn_off + n) p" suite key iv pn] c l assms(3) k
    by (simp add: h_def ct_def add.commute)
  have s: "usz_sub (usz_sub len (pn_off + n)) 16 = c" "usz_add pn_off n = pn_off + n" using n assms(2,4) by (simp_all add: c_def)
  have w: "take (pn_off + n) p @ overwrite (drop (pn_off + n) p) 0 x = overwrite p (pn_off + n) x" for x
    using c l assms(3) by (simp add: overwrite_def add.commute)
  have y: "length (suite_crypt suite key iv pn ct) = c" using c l assms(3) by (simp add: ct_def)
  then have z: "overwrite p (pn_off + n) (suite_crypt suite key iv pn ct) = p" if "c = 0" using that by (metis overwrite_Nil length_0_conv)
  from y have t: "take c (drop (pn_off + n) (overwrite p (pn_off + n) (suite_crypt suite key iv pn ct))) = suite_crypt suite key iv pn ct"
    using c l assms(3) by (simp add: overwrite_def)
  show "quic_protectcs_open suite key iv hp_key pkt len pn_off =
    (if take 16 (drop (pn_off + n + c) p) = suite_tag suite key iv pn h ct \<and> c \<noteq> 0
     then (Some (suite_crypt suite key iv pn ct, c), overwrite p (pn_off + n) (suite_crypt suite key iv pn ct))
     else (None, p))"
    using n(1) t z by (simp add: quic_protectcs_open_def r s o w Let_def del: drop_append flip: pn_def)
qed



lemma overwrite_twice:
  "length xs \<le> length ys \<Longrightarrow> a + length ys \<le> length p \<Longrightarrow> overwrite (overwrite p a xs) a ys = overwrite p a ys"
  by (simp add: overwrite_def add.commute)

lemma overwrite_same: "a + m \<le> length p \<Longrightarrow> overwrite p a (take m (drop a p)) = p"
  using append_take_drop_id[of m "drop a p"] by (simp add: overwrite_def add.commute)



section \<open>Nonces\<close>

lemma protect_nonce_xor:
  "quic_protect_nonce iv pn = xor_bytes (map (rd iv) [0..<12]) (replicate 4 0 @ be_bytes 8 (unat pn))"
proof -
  have u8: "[0..<8] = [0, 1, 2, 3, 4, 5, 6, 7 :: nat]" and u12: "[0..<12] = [0, 1, 2, 3, 4, 5, 6, 7, 8, 9, 10, 11 :: nat]"
    by (simp_all add: upt_rec)
  have r: "replicate 4 (0 :: u8) = [0, 0, 0, 0]" by (simp add: eval_nat_numeral)
  have "be_bytes 8 (unat pn) = map (\<lambda>i. ucast (drop_bit ((8 - 1 - i) * 8) pn)) [0..<8]" by (rule pn_bytes_eq[symmetric])
  then show ?thesis by (simp add: quic_protect_nonce_def xor_bytes_def u8 u12 r)
qed

lemma suite_nonce_eq: "suite_nonce iv pn = quic_protect_nonce iv pn"
  by (simp add: suite_nonce_def quic_protect_nonce_def)

lemma length_protect_nonce [simp]: "length (quic_protect_nonce iv pn) = 12"
  by (simp add: protect_nonce_xor)

lemma xor_bytes_left_inj:
  assumes "length xs = length ys" "length ys = length zs" "xor_bytes xs ys = xor_bytes xs zs"
  shows "ys = zs"
proof (rule nth_equalityI)
  fix i assume "i < length ys"
  then have "xs ! i XOR ys ! i = xs ! i XOR zs ! i"
    using arg_cong[OF assms(3), of "\<lambda>l. l ! i"] assms(1,2) by (simp add: xor_bytes_def)
  then show "ys ! i = zs ! i" by (metis xor.assoc xor.left_neutral xor_self_eq)
qed (rule assms(2))

lemma protect_nonce_inj: "quic_protect_nonce iv pn = quic_protect_nonce iv pn' \<longleftrightarrow> pn = pn'"
proof
  assume "quic_protect_nonce iv pn = quic_protect_nonce iv pn'"
  then have "replicate 4 0 @ be_bytes 8 (unat pn) = replicate 4 (0 :: u8) @ be_bytes 8 (unat pn')"
    unfolding protect_nonce_xor by (rule xor_bytes_left_inj[rotated 2]) simp_all
  then have "be_val (be_bytes 8 (unat pn)) = be_val (be_bytes 8 (unat pn'))" by (simp only: same_append_eq)
  then have "unat pn = unat pn'"
    using unsigned_less[of pn, where ?'a = nat] unsigned_less[of pn', where ?'a = nat] by (simp add: be_val_be_bytes)
  then show "pn = pn'" by (simp add: word_unat_eq_iff)
qed simp

section \<open>The AES pipeline\<close>

lemma protect_seal_eq:
  assumes "0 < pn_off" "pn_off \<le> length hdr" "length hdr \<le> pn_off + 4" "pn_off + 4 \<le> length hdr + length payload"
    and "cap \<le> length out" "length hdr + length payload + 16 < 2 ^ 64"
  shows "quic_protect_seal keys hp hdr (length hdr) pn_off (length hdr - pn_off) pn payload (length payload) out cap =
    (if length hdr + length payload + 16 > cap then (0, out)
     else (length hdr + length payload + 16, overwrite out 0 (aesp.wire keys hp QUIC_HP_LONG_MASK hdr pn_off pn payload)))"
proof (cases "length hdr + length payload + 16 > cap")
  case False
  let ?b = "aesp.body keys hdr pn payload" and ?n = "length hdr + length payload + 16"
  let ?a = "quic_aes128_init (ik_key keys)" and ?nc = "quic_protect_nonce (ik_iv keys) pn"
  have o: "drop (length hdr) (overwrite out 0 hdr) = drop (length hdr) out" "take (length hdr) (overwrite out 0 hdr) = hdr" by (simp_all add: overwrite_0)
  have s: "quic_gcm_seal ?a ?nc hdr (length hdr) payload (length payload) (drop (length hdr) out)
      = (overwrite (drop (length hdr) out) 0 (gcm_crypt ?a ?nc payload), gcm_tag_of ?a ?nc hdr (gcm_crypt ?a ?nc payload))"
    using gcm.seal_eq[of "length hdr" hdr "length payload" payload "drop (length hdr) out" ?a ?nc] False assms(5) by simp
  have w: "seal_into keys hdr (length hdr) pn payload (length payload) out cap = (?n, hdr @ ?b @ drop ?n out)"
    using False assms(5,6)
    by (simp add: seal_into_def o s Let_def aesp.body_def) (simp add: overwrite_def add.commute add.left_commute)
  then show ?thesis
    using False aesp.wire_rest[OF assms(1-4), where keys = keys and hp = hp and pn = pn and bits = QUIC_HP_LONG_MASK and rest = "drop ?n out"]
      aesp.wire_parts(2)[OF assms(1-4), where keys = keys and hp = hp and pn = pn and bits = QUIC_HP_LONG_MASK]
    by (simp add: quic_protect_seal_def protect_header_def overwrite_0 del: drop_append)
qed (use assms(6) in \<open>simp add: quic_protect_seal_def seal_into_def\<close>)

context packet_cipher
begin

lemma wire_undone:
  fixes pn :: u64 and bits :: u8 and rest :: bytes
  assumes "0 < pn_off" "pn_off \<le> length hdr" "length hdr \<le> pn_off + 4" "pn_off + 4 \<le> length hdr + length payload"
  defines "pkt \<equiv> wire bits hdr pn_off pn payload @ rest"
  shows "quic_hp_apply (hmask (drop (pn_off + 4) pkt)) pkt pn_off (length hdr - pn_off) bits = hdr @ body hdr pn payload @ rest"
  using wire_unmasked(2)[OF assms(1-4), of bits pn rest] hp_apply_eq[of pn_off pkt] wire_parts(2)[OF assms(1-4), of bits pn] assms(2)
  by (simp add: pkt_def Let_def)

end

lemma aes_open_body:
  fixes hdr payload rest :: bytes and keys :: quic_initial_keys and pn :: u64
  defines "tag \<equiv> gcm_tag_of (quic_aes128_init (ik_key keys)) (quic_protect_nonce (ik_iv keys) pn) hdr
      (gcm_crypt (quic_aes128_init (ik_key keys)) (quic_protect_nonce (ik_iv keys) pn) payload)"
  defines "p \<equiv> hdr @ aesp.body keys hdr pn payload @ rest"
  shows "quic_gcm_open (quic_aes128_init (ik_key keys)) (quic_protect_nonce (ik_iv keys) pn) p (length hdr) (drop (length hdr) p) (length payload)
      (drop (length hdr + length payload) p) (drop (length hdr) p) = (True, payload @ tag @ rest)" "length tag = 16"
proof -
  show t: "length tag = 16" by (simp add: tag_def)
  have p: "p = hdr @ gcm_crypt (quic_aes128_init (ik_key keys)) (quic_protect_nonce (ik_iv keys) pn) payload @ tag @ rest"
    by (simp add: p_def aesp.body_def tag_def)
  show "quic_gcm_open (quic_aes128_init (ik_key keys)) (quic_protect_nonce (ik_iv keys) pn) p (length hdr) (drop (length hdr) p) (length payload)
      (drop (length hdr + length payload) p) (drop (length hdr) p) = (True, payload @ tag @ rest)"
    using t by (subst gcm.opn_eq) (simp_all add: p overwrite_0 tag_def)
qed

lemma protect_open_eq:
  assumes "0 < pn_off" "pn_off \<le> length hdr" "length hdr \<le> pn_off + 4" "pn_off + 4 \<le> length hdr + length payload"
    and "length hdr + length payload + 16 < 2 ^ 64"
  shows "\<exists>tag. quic_protect_open keys hp (aesp.wire keys hp QUIC_HP_LONG_MASK hdr pn_off pn payload @ rest) (length hdr + length payload + 16) (length hdr) pn_off
      (length hdr - pn_off) pn = (length payload, hdr @ payload @ tag @ rest) \<and> length tag = 16"
  using aesp.wire_undone[OF assms(1-4), where keys = keys and hp = hp and pn = pn and bits = QUIC_HP_LONG_MASK and rest = rest]
    aes_open_body(1)[where keys = keys and hdr = hdr and payload = payload and pn = pn and rest = rest] assms(5)
  by (simp add: quic_protect_open_def protect_header_def Let_def)

end
