(* ===== verification/Hash.thy ===== *)
theory Hash
  imports Varint "HOL-Library.While_Combinator"
begin

text \<open>
  The hash functions of \<^verbatim>\<open>src/crypto/symmetric/hash/hash/\<close>: SHA-256 (sha256.c), SHA-512
  (sha512.c), SHA-384 (sha384.c), HMAC (hmac.c), and HKDF (\<^verbatim>\<open>src/crypto/kdf/hkdf/hkdf.c\<close>).
  The two contexts have the same fields over words of 32 and of 64 bits, so one
  polymorphic record models both. The padding loop runs until the pending
  buffer has a given length; it is a \<^const>\<open>while\<close>, and it is shown to end.

  The lemmas show that the streaming interface computes the hash function of FIPS 180-4 of the
  concatenation of everything absorbed, however it was cut into pieces, and that the constant tables are
  the roots of the first primes, as the standard prescribes.
\<close>

section \<open>The context and the shared macros\<close>

record 'w sha_ctx =
  sc_h :: "'w list"
  sc_total :: u64
  sc_buf :: bytes
  sc_buf_len :: usz

type_synonym quic_sha256_ctx = "u32 sha_ctx"
type_synonym quic_sha512_ctx = "u64 sha_ctx"

text \<open>A context declared as a local variable has unspecified content; it is taken as zero, and the theorems
  hold for any content.\<close>

definition sha_local :: "nat \<Rightarrow> 'w :: zero sha_ctx" where
  "sha_local n = \<lparr>sc_h = replicate 8 0, sc_total = 0, sc_buf = replicate n 0, sc_buf_len = 0\<rparr>"

definition sha_CH :: "'a :: len word \<Rightarrow> 'a word \<Rightarrow> 'a word \<Rightarrow> 'a word" where
  "sha_CH x y z = (x AND y) XOR (NOT x AND z)"

definition sha_MAJ :: "'a :: len word \<Rightarrow> 'a word \<Rightarrow> 'a word \<Rightarrow> 'a word" where
  "sha_MAJ x y z = (x AND y) XOR (x AND z) XOR (y AND z)"

section \<open>sha256.c\<close>

definition sha256_K :: "u32 list" where
  "sha256_K = concat
   [[0x428a2f98, 0x71374491, 0xb5c0fbcf, 0xe9b5dba5, 0x3956c25b, 0x59f111f1],
    [0x923f82a4, 0xab1c5ed5, 0xd807aa98, 0x12835b01, 0x243185be, 0x550c7dc3],
    [0x72be5d74, 0x80deb1fe, 0x9bdc06a7, 0xc19bf174, 0xe49b69c1, 0xefbe4786],
    [0x0fc19dc6, 0x240ca1cc, 0x2de92c6f, 0x4a7484aa, 0x5cb0a9dc, 0x76f988da],
    [0x983e5152, 0xa831c66d, 0xb00327c8, 0xbf597fc7, 0xc6e00bf3, 0xd5a79147],
    [0x06ca6351, 0x14292967, 0x27b70a85, 0x2e1b2138, 0x4d2c6dfc, 0x53380d13],
    [0x650a7354, 0x766a0abb, 0x81c2c92e, 0x92722c85, 0xa2bfe8a1, 0xa81a664b],
    [0xc24b8b70, 0xc76c51a3, 0xd192e819, 0xd6990624, 0xf40e3585, 0x106aa070],
    [0x19a4c116, 0x1e376c08, 0x2748774c, 0x34b0bcb5, 0x391c0cb3, 0x4ed8aa4a],
    [0x5b9cca4f, 0x682e6ff3, 0x748f82ee, 0x78a5636f, 0x84c87814, 0x8cc70208],
    [0x90befffa, 0xa4506ceb, 0xbef9a3f7, 0xc67178f2]]"

definition sha256_H0 :: "u32 list" where
  "sha256_H0 =
   [0x6a09e667, 0xbb67ae85, 0x3c6ef372, 0xa54ff53a, 0x510e527f, 0x9b05688c, 0x1f83d9ab, 0x5be0cd19]"

definition sha256_ROR :: "u32 \<Rightarrow> nat \<Rightarrow> u32" where
  "sha256_ROR x n = drop_bit n x OR push_bit (32 - n) x"

definition sha256_BS0 :: "u32 \<Rightarrow> u32" where
  "sha256_BS0 x = sha256_ROR x 2 XOR sha256_ROR x 13 XOR sha256_ROR x 22"

definition sha256_BS1 :: "u32 \<Rightarrow> u32" where
  "sha256_BS1 x = sha256_ROR x 6 XOR sha256_ROR x 11 XOR sha256_ROR x 25"

definition sha256_SS0 :: "u32 \<Rightarrow> u32" where
  "sha256_SS0 x = sha256_ROR x 7 XOR sha256_ROR x 18 XOR drop_bit 3 x"

definition sha256_SS1 :: "u32 \<Rightarrow> u32" where
  "sha256_SS1 x = sha256_ROR x 17 XOR sha256_ROR x 19 XOR drop_bit 10 x"

definition quic_sha256_init :: "quic_sha256_ctx \<Rightarrow> quic_sha256_ctx" where
  "quic_sha256_init s = s\<lparr>sc_h := sha256_H0, sc_total := 0, sc_buf_len := 0\<rparr>"

definition sha256_schedule :: "bytes \<Rightarrow> u32 list" where
  "sha256_schedule p =
     fold (\<lambda>i w. w @ [sha256_SS1 (w ! (i - 2)) + w ! (i - 7) + sha256_SS0 (w ! (i - 15)) + w ! (i - 16)]) [16..<64]
       (map (\<lambda>i. push_bit 24 (ucast (rd p (i * 4))) OR push_bit 16 (ucast (rd p (i * 4 + 1)))
                 OR push_bit 8 (ucast (rd p (i * 4 + 2))) OR ucast (rd p (i * 4 + 3))) [0..<16])"

definition sha256_round_step :: "u32 list \<Rightarrow> u32 \<Rightarrow> u32 list" where
  "sha256_round_step v kw =
     (let t1 = v ! 7 + sha256_BS1 (v ! 4) + sha_CH (v ! 4) (v ! 5) (v ! 6) + kw;
          t2 = sha256_BS0 (v ! 0) + sha_MAJ (v ! 0) (v ! 1) (v ! 2);
          v = v ! 0 # take 7 v;
          v = v[4 := v ! 4 + t1]
      in v[0 := t1 + t2])"

definition sha256_run_rounds :: "u32 list \<Rightarrow> u32 list \<Rightarrow> u32 list" where
  "sha256_run_rounds h w = foldl (\<lambda>v i. sha256_round_step v (sha256_K ! i + w ! i)) (take 8 h) [0..<64]"

definition sha256_compress :: "quic_sha256_ctx \<Rightarrow> bytes \<Rightarrow> quic_sha256_ctx" where
  "sha256_compress s p =
     (let v = sha256_run_rounds (sc_h s) (sha256_schedule p)
      in s\<lparr>sc_h := map (\<lambda>i. sc_h s ! i + v ! i) [0..<8]\<rparr>)"

function sha256_absorb_loop :: "quic_sha256_ctx \<Rightarrow> bytes \<Rightarrow> usz \<Rightarrow> usz \<Rightarrow> quic_sha256_ctx \<times> usz" where
  "sha256_absorb_loop s data len off =
     (if len - off \<ge> 64 then sha256_absorb_loop (sha256_compress s (drop off data)) data len (off + 64) else (s, off))"
  by pat_completeness auto
termination by (relation "measure (\<lambda>(s, data, len, off). len - off)") auto

definition sha256_absorb_blocks :: "quic_sha256_ctx \<Rightarrow> bytes \<Rightarrow> usz \<Rightarrow> quic_sha256_ctx \<times> usz" where
  "sha256_absorb_blocks s data len = sha256_absorb_loop s data len 0"

definition sha256_buffer :: "quic_sha256_ctx \<Rightarrow> bytes \<Rightarrow> usz \<Rightarrow> quic_sha256_ctx" where
  "sha256_buffer s data n =
     s\<lparr>sc_buf := overwrite (sc_buf s) (sc_buf_len s) (take n data), sc_buf_len := sc_buf_len s + n\<rparr>"

definition sha256_pending_take :: "quic_sha256_ctx \<Rightarrow> usz \<Rightarrow> usz" where
  "sha256_pending_take s len =
     (let want = usz_sub 64 (sc_buf_len s) in if sc_buf_len s \<noteq> 0 \<and> len \<ge> want then want else 0)"

definition sha256_fill_pending :: "quic_sha256_ctx \<Rightarrow> bytes \<Rightarrow> usz \<Rightarrow> quic_sha256_ctx \<times> usz" where
  "sha256_fill_pending s data len =
     (let tk = sha256_pending_take s len;
          s = sha256_buffer s data tk
      in (if tk \<noteq> 0 then (sha256_compress s (sc_buf s))\<lparr>sc_buf_len := 0\<rparr> else s, tk))"

definition quic_sha256_update :: "quic_sha256_ctx \<Rightarrow> bytes \<Rightarrow> usz \<Rightarrow> quic_sha256_ctx" where
  "quic_sha256_update s data len =
     (let (s, off) = sha256_fill_pending s data len;
          (s, n) = sha256_absorb_blocks s (drop off data) (len - off);
          off = off + n;
          s = sha256_buffer s (drop off data) (len - off)
      in s\<lparr>sc_total := sc_total s + of_nat len\<rparr>)"

definition sha256_put_be32 :: "u32 \<Rightarrow> bytes" where
  "sha256_put_be32 v = [ucast (drop_bit 24 v), ucast (drop_bit 16 v), ucast (drop_bit 8 v), ucast v]"

definition sha256_pad_message :: "quic_sha256_ctx \<Rightarrow> quic_sha256_ctx" where
  "sha256_pad_message s =
     while (\<lambda>s. sc_buf_len s \<noteq> 56) (\<lambda>s. quic_sha256_update s [0] 1) (quic_sha256_update s [0x80] 1)"

definition quic_sha256_final :: "quic_sha256_ctx \<Rightarrow> bytes \<times> quic_sha256_ctx" where
  "quic_sha256_final s =
     (let bits = sc_total s * 8;
          lenbe = map (\<lambda>i. ucast (drop_bit (56 - i * 8) bits)) [0..<8];
          s = quic_sha256_update (sha256_pad_message s) lenbe 8
      in (concat (map (\<lambda>i. sha256_put_be32 (sc_h s ! i)) [0..<8]), s))"

definition quic_sha256 :: "bytes \<Rightarrow> usz \<Rightarrow> bytes" where
  "quic_sha256 data len = fst (quic_sha256_final (quic_sha256_update (quic_sha256_init (sha_local 64)) data len))"

section \<open>sha512.c\<close>

definition sha512_K :: "u64 list" where
  "sha512_K = concat
   [[0x428a2f98d728ae22, 0x7137449123ef65cd, 0xb5c0fbcfec4d3b2f],
    [0xe9b5dba58189dbbc, 0x3956c25bf348b538, 0x59f111f1b605d019],
    [0x923f82a4af194f9b, 0xab1c5ed5da6d8118, 0xd807aa98a3030242],
    [0x12835b0145706fbe, 0x243185be4ee4b28c, 0x550c7dc3d5ffb4e2],
    [0x72be5d74f27b896f, 0x80deb1fe3b1696b1, 0x9bdc06a725c71235],
    [0xc19bf174cf692694, 0xe49b69c19ef14ad2, 0xefbe4786384f25e3],
    [0x0fc19dc68b8cd5b5, 0x240ca1cc77ac9c65, 0x2de92c6f592b0275],
    [0x4a7484aa6ea6e483, 0x5cb0a9dcbd41fbd4, 0x76f988da831153b5],
    [0x983e5152ee66dfab, 0xa831c66d2db43210, 0xb00327c898fb213f],
    [0xbf597fc7beef0ee4, 0xc6e00bf33da88fc2, 0xd5a79147930aa725],
    [0x06ca6351e003826f, 0x142929670a0e6e70, 0x27b70a8546d22ffc],
    [0x2e1b21385c26c926, 0x4d2c6dfc5ac42aed, 0x53380d139d95b3df],
    [0x650a73548baf63de, 0x766a0abb3c77b2a8, 0x81c2c92e47edaee6],
    [0x92722c851482353b, 0xa2bfe8a14cf10364, 0xa81a664bbc423001],
    [0xc24b8b70d0f89791, 0xc76c51a30654be30, 0xd192e819d6ef5218],
    [0xd69906245565a910, 0xf40e35855771202a, 0x106aa07032bbd1b8],
    [0x19a4c116b8d2d0c8, 0x1e376c085141ab53, 0x2748774cdf8eeb99],
    [0x34b0bcb5e19b48a8, 0x391c0cb3c5c95a63, 0x4ed8aa4ae3418acb],
    [0x5b9cca4f7763e373, 0x682e6ff3d6b2b8a3, 0x748f82ee5defb2fc],
    [0x78a5636f43172f60, 0x84c87814a1f0ab72, 0x8cc702081a6439ec],
    [0x90befffa23631e28, 0xa4506cebde82bde9, 0xbef9a3f7b2c67915],
    [0xc67178f2e372532b, 0xca273eceea26619c, 0xd186b8c721c0c207],
    [0xeada7dd6cde0eb1e, 0xf57d4f7fee6ed178, 0x06f067aa72176fba],
    [0x0a637dc5a2c898a6, 0x113f9804bef90dae, 0x1b710b35131c471b],
    [0x28db77f523047d84, 0x32caab7b40c72493, 0x3c9ebe0a15c9bebc],
    [0x431d67c49c100d4c, 0x4cc5d4becb3e42b6, 0x597f299cfc657e2a],
    [0x5fcb6fab3ad6faec, 0x6c44198c4a475817]]"

definition sha512_H0 :: "u64 list" where
  "sha512_H0 =
   [0x6a09e667f3bcc908, 0xbb67ae8584caa73b, 0x3c6ef372fe94f82b, 0xa54ff53a5f1d36f1,
    0x510e527fade682d1, 0x9b05688c2b3e6c1f, 0x1f83d9abfb41bd6b, 0x5be0cd19137e2179]"

definition sha512_ROR :: "u64 \<Rightarrow> nat \<Rightarrow> u64" where
  "sha512_ROR x n = drop_bit n x OR push_bit (64 - n) x"

definition sha512_BS0 :: "u64 \<Rightarrow> u64" where
  "sha512_BS0 x = sha512_ROR x 28 XOR sha512_ROR x 34 XOR sha512_ROR x 39"

definition sha512_BS1 :: "u64 \<Rightarrow> u64" where
  "sha512_BS1 x = sha512_ROR x 14 XOR sha512_ROR x 18 XOR sha512_ROR x 41"

definition sha512_SS0 :: "u64 \<Rightarrow> u64" where
  "sha512_SS0 x = sha512_ROR x 1 XOR sha512_ROR x 8 XOR drop_bit 7 x"

definition sha512_SS1 :: "u64 \<Rightarrow> u64" where
  "sha512_SS1 x = sha512_ROR x 19 XOR sha512_ROR x 61 XOR drop_bit 6 x"

definition quic_sha512_init :: "quic_sha512_ctx \<Rightarrow> quic_sha512_ctx" where
  "quic_sha512_init s = s\<lparr>sc_h := sha512_H0, sc_total := 0, sc_buf_len := 0\<rparr>"

definition load_be64 :: "bytes \<Rightarrow> usz \<Rightarrow> u64" where
  "load_be64 p j = foldl (\<lambda>v i. push_bit 8 v OR ucast (rd p (j + i))) 0 [0..<8]"

definition sha512_schedule :: "bytes \<Rightarrow> u64 list" where
  "sha512_schedule p =
     fold (\<lambda>i w. w @ [sha512_SS1 (w ! (i - 2)) + w ! (i - 7) + sha512_SS0 (w ! (i - 15)) + w ! (i - 16)]) [16..<80]
       (map (\<lambda>i. load_be64 p (i * 8)) [0..<16])"

definition sha512_round_step :: "u64 list \<Rightarrow> u64 \<Rightarrow> u64 list" where
  "sha512_round_step v kw =
     (let t1 = v ! 7 + sha512_BS1 (v ! 4) + sha_CH (v ! 4) (v ! 5) (v ! 6) + kw;
          t2 = sha512_BS0 (v ! 0) + sha_MAJ (v ! 0) (v ! 1) (v ! 2);
          v = v ! 0 # take 7 v;
          v = v[4 := v ! 4 + t1]
      in v[0 := t1 + t2])"

definition sha512_run_rounds :: "u64 list \<Rightarrow> u64 list \<Rightarrow> u64 list" where
  "sha512_run_rounds h w = foldl (\<lambda>v i. sha512_round_step v (sha512_K ! i + w ! i)) (take 8 h) [0..<80]"

definition sha512_compress :: "quic_sha512_ctx \<Rightarrow> bytes \<Rightarrow> quic_sha512_ctx" where
  "sha512_compress s p =
     (let v = sha512_run_rounds (sc_h s) (sha512_schedule p)
      in s\<lparr>sc_h := map (\<lambda>i. sc_h s ! i + v ! i) [0..<8]\<rparr>)"

function sha512_absorb_loop :: "quic_sha512_ctx \<Rightarrow> bytes \<Rightarrow> usz \<Rightarrow> usz \<Rightarrow> quic_sha512_ctx \<times> usz" where
  "sha512_absorb_loop s data len off =
     (if len - off \<ge> 128 then sha512_absorb_loop (sha512_compress s (drop off data)) data len (off + 128) else (s, off))"
  by pat_completeness auto
termination by (relation "measure (\<lambda>(s, data, len, off). len - off)") auto

definition sha512_absorb_blocks :: "quic_sha512_ctx \<Rightarrow> bytes \<Rightarrow> usz \<Rightarrow> quic_sha512_ctx \<times> usz" where
  "sha512_absorb_blocks s data len = sha512_absorb_loop s data len 0"

definition sha512_buffer :: "quic_sha512_ctx \<Rightarrow> bytes \<Rightarrow> usz \<Rightarrow> quic_sha512_ctx" where
  "sha512_buffer s data n =
     s\<lparr>sc_buf := overwrite (sc_buf s) (sc_buf_len s) (take n data), sc_buf_len := sc_buf_len s + n\<rparr>"

definition sha512_pending_take :: "quic_sha512_ctx \<Rightarrow> usz \<Rightarrow> usz" where
  "sha512_pending_take s len =
     (let want = usz_sub 128 (sc_buf_len s) in if sc_buf_len s \<noteq> 0 \<and> len \<ge> want then want else 0)"

definition sha512_fill_pending :: "quic_sha512_ctx \<Rightarrow> bytes \<Rightarrow> usz \<Rightarrow> quic_sha512_ctx \<times> usz" where
  "sha512_fill_pending s data len =
     (let tk = sha512_pending_take s len;
          s = sha512_buffer s data tk
      in (if tk \<noteq> 0 then (sha512_compress s (sc_buf s))\<lparr>sc_buf_len := 0\<rparr> else s, tk))"

definition quic_sha512_update :: "quic_sha512_ctx \<Rightarrow> bytes \<Rightarrow> usz \<Rightarrow> quic_sha512_ctx" where
  "quic_sha512_update s data len =
     (let (s, off) = sha512_fill_pending s data len;
          (s, n) = sha512_absorb_blocks s (drop off data) (len - off);
          off = off + n;
          s = sha512_buffer s (drop off data) (len - off)
      in s\<lparr>sc_total := sc_total s + of_nat len\<rparr>)"

definition sha512_pad_message :: "quic_sha512_ctx \<Rightarrow> quic_sha512_ctx" where
  "sha512_pad_message s =
     while (\<lambda>s. sc_buf_len s \<noteq> 112) (\<lambda>s. quic_sha512_update s [0] 1) (quic_sha512_update s [0x80] 1)"

definition sha512_put_len :: "u64 \<Rightarrow> bytes" where
  "sha512_put_len bits = replicate 8 0 @ map (\<lambda>i. ucast (drop_bit (56 - i * 8) bits)) [0..<8]"

definition sha512_put_be64 :: "u64 \<Rightarrow> bytes" where
  "sha512_put_be64 v = map (\<lambda>j. ucast (drop_bit (56 - j * 8) v)) [0..<8]"

definition quic_sha512_final :: "quic_sha512_ctx \<Rightarrow> bytes \<times> quic_sha512_ctx" where
  "quic_sha512_final s =
     (let lenbe = sha512_put_len (sc_total s * 8);
          s = quic_sha512_update (sha512_pad_message s) lenbe 16
      in (concat (map (\<lambda>i. sha512_put_be64 (sc_h s ! i)) [0..<8]), s))"

definition quic_sha512 :: "bytes \<Rightarrow> usz \<Rightarrow> bytes" where
  "quic_sha512 data len = fst (quic_sha512_final (quic_sha512_update (quic_sha512_init (sha_local 128)) data len))"

section \<open>sha384.c\<close>

definition sha384_h0 :: "u64 list" where
  "sha384_h0 =
   [0xcbbb9d5dc1059ed8, 0x629a292a367cd507, 0x9159015a3070dd17, 0x152fecd8f70e5939,
    0x67332667ffc00b31, 0x8eb44a8768581511, 0xdb0c2e0d64f98fa7, 0x47b5481dbefa4fa4]"

definition quic_sha384_init :: "quic_sha512_ctx \<Rightarrow> quic_sha512_ctx" where
  "quic_sha384_init s = (quic_sha512_init s)\<lparr>sc_h := sha384_h0\<rparr>"

definition quic_sha384_final :: "quic_sha512_ctx \<Rightarrow> bytes \<times> quic_sha512_ctx" where
  "quic_sha384_final s = (case quic_sha512_final s of (full, s) \<Rightarrow> (take 48 full, s))"

definition quic_sha384 :: "bytes \<Rightarrow> usz \<Rightarrow> bytes" where
  "quic_sha384 data len = fst (quic_sha384_final (quic_sha512_update (quic_sha384_init (sha_local 128)) data len))"

section \<open>hmac.c\<close>

definition hmac_short_key :: "bytes \<Rightarrow> usz \<Rightarrow> bytes" where
  "hmac_short_key key key_len = overwrite (replicate 64 0) 0 (take key_len key)"

definition hmac_key_block :: "bytes \<Rightarrow> usz \<Rightarrow> bytes" where
  "hmac_key_block key key_len =
     (if key_len > 64 then overwrite (replicate 64 0) 0 (quic_sha256 key key_len)
      else hmac_short_key key key_len)"

definition hmac_feed_pad :: "quic_sha256_ctx \<Rightarrow> bytes \<Rightarrow> u8 \<Rightarrow> quic_sha256_ctx" where
  "hmac_feed_pad s kb pad = quic_sha256_update s (map (\<lambda>i. rd kb i XOR pad) [0..<64]) 64"

definition hmac_inner_hash :: "bytes \<Rightarrow> bytes \<Rightarrow> usz \<Rightarrow> bytes" where
  "hmac_inner_hash kb msg msg_len =
     fst (quic_sha256_final (quic_sha256_update (hmac_feed_pad (quic_sha256_init (sha_local 64)) kb 0x36) msg msg_len))"

definition quic_hmac_sha256 :: "bytes \<Rightarrow> usz \<Rightarrow> bytes \<Rightarrow> usz \<Rightarrow> bytes" where
  "quic_hmac_sha256 key key_len msg msg_len =
     (let kb = hmac_key_block key key_len;
          inner = hmac_inner_hash kb msg msg_len
      in fst (quic_sha256_final
           (quic_sha256_update (hmac_feed_pad (quic_sha256_init (sha_local 64)) kb 0x5c) inner 32)))"

section \<open>hkdf.c\<close>

definition quic_hkdf_extract :: "bytes \<Rightarrow> usz \<Rightarrow> bytes \<Rightarrow> usz \<Rightarrow> bytes" where
  "quic_hkdf_extract salt salt_len ikm ikm_len = quic_hmac_sha256 salt salt_len ikm ikm_len"

definition expand_block :: "bytes \<Rightarrow> bytes \<Rightarrow> usz \<Rightarrow> bytes \<Rightarrow> usz \<Rightarrow> u8 \<Rightarrow> bytes" where
  "expand_block prk prev prev_len info info_len counter =
     (let buf = take prev_len prev @ take info_len info @ [counter]
      in quic_hmac_sha256 prk 32 buf (prev_len + info_len + 1))"

definition hkdf_emit :: "bytes \<Rightarrow> usz \<Rightarrow> usz \<Rightarrow> bytes \<Rightarrow> bytes \<times> usz" where
  "hkdf_emit okm off len t =
     (let tk = if len - off < 32 then len - off else 32
      in (overwrite okm off (take tk t), off + tk))"

definition expand_ok :: "usz \<Rightarrow> usz \<Rightarrow> bool" where
  "expand_ok info_len len \<longleftrightarrow> len \<le> 255 * 32 \<and> info_len \<le> 256"

function expand_loop :: "bytes \<Rightarrow> bytes \<Rightarrow> usz \<Rightarrow> bytes \<Rightarrow> usz \<Rightarrow> u8 \<Rightarrow> bytes \<Rightarrow> usz \<Rightarrow> usz \<Rightarrow> bytes" where
  "expand_loop prk t prev_len info info_len counter okm off len =
     (if off < len
      then let t = expand_block prk t prev_len info info_len counter;
               (okm, off) = hkdf_emit okm off len t
           in expand_loop prk t 32 info info_len (counter + 1) okm off len
      else okm)"
  by pat_completeness auto
termination
  by (relation "measure (\<lambda>(prk, t, pl, info, il, c, okm, off, len). len - off)") (auto simp: hkdf_emit_def Let_def split: if_splits)

definition quic_hkdf_expand :: "bytes \<Rightarrow> bytes \<Rightarrow> usz \<Rightarrow> bytes \<Rightarrow> usz \<Rightarrow> bytes option" where
  "quic_hkdf_expand prk info info_len okm len =
     (if \<not> expand_ok info_len len then None
      else Some (expand_loop prk (replicate 32 0) 0 info info_len 1 okm 0 len))"

definition hkdf_build_label :: "bytes \<Rightarrow> usz \<Rightarrow> bytes \<Rightarrow> usz \<Rightarrow> usz \<Rightarrow> bytes" where
  "hkdf_build_label label label_len ctx ctx_len len =
     [of_nat (len div 256), of_nat len, of_nat (6 + label_len), 0x74, 0x6c, 0x73, 0x31, 0x33, 0x20]
     @ take label_len label @ [of_nat ctx_len] @ take ctx_len ctx"

definition quic_hkdf_expand_label :: "bytes \<Rightarrow> bytes \<Rightarrow> usz \<Rightarrow> bytes \<Rightarrow> usz \<Rightarrow> bytes \<Rightarrow> usz \<Rightarrow> bytes option" where
  "quic_hkdf_expand_label prk label label_len ctx ctx_len okm len =
     (if label_len > 64 \<or> ctx_len > 64 then None
      else let info = hkdf_build_label label label_len ctx ctx_len len
           in quic_hkdf_expand prk info (9 + label_len + 1 + ctx_len) okm len)"

declare sha256_absorb_loop.simps [simp del] sha512_absorb_loop.simps [simp del] expand_loop.simps [simp del]

section \<open>Streaming over blocks\<close>

text \<open>A context holds a message when its chaining value is the
  compression of the whole blocks and its buffer starts with the rest.\<close>

definition tail_of :: "nat \<Rightarrow> 'a list \<Rightarrow> 'a list" where
  "tail_of n xs = drop (length xs - length xs mod n) xs"

definition holds_msg :: "nat \<Rightarrow> ('w list \<Rightarrow> bytes \<Rightarrow> 'w list) \<Rightarrow> 'w list \<Rightarrow> 'w sha_ctx \<Rightarrow> bytes \<Rightarrow> bool" where
  "holds_msg blk compw h0 s m \<longleftrightarrow> length (sc_buf s) = blk \<and> sc_h s = foldl compw h0 (chunks blk m)
     \<and> sc_buf_len s = length m mod blk \<and> take (length m mod blk) (sc_buf s) = tail_of blk m"

lemma split_tail: "take (length xs - length xs mod n) xs @ tail_of n xs = xs"
  by (simp add: tail_of_def)

lemma length_tail_of [simp]: "length (tail_of n xs) = length xs mod n"
  by (simp add: tail_of_def)

lemma chunks_tail:
  assumes "0 < n"
  shows "chunks n (xs @ ys) = chunks n xs @ chunks n (tail_of n xs @ ys)"
proof -
  let ?a = "take (length xs - length xs mod n) xs"
  have "length ?a = length xs - length xs mod n" by simp
  then have al: "length ?a mod n = 0" by (simp add: minus_mod_eq_mult_div)
  have "chunks n (?a @ tail_of n xs) = chunks n ?a" using chunks_append[OF assms al, of "tail_of n xs"] assms by simp
  then have "chunks n xs = chunks n ?a" by (simp only: split_tail)
  moreover have "chunks n (xs @ ys) = chunks n ?a @ chunks n (tail_of n xs @ ys)"
    using chunks_append[OF assms al, of "tail_of n xs @ ys"] by (metis append.assoc split_tail)
  ultimately show ?thesis by simp
qed

lemma drop_append_length_add: "drop (length xs + k) (xs @ ys) = drop k ys"
  by simp

lemma tail_tail:
  assumes "0 < n"
  shows "tail_of n (xs @ ys) = tail_of n (tail_of n xs @ ys)"
proof -
  let ?a = "take (length xs - length xs mod n) xs" and ?t = "tail_of n xs @ ys"
  have m: "length (xs @ ys) mod n = length ?t mod n" by (simp add: mod_add_left_eq)
  have "length (xs @ ys) = length ?a + length ?t" by simp
  moreover have "length ?t mod n \<le> length ?t" by simp
  ultimately have "length (xs @ ys) - length (xs @ ys) mod n = length ?a + (length ?t - length ?t mod n)"
    unfolding m by linarith
  moreover have "xs @ ys = ?a @ ?t" by (metis append.assoc split_tail)
  ultimately show ?thesis by (metis drop_append_length_add tail_of_def)
qed

lemma tail_short: "length xs < n \<Longrightarrow> tail_of n xs = xs"
  by (simp add: tail_of_def)

lemma tail_aligned: "length xs mod n = 0 \<Longrightarrow> tail_of n xs = []"
  by (simp add: tail_of_def)

text \<open>What the hash functions share: a loop that compresses whole blocks straight from the
  input, and an update that first completes a pending block, then runs the loop, then keeps the rest.\<close>

locale block_hash =
  fixes blk :: nat
    and compw :: "'w list \<Rightarrow> bytes \<Rightarrow> 'w list"
    and absorb :: "'w sha_ctx \<Rightarrow> bytes \<Rightarrow> usz \<Rightarrow> usz \<Rightarrow> 'w sha_ctx \<times> usz"
    and upd :: "'w sha_ctx \<Rightarrow> bytes \<Rightarrow> usz \<Rightarrow> 'w sha_ctx"
  assumes blk_pos: "0 < blk" and blk_small: "blk < 2 ^ 63"
    and compw_block: "length p = blk \<Longrightarrow> compw h (p @ q) = compw h p"
    and absorb_eq: "absorb s data len off =
      (if len - off \<ge> blk then absorb (s\<lparr>sc_h := compw (sc_h s) (drop off data)\<rparr>) data len (off + blk) else (s, off))"
    and upd_eq: "upd s data len =
      (let want = usz_sub blk (sc_buf_len s);
           tk = (if sc_buf_len s \<noteq> 0 \<and> len \<ge> want then want else 0);
           s1 = s\<lparr>sc_buf := overwrite (sc_buf s) (sc_buf_len s) (take tk data), sc_buf_len := sc_buf_len s + tk\<rparr>;
           s2 = (if tk \<noteq> 0 then s1\<lparr>sc_h := compw (sc_h s1) (sc_buf s1), sc_buf_len := 0\<rparr> else s1);
           (s3, n) = absorb s2 (drop tk data) (len - tk) 0;
           off = tk + n
       in s3\<lparr>sc_buf := overwrite (sc_buf s3) (sc_buf_len s3) (take (len - off) (drop off data)),
             sc_buf_len := sc_buf_len s3 + (len - off), sc_total := sc_total s3 + of_nat len\<rparr>)"
begin

lemma absorb_all:
  "len \<le> length data \<Longrightarrow> off \<le> len \<Longrightarrow> absorb s data len off =
     (s\<lparr>sc_h := foldl compw (sc_h s) (chunks blk (drop off (take len data)))\<rparr>, len - (len - off) mod blk)"
proof (induction "len - off" arbitrary: s off rule: less_induct)
  case less
  show ?case
  proof (cases "len - off \<ge> blk")
    case True
    let ?d = "drop off (take len data)" and ?s = "s\<lparr>sc_h := compw (sc_h s) (drop off data)\<rparr>"
    have "take blk ?d = take blk (drop off data)" using True by (simp add: drop_take min_def)
    then have "drop off data = take blk ?d @ drop blk (drop off data)" by (simp only: append_take_drop_id)
    then have c: "compw (sc_h s) (drop off data) = compw (sc_h s) (take blk ?d)"
      using compw_block[of "take blk ?d" "sc_h s" "drop blk (drop off data)"] True less.prems by (metis length_drop length_take min_absorb1 min_absorb2)
    have ch: "chunks blk ?d = take blk ?d # chunks blk (drop (off + blk) (take len data))"
      using True less.prems blk_pos by (subst chunks.simps) (simp add: add.commute)
    have "absorb ?s data len (off + blk) = (?s\<lparr>sc_h := foldl compw (sc_h ?s) (chunks blk (drop (off + blk) (take len data)))\<rparr>,
        len - (len - (off + blk)) mod blk)"
      using True less.prems blk_pos by (intro less.hyps) auto
    moreover have "(len - off) mod blk = (len - (off + blk)) mod blk" using True by (simp add: le_mod_geq)
    ultimately show ?thesis using True c ch by (subst absorb_eq) simp
  next
    case False
    then show ?thesis using less.prems by (subst absorb_eq) (simp add: min_def)
  qed
qed

lemma holds_complete:
  assumes "holds_msg blk compw h0 s m" "length m mod blk + n = blk" "n \<le> length data"
  shows "holds_msg blk compw h0 (s\<lparr>sc_buf := overwrite (sc_buf s) (sc_buf_len s) (take n data),
      sc_h := compw (sc_h s) (overwrite (sc_buf s) (sc_buf_len s) (take n data)), sc_buf_len := 0\<rparr>) (m @ take n data)"
proof -
  have d: "blk - length m mod blk = n" using assms(2) by simp
  have l: "sc_buf_len s = length m mod blk" using assms(1) by (simp add: holds_msg_def)
  have b: "overwrite (sc_buf s) (length m mod blk) (take n data) = tail_of blk m @ take n data"
    using assms by (simp add: holds_msg_def overwrite_def)
  have "chunks blk (tail_of blk m @ take n data) = [tail_of blk m @ take n data]"
    using assms blk_pos d by (subst chunks.simps) simp
  moreover have z: "(length m + n) mod blk = 0" using assms(2) by (metis mod_add_left_eq mod_self)
  ultimately show ?thesis using assms blk_pos tail_aligned[of "m @ take n data" blk]
    by (simp add: holds_msg_def l b chunks_tail[of blk m])
qed

lemma holds_absorb:
  assumes "holds_msg blk compw h0 s m" "length m mod blk = 0" "len \<le> length data"
  shows "\<exists>s' n. absorb s data len 0 = (s', n) \<and> n \<le> len \<and> holds_msg blk compw h0 s' (m @ take n data)
    \<and> len - n < blk \<and> sc_total s' = sc_total s \<and> length (m @ take n data) mod blk = 0"
proof -
  let ?n = "len - len mod blk"
  have l: "length (take ?n data) = ?n" using assms(3) by simp
  have z: "length (m @ take ?n data) mod blk = 0"
    unfolding length_append l using assms(2) by (metis add_0 minus_mod_eq_mult_div mod_add_left_eq mod_mult_self1_is_0)
  have a: "length (take ?n data) mod blk = 0" unfolding l by (simp add: minus_mod_eq_mult_div)
  have "take len data = take ?n data @ take (len mod blk) (drop ?n data)"
    by (metis le_add_diff_inverse2 mod_less_eq_dividend take_add)
  moreover have "length (take (len mod blk) (drop ?n data)) < blk"
    using mod_less_divisor[OF blk_pos, of len] by (simp add: min.strict_coboundedI2)
  ultimately have "chunks blk (take len data) = chunks blk (take ?n data)"
    using chunks_append[OF blk_pos a] by (metis append.right_neutral chunks_short)
  then have "foldl compw h0 (chunks blk (m @ take ?n data)) = foldl compw (foldl compw h0 (chunks blk m)) (chunks blk (take len data))"
    using chunks_append[OF blk_pos assms(2)] by simp
  moreover have "absorb s data len 0 = (s\<lparr>sc_h := foldl compw (sc_h s) (chunks blk (take len data))\<rparr>, ?n)"
    using absorb_all[of len data 0 s] assms(3) by simp
  moreover have "len - ?n < blk" using blk_pos by (simp add: le_diff_conv)
  ultimately show ?thesis using assms(1,2) z tail_aligned[OF z] by (auto simp: holds_msg_def)
qed

lemma holds_keep:
  assumes "holds_msg blk compw h0 s m" "length m mod blk + n < blk" "n \<le> length data"
  shows "holds_msg blk compw h0 (s\<lparr>sc_buf := overwrite (sc_buf s) (sc_buf_len s) (take n data),
      sc_buf_len := sc_buf_len s + n\<rparr>) (m @ take n data)"
proof -
  have md: "(length m + n) mod blk = length m mod blk + n" using assms(2) by (metis mod_add_left_eq mod_less)
  have "take (length m mod blk + n) (overwrite (sc_buf s) (sc_buf_len s) (take n data)) = tail_of blk m @ take n data"
    using assms take_overwrite[of "sc_buf_len s" "take n data" "sc_buf s"] by (simp add: holds_msg_def)
  moreover have "tail_of blk (m @ take n data) = tail_of blk m @ take n data"
    using tail_tail[OF blk_pos, of m "take n data"] tail_short[of "tail_of blk m @ take n data" blk] assms by simp
  moreover have "chunks blk (m @ take n data) = chunks blk m"
    using chunks_tail[OF blk_pos, of m] assms by simp
  ultimately show ?thesis using assms by (simp add: holds_msg_def md)
qed

end

lemma pad_count_step:
  assumes "b < n" "p < n" "b \<noteq> p"
  shows "(p + n - b) mod n = Suc ((p + n - (if Suc b = n then 0 else Suc b)) mod n)"
proof (cases "b < p")
  case True
  then obtain d where d: "p = b + Suc d" using less_imp_Suc_add by auto
  then have "p + n - b = Suc d + n" "p + n - Suc b = d + n" by simp_all
  moreover have "(Suc d + n) mod n = Suc d" "(d + n) mod n = d" using d assms(2) by (simp_all only: mod_add_self2) simp_all
  ultimately show ?thesis using d assms(2) by auto
next
  case False
  then obtain d where d: "b = p + Suc d" using assms(3) less_imp_Suc_add by (metis add_Suc_right nat_neq_iff)
  then have "p + n - b = n - Suc d" "p + n - Suc b = n - Suc (Suc d)" by simp_all
  moreover have "(p + n) mod n = p" using assms(2) by simp
  ultimately show ?thesis using d assms(1) by auto
qed

context block_hash
begin

lemma holds_finish:
  assumes "holds_msg blk compw h0 s m" "length m mod blk = 0" "len \<le> length data"
  shows "\<exists>s' n. absorb s data len 0 = (s', n) \<and> sc_total s' = sc_total s \<and> n \<le> len
    \<and> holds_msg blk compw h0 (s'\<lparr>sc_buf := overwrite (sc_buf s') (sc_buf_len s') (take (len - n) (drop n data)),
        sc_buf_len := sc_buf_len s' + (len - n)\<rparr>) (m @ take len data)"
proof -
  from holds_absorb[OF assms] obtain s' n where h: "absorb s data len 0 = (s', n)" "n \<le> len"
    "holds_msg blk compw h0 s' (m @ take n data)" "len - n < blk" "sc_total s' = sc_total s" "length (m @ take n data) mod blk = 0" by (elim exE conjE) (rule that)
  moreover have "take len data = take n data @ take (len - n) (drop n data)"
    using h(2) by (metis le_add_diff_inverse take_add)
  ultimately show ?thesis using holds_keep[OF h(3), of "len - n" "drop n data"] assms(3) by auto
qed

lemma holds_total: "holds_msg blk compw h0 (s\<lparr>sc_total := t\<rparr>) m = holds_msg blk compw h0 s m"
  by (simp add: holds_msg_def)

lemma upd_holds:
  assumes "holds_msg blk compw h0 s m" "len \<le> length data"
  shows "holds_msg blk compw h0 (upd s data len) (m @ take len data) \<and> sc_total (upd s data len) = sc_total s + of_nat len"
proof -
  let ?b = "length m mod blk"
  have b: "sc_buf_len s = ?b" "?b < blk" using assms(1) blk_pos by (simp_all add: holds_msg_def)
  have w: "usz_sub blk ?b = blk - ?b" using b(2) blk_small by (intro usz_sub_nowrap) simp_all
  have e: "s\<lparr>sc_buf_len := ?b\<rparr> = s" using b(1) by (cases s) simp
  consider (fill) "?b \<noteq> 0" "blk - ?b \<le> len" | (aligned) "?b = 0" | (short) "?b \<noteq> 0" "len < blk - ?b" by linarith
  then show ?thesis
  proof cases
    case fill
    define k where "k = blk - ?b"
    have k: "usz_sub blk ?b = k" "k \<noteq> 0" "k \<le> len" "?b + k = blk" using w fill b by (simp_all add: k_def)
    let ?s = "s\<lparr>sc_buf := overwrite (sc_buf s) ?b (take k data),
      sc_h := compw (sc_h s) (overwrite (sc_buf s) ?b (take k data)), sc_buf_len := 0\<rparr>"
    have h: "holds_msg blk compw h0 ?s (m @ take k data)"
      using holds_complete[OF assms(1), of k data] b k assms(2) by simp
    have z: "length (m @ take k data) mod blk = 0" using h by (simp add: holds_msg_def)
    have le: "len - k \<le> length (drop k data)" using assms(2) by simp
    from holds_finish[OF h z le] obtain s' n where f: "absorb ?s (drop k data) (len - k) 0 = (s', n)" "sc_total s' = sc_total s"
      "holds_msg blk compw h0 (s'\<lparr>sc_buf := overwrite (sc_buf s') (sc_buf_len s') (take (len - k - n) (drop n (drop k data))),
        sc_buf_len := sc_buf_len s' + (len - k - n)\<rparr>) ((m @ take k data) @ take (len - k) (drop k data))" by auto
    have "take k data @ take (len - k) (drop k data) = take len data"
      using k(3) by (metis le_add_diff_inverse take_add)
    then show ?thesis using f(2,3) fill(1) k(2,3) b(1)
      by (simp add: upd_eq k(1) Let_def f(1) holds_total add.commute[of n k])
  next
    case aligned
    from holds_finish[OF assms(1) aligned assms(2)] obtain s' n where f: "absorb s data len 0 = (s', n)" "sc_total s' = sc_total s"
      "holds_msg blk compw h0 (s'\<lparr>sc_buf := overwrite (sc_buf s') (sc_buf_len s') (take (len - n) (drop n data)),
        sc_buf_len := sc_buf_len s' + (len - n)\<rparr>) (m @ take len data)" by auto
    moreover have "absorb (s\<lparr>sc_buf_len := 0\<rparr>) data len 0 = (s', n)" using f(1) e unfolding aligned by (simp only:)
    ultimately show ?thesis using aligned b by (simp add: upd_eq w holds_total)
  next
    case short
    have "absorb (s\<lparr>sc_buf_len := ?b\<rparr>) data len 0 = (s, 0)" unfolding e using short(2) by (subst absorb_eq) (auto simp: not_le)
    moreover have "holds_msg blk compw h0 (s\<lparr>sc_buf := overwrite (sc_buf s) (sc_buf_len s) (take len data),
      sc_buf_len := sc_buf_len s + len\<rparr>) (m @ take len data)" using holds_keep[OF assms(1) _ assms(2)] short by simp
    ultimately show ?thesis using short b by (simp add: upd_eq w holds_total Let_def)
  qed
qed

lemma updates_holds:
  "holds_msg blk compw h0 s m \<Longrightarrow>
    holds_msg blk compw h0 (foldl (\<lambda>s d. upd s d (length d)) s ds) (m @ concat ds)
    \<and> sc_total (foldl (\<lambda>s d. upd s d (length d)) s ds) = sc_total s + of_nat (length (concat ds))"
proof (induction ds arbitrary: s m)
  case (Cons d ds)
  from upd_holds[OF Cons.prems, of "length d" d]
  have u: "holds_msg blk compw h0 (upd s d (length d)) (m @ d)" "sc_total (upd s d (length d)) = sc_total s + of_nat (length d)" by simp_all
  from Cons.IH[OF u(1)] show ?case by (simp add: u(2))
qed simp

lemma pad_loop:
  assumes "holds_msg blk compw h0 s m" "p < blk"
  shows "\<exists>s'. while_option (\<lambda>s. sc_buf_len s \<noteq> p) (\<lambda>s. upd s [0] 1) s = Some s'
    \<and> holds_msg blk compw h0 s' (m @ replicate ((p + blk - length m mod blk) mod blk) 0)"
  using assms(1)
proof (induction "(p + blk - length m mod blk) mod blk" arbitrary: s m rule: less_induct)
  case less
  let ?b = "length m mod blk"
  have b: "sc_buf_len s = ?b" "?b < blk" using less.prems blk_pos by (simp_all add: holds_msg_def)
  show ?case
  proof (cases "?b = p")
    case True
    then show ?thesis using less.prems b by (subst while_option_unfold) simp
  next
    case False
    let ?m = "m @ [0]"
    have u: "holds_msg blk compw h0 (upd s [0] 1) ?m" using upd_holds[OF less.prems, of 1 "[0]"] by simp
    have bs: "length ?m mod blk = (if Suc ?b = blk then 0 else Suc ?b)" by (simp add: mod_Suc)
    have st: "(p + blk - ?b) mod blk = Suc ((p + blk - length ?m mod blk) mod blk)"
      unfolding bs by (rule pad_count_step[OF b(2) assms(2) False])
    from less.hyps[OF _ u] st obtain s' where "while_option (\<lambda>s. sc_buf_len s \<noteq> p) (\<lambda>s. upd s [0] 1) (upd s [0] 1) = Some s'"
      "holds_msg blk compw h0 s' (?m @ replicate ((p + blk - length ?m mod blk) mod blk) 0)" by (metis lessI)
    then show ?thesis using False b(1) st by (subst while_option_unfold) simp
  qed
qed

end

text \<open>The padded message: a one bit, the fewest zero bits, and the length, together whole blocks.\<close>

definition pad_to :: "nat \<Rightarrow> nat \<Rightarrow> bytes \<Rightarrow> bytes \<Rightarrow> bytes" where
  "pad_to blk p lenbe m = m @ [0x80] @ replicate ((p + blk - Suc (length m) mod blk) mod blk) 0 @ lenbe"

context block_hash
begin

lemma final_digest:
  assumes "holds_msg blk compw h0 s m" "p < blk" "length lenbe = blk - p"
  shows "(\<exists>s'. while_option (\<lambda>s. sc_buf_len s \<noteq> p) (\<lambda>s. upd s [0] 1) (upd s [0x80] 1) = Some s')
    \<and> sc_h (upd (while (\<lambda>s. sc_buf_len s \<noteq> p) (\<lambda>s. upd s [0] 1) (upd s [0x80] 1)) lenbe (blk - p))
      = foldl compw h0 (chunks blk (pad_to blk p lenbe m))"
proof -
  have "holds_msg blk compw h0 (upd s [0x80] 1) (m @ [0x80])" using upd_holds[OF assms(1), of 1 "[0x80]"] by simp
  from pad_loop[OF this assms(2)] obtain s' where
    s': "while_option (\<lambda>s. sc_buf_len s \<noteq> p) (\<lambda>s. upd s [0] 1) (upd s [0x80] 1) = Some s'"
    "holds_msg blk compw h0 s' (m @ [0x80] @ replicate ((p + blk - Suc (length m) mod blk) mod blk) 0)" by auto
  from upd_holds[OF s'(2), of "blk - p" lenbe] assms(3) s'(1) show ?thesis
    by (simp add: holds_msg_def pad_to_def while_def)
qed

end

section \<open>The hash functions of FIPS 180-4\<close>

text \<open>The reference definitions follow the standard: the message schedule as a recursive
  function, a round on eight named variables, rotations as rotations.\<close>

function fips_W :: "('w \<Rightarrow> 'w) \<Rightarrow> ('w \<Rightarrow> 'w) \<Rightarrow> (nat \<Rightarrow> 'w) \<Rightarrow> nat \<Rightarrow> 'w :: plus" where
  "fips_W ls0 ls1 M t =
     (if t < 16 then M t
      else ls1 (fips_W ls0 ls1 M (t - 2)) + fips_W ls0 ls1 M (t - 7) + ls0 (fips_W ls0 ls1 M (t - 15)) + fips_W ls0 ls1 M (t - 16))"
  by pat_completeness auto
termination by (relation "measure (\<lambda>(ls0, ls1, M, t). t)") auto

declare fips_W.simps [simp del]

fun fips_round ::
    "('a :: len word \<Rightarrow> 'a word) \<Rightarrow> ('a word \<Rightarrow> 'a word) \<Rightarrow> 'a word \<times> 'a word \<times> 'a word \<times> 'a word \<times> 'a word \<times> 'a word \<times> 'a word \<times> 'a word
      \<Rightarrow> 'a word \<Rightarrow> 'a word \<times> 'a word \<times> 'a word \<times> 'a word \<times> 'a word \<times> 'a word \<times> 'a word \<times> 'a word" where
  "fips_round bs0 bs1 (a, b, c, d, e, f, g, h) kw =
     (let t1 = h + bs1 e + ((e AND f) XOR (NOT e AND g)) + kw;
          t2 = bs0 a + ((a AND b) XOR (a AND c) XOR (b AND c))
      in (t1 + t2, a, b, c, d + t1, e, f, g))"

fun vars :: "'w list \<Rightarrow> 'w \<times> 'w \<times> 'w \<times> 'w \<times> 'w \<times> 'w \<times> 'w \<times> 'w" where
  "vars v = (v ! 0, v ! 1, v ! 2, v ! 3, v ! 4, v ! 5, v ! 6, v ! 7)"

fun unvars :: "'w \<times> 'w \<times> 'w \<times> 'w \<times> 'w \<times> 'w \<times> 'w \<times> 'w \<Rightarrow> 'w list" where
  "unvars (a, b, c, d, e, f, g, h) = [a, b, c, d, e, f, g, h]"

definition fips_block ::
    "('a :: len word \<Rightarrow> 'a word) \<Rightarrow> ('a word \<Rightarrow> 'a word) \<Rightarrow> ('a word \<Rightarrow> 'a word) \<Rightarrow> ('a word \<Rightarrow> 'a word)
      \<Rightarrow> 'a word list \<Rightarrow> (bytes \<Rightarrow> nat \<Rightarrow> 'a word) \<Rightarrow> 'a word list \<Rightarrow> bytes \<Rightarrow> 'a word list" where
  "fips_block bs0 bs1 ls0 ls1 K load H p =
     map2 (+) H (unvars (foldl (\<lambda>v t. fips_round bs0 bs1 v (K ! t + fips_W ls0 ls1 (load p) t)) (vars H) [0..<length K]))"

definition fips256_block :: "u32 list \<Rightarrow> bytes \<Rightarrow> u32 list" where
  "fips256_block =
     fips_block (\<lambda>x. word_rotr 2 x XOR word_rotr 13 x XOR word_rotr 22 x) (\<lambda>x. word_rotr 6 x XOR word_rotr 11 x XOR word_rotr 25 x)
       (\<lambda>x. word_rotr 7 x XOR word_rotr 18 x XOR drop_bit 3 x) (\<lambda>x. word_rotr 17 x XOR word_rotr 19 x XOR drop_bit 10 x)
       sha256_K (\<lambda>p t. of_nat (be_val (take 4 (drop (4 * t) p))))"

definition fips512_block :: "u64 list \<Rightarrow> bytes \<Rightarrow> u64 list" where
  "fips512_block =
     fips_block (\<lambda>x. word_rotr 28 x XOR word_rotr 34 x XOR word_rotr 39 x) (\<lambda>x. word_rotr 14 x XOR word_rotr 18 x XOR word_rotr 41 x)
       (\<lambda>x. word_rotr 1 x XOR word_rotr 8 x XOR drop_bit 7 x) (\<lambda>x. word_rotr 19 x XOR word_rotr 61 x XOR drop_bit 6 x)
       sha512_K (\<lambda>p t. of_nat (be_val (take 8 (drop (8 * t) p))))"

definition fips_sha256 :: "bytes \<Rightarrow> bytes" where
  "fips_sha256 m = concat (map (\<lambda>w. be_bytes 4 (unat w)) (foldl fips256_block sha256_H0
     (chunks 64 (pad_to 64 56 (be_bytes 8 (8 * length m)) m))))"

definition fips_sha512 :: "u64 list \<Rightarrow> bytes \<Rightarrow> bytes" where
  "fips_sha512 h0 m = concat (map (\<lambda>w. be_bytes 8 (unat w)) (foldl fips512_block h0
     (chunks 128 (pad_to 128 112 (be_bytes 16 (8 * length m)) m))))"

section \<open>The code computes them\<close>

lemma shifts_rotr:
  fixes x :: "'a :: len word"
  assumes "0 < n" "n < LENGTH('a)"
  shows "drop_bit n x OR push_bit (LENGTH('a) - n) x = word_rotr n x"
proof (rule bit_word_eqI)
  fix i assume i: "i < LENGTH('a)"
  show "bit (drop_bit n x OR push_bit (LENGTH('a) - n) x) i = bit (word_rotr n x) i"
  proof (cases "i + n < LENGTH('a)")
    case True
    moreover have "\<not> LENGTH('a) - n \<le> i" using True by linarith
    ultimately show ?thesis using i assms by (simp add: bit_simps add.commute)
  next
    case False
    then have "(i + n) mod LENGTH('a) = i - (LENGTH('a) - n)" using i assms by (simp add: le_mod_geq)
    moreover have "\<not> bit x (n + i)" using False bit_imp_le_length[of x "n + i"] by auto
    moreover have "LENGTH('a) - n \<le> i" using False by linarith
    ultimately show ?thesis using i assms False by (simp add: bit_simps)
  qed
qed

lemma sha256_ROR_rotr: "0 < n \<Longrightarrow> n < 32 \<Longrightarrow> sha256_ROR x n = word_rotr n x"
  using shifts_rotr[of n x] by (simp add: sha256_ROR_def)

lemma sha512_ROR_rotr: "0 < n \<Longrightarrow> n < 64 \<Longrightarrow> sha512_ROR x n = word_rotr n x"
  using shifts_rotr[of n x] by (simp add: sha512_ROR_def)

lemmas sha256_sigmas = sha256_BS0_def sha256_BS1_def sha256_SS0_def sha256_SS1_def sha256_ROR_rotr
lemmas sha512_sigmas = sha512_BS0_def sha512_BS1_def sha512_SS0_def sha512_SS1_def sha512_ROR_rotr

lemma or_disjoint_bytes:
  fixes a b c d :: u8
  shows "push_bit 24 (ucast a) OR push_bit 16 (ucast b) OR push_bit 8 (ucast c) OR ucast d = (of_nat (be_val [a, b, c, d]) :: u32)"
proof -
  have 1: "push_bit 8 (ucast c) OR ucast d = push_bit 8 (ucast c) + (ucast d :: u32)" (is "?x OR ?y = _")
    by (rule disjunctive_add_eq_or[symmetric], rule bit_word_eqI) (auto simp: bit_simps dest: bit_imp_le_length)
  have 2: "push_bit 16 (ucast b) OR (?x + ?y) = push_bit 16 (ucast b) + (?x + ?y)"
    unfolding 1[symmetric]
    by (rule disjunctive_add_eq_or[symmetric], rule bit_word_eqI) (auto simp: bit_simps dest: bit_imp_le_length)
  have 3: "push_bit 24 (ucast a) OR (push_bit 16 (ucast b) + (?x + ?y)) = push_bit 24 (ucast a) + (push_bit 16 (ucast b) + (?x + ?y))"
    unfolding 2[symmetric] unfolding 1[symmetric]
    by (rule disjunctive_add_eq_or[symmetric], rule bit_word_eqI) (auto simp: bit_simps dest: bit_imp_le_length)
  show ?thesis
    unfolding 1 2 3 by (simp add: be_val_def push_bit_eq_mult algebra_simps)
qed

lemma schedule_all:
  assumes "16 \<le> n"
  shows "fold (\<lambda>i w. w @ [ls1 (w ! (i - 2)) + w ! (i - 7) + ls0 (w ! (i - 15)) + w ! (i - 16)]) [16..<n] (map M [0..<16])
    = map (fips_W ls0 ls1 M) [0..<n]"
  using assms
proof (induction n rule: dec_induct)
  case base
  have "fips_W ls0 ls1 M t = M t" if "t < 16" for t using that by (subst fips_W.simps) simp
  then have "map M [0..<16] = map (fips_W ls0 ls1 M) [0..<16]" by (intro map_cong) auto
  then show ?case by (simp only: upt_conv_Nil order_refl fold_simps)
next
  case (step n)
  let ?w = "map (fips_W ls0 ls1 M) [0..<n]"
  have w: "?w ! (n - 2) = fips_W ls0 ls1 M (n - 2)" "?w ! (n - 7) = fips_W ls0 ls1 M (n - 7)"
    "?w ! (n - 15) = fips_W ls0 ls1 M (n - 15)" "?w ! (n - 16) = fips_W ls0 ls1 M (n - 16)" using step.hyps by simp_all
  have "fips_W ls0 ls1 M n = ls1 (?w ! (n - 2)) + ?w ! (n - 7) + ls0 (?w ! (n - 15)) + ?w ! (n - 16)"
    unfolding w using step.hyps by (subst fips_W.simps) simp
  moreover have "[16..<Suc n] = [16..<n] @ [n]" "[0..<Suc n] = [0..<n] @ [n]" using step.hyps by simp_all
  ultimately show ?case by (simp only: fold_append o_apply step.IH fold_simps map_append list.map)
qed

lemma length_8E:
  assumes "length v = 8"
  obtains a b c d e f g h where "v = [a, b, c, d, e, f, g, h]"
proof -
  have "\<exists>a b c d e f g h. v = [a, b, c, d, e, f, g, h]" using assms by (clarsimp simp: numeral_eq_Suc length_Suc_conv)
  then show thesis using that by blast
qed

declare vars.simps [simp del]

lemma unvars_vars [simp]: "length v = 8 \<Longrightarrow> unvars (vars v) = v"
  by (elim length_8E) (simp add: vars.simps)

lemma vars_unvars [simp]: "vars (unvars x) = x" "length (unvars x) = 8"
  by (cases x rule: unvars.cases; simp add: vars.simps)+

lemma map2_add_8: "length h = 8 \<Longrightarrow> length v = 8 \<Longrightarrow> map (\<lambda>i. h ! i + v ! i) [0..<8] = map2 (+) h v"
  by (intro nth_equalityI) simp_all

lemma rounds_8:
  assumes "\<And>v kw. length v = 8 \<Longrightarrow> step v kw = unvars (rnd (vars v) kw)" "length v = 8"
  shows "foldl (\<lambda>v i. step v (f i)) v xs = unvars (foldl (\<lambda>v i. rnd v (f i)) (vars v) xs)"
  using assms(2) by (induction xs arbitrary: v) (simp_all add: assms(1))

text \<open>The effect of one compression on the chaining value.\<close>

definition sha256_compw :: "u32 list \<Rightarrow> bytes \<Rightarrow> u32 list" where
  "sha256_compw h p = sc_h (sha256_compress \<lparr>sc_h = h, sc_total = 0, sc_buf = [], sc_buf_len = 0\<rparr> p)"

definition sha512_compw :: "u64 list \<Rightarrow> bytes \<Rightarrow> u64 list" where
  "sha512_compw h p = sc_h (sha512_compress \<lparr>sc_h = h, sc_total = 0, sc_buf = [], sc_buf_len = 0\<rparr> p)"

lemma compress_compw:
  "sha256_compress s p = s\<lparr>sc_h := sha256_compw (sc_h s) p\<rparr>" "sha512_compress t p = t\<lparr>sc_h := sha512_compw (sc_h t) p\<rparr>"
  by (simp_all add: sha256_compress_def sha512_compress_def sha256_compw_def sha512_compw_def Let_def)

lemma schedule_prefix:
  "64 \<le> length p \<Longrightarrow> sha256_schedule (p @ q) = sha256_schedule p" "128 \<le> length p \<Longrightarrow> sha512_schedule (p @ q) = sha512_schedule p"
proof -
  show "64 \<le> length p \<Longrightarrow> sha256_schedule (p @ q) = sha256_schedule p"
    unfolding sha256_schedule_def by (intro arg_cong[where f = "fold _ _"] map_cong refl) (simp add: nth_append)
  show "128 \<le> length p \<Longrightarrow> sha512_schedule (p @ q) = sha512_schedule p"
    unfolding sha512_schedule_def load_be64_def
    by (intro arg_cong[where f = "fold _ _"] map_cong refl foldl_cong) (simp add: nth_append)
qed

interpretation sha256: block_hash 64 sha256_compw sha256_absorb_loop quic_sha256_update
proof unfold_locales
  show "length p = 64 \<Longrightarrow> sha256_compw h (p @ q) = sha256_compw h p" for h p q
    by (simp add: sha256_compw_def sha256_compress_def schedule_prefix)
  show "sha256_absorb_loop s data len off = (if 64 \<le> len - off
      then sha256_absorb_loop (s\<lparr>sc_h := sha256_compw (sc_h s) (drop off data)\<rparr>) data len (off + 64) else (s, off))" for s data len off
    by (subst sha256_absorb_loop.simps) (simp add: compress_compw)
qed (simp_all add: quic_sha256_update_def sha256_fill_pending_def sha256_pending_take_def sha256_buffer_def sha256_absorb_blocks_def
    compress_compw Let_def split: prod.split)

interpretation sha512: block_hash 128 sha512_compw sha512_absorb_loop quic_sha512_update
proof unfold_locales
  show "length p = 128 \<Longrightarrow> sha512_compw h (p @ q) = sha512_compw h p" for h p q
    by (simp add: sha512_compw_def sha512_compress_def schedule_prefix)
  show "sha512_absorb_loop s data len off = (if 128 \<le> len - off
      then sha512_absorb_loop (s\<lparr>sc_h := sha512_compw (sc_h s) (drop off data)\<rparr>) data len (off + 128) else (s, off))" for s data len off
    by (subst sha512_absorb_loop.simps) (simp add: compress_compw)
qed (simp_all add: quic_sha512_update_def sha512_fill_pending_def sha512_pending_take_def sha512_buffer_def sha512_absorb_blocks_def
    compress_compw Let_def split: prod.split)

lemma sha256_step_fips:
  "length v = 8 \<Longrightarrow> sha256_round_step v kw = unvars (fips_round sha256_BS0 sha256_BS1 (vars v) kw)"
  by (elim length_8E) (simp add: sha256_round_step_def vars.simps sha_CH_def sha_MAJ_def Let_def)

lemma sha512_step_fips:
  "length v = 8 \<Longrightarrow> sha512_round_step v kw = unvars (fips_round sha512_BS0 sha512_BS1 (vars v) kw)"
  by (elim length_8E) (simp add: sha512_round_step_def vars.simps sha_CH_def sha_MAJ_def Let_def)

lemma length_K [simp]: "length sha256_K = 64" "length sha512_K = 80" "length sha256_H0 = 8" "length sha512_H0 = 8" "length sha384_h0 = 8"
  by (simp_all add: sha256_K_def sha512_K_def sha256_H0_def sha512_H0_def sha384_h0_def)

lemma length_compw [simp]: "length (sha256_compw h p) = 8" "length (sha512_compw h' p) = 8"
  by (simp_all add: sha256_compw_def sha256_compress_def sha512_compw_def sha512_compress_def Let_def)

lemma sha256_schedule_fips:
  assumes "length p = 64"
  shows "sha256_schedule p = map (fips_W sha256_SS0 sha256_SS1 (\<lambda>t. of_nat (be_val (take 4 (drop (4 * t) p))))) [0..<64]"
proof -
  have "push_bit 24 (ucast (rd p (i * 4))) OR push_bit 16 (ucast (rd p (i * 4 + 1))) OR push_bit 8 (ucast (rd p (i * 4 + 2)))
      OR ucast (rd p (i * 4 + 3)) = (of_nat (be_val (take 4 (drop (4 * i) p))) :: u32)" if "i < 16" for i
  proof -
    have "take 4 (drop (4 * i) p) = [rd p (i * 4), rd p (i * 4 + 1), rd p (i * 4 + 2), rd p (i * 4 + 3)]"
      using that assms take_drop_rd[of "4 * i" 4 p] by (simp add: upt_rec mult.commute) (simp add: numeral_3_eq_3)
    then show ?thesis by (simp only: or_disjoint_bytes)
  qed
  then show ?thesis unfolding sha256_schedule_def
    by (subst schedule_all[symmetric], simp) (intro arg_cong[where f = "fold _ _"] map_cong, simp_all)
qed

lemma sha512_schedule_fips:
  assumes "length p = 128"
  shows "sha512_schedule p = map (fips_W sha512_SS0 sha512_SS1 (\<lambda>t. of_nat (be_val (take 8 (drop (8 * t) p))))) [0..<80]"
proof -
  have "load_be64 p (i * 8) = of_nat (be_val (take 8 (drop (8 * i) p)))" if "i < 16" for i
  proof -
    have "take 8 (drop (8 * i) p) = map (\<lambda>j. rd p (i * 8 + j)) [0..<8]"
      using that assms take_drop_rd[of "i * 8" 8 p] by (simp add: mult.commute)
    moreover have "load_be64 p (i * 8) = load_be 0 (map (\<lambda>j. rd p (i * 8 + j)) [0..<8])"
      by (simp only: load_be64_def load_be_def foldl_map)
    ultimately show ?thesis by (simp add: load_be_eq)
  qed
  then show ?thesis unfolding sha512_schedule_def
    by (subst schedule_all[symmetric], simp) (intro arg_cong[where f = "fold _ _"] map_cong, simp_all)
qed

lemma foldl_nth_cong: "(\<And>i. i \<in> set xs \<Longrightarrow> f i = g i) \<Longrightarrow> foldl (\<lambda>v i. s v (f i)) a xs = foldl (\<lambda>v i. s v (g i)) a xs"
  by (intro foldl_cong) simp_all

lemma sha256_block_fips:
  assumes "length h = 8" "length p = 64"
  shows "sha256_compw h p = fips256_block h p"
proof -
  let ?W = "fips_W sha256_SS0 sha256_SS1 (\<lambda>t. of_nat (be_val (take 4 (drop (4 * t) p))))"
  have s: "sha256_SS0 = (\<lambda>x. word_rotr 7 x XOR word_rotr 18 x XOR drop_bit 3 x)" "sha256_SS1 = (\<lambda>x. word_rotr 17 x XOR word_rotr 19 x XOR drop_bit 10 x)"
    "sha256_BS0 = (\<lambda>x. word_rotr 2 x XOR word_rotr 13 x XOR word_rotr 22 x)" "sha256_BS1 = (\<lambda>x. word_rotr 6 x XOR word_rotr 11 x XOR word_rotr 25 x)"
    by (simp_all add: fun_eq_iff sha256_sigmas)
  have "sha256_run_rounds h (sha256_schedule p) = foldl (\<lambda>v i. sha256_round_step v (sha256_K ! i + ?W i)) h [0..<64]"
    unfolding sha256_run_rounds_def sha256_schedule_fips[OF assms(2)] using assms(1)
    by (subst foldl_nth_cong[where g = "\<lambda>i. sha256_K ! i + ?W i"]) simp_all
  also have "\<dots> = unvars (foldl (\<lambda>v i. fips_round sha256_BS0 sha256_BS1 v (sha256_K ! i + ?W i)) (vars h) [0..<64])"
    by (rule rounds_8) (simp_all add: sha256_step_fips assms(1))
  finally have "sha256_compw h p = map2 (+) h (unvars (foldl (\<lambda>v i. fips_round sha256_BS0 sha256_BS1 v (sha256_K ! i + ?W i)) (vars h) [0..<64]))"
    using assms(1) by (simp add: sha256_compw_def sha256_compress_def map2_add_8)
  then show ?thesis by (simp only: fips256_block_def fips_block_def s length_K)
qed

lemma sha512_block_fips:
  assumes "length h = 8" "length p = 128"
  shows "sha512_compw h p = fips512_block h p"
proof -
  let ?W = "fips_W sha512_SS0 sha512_SS1 (\<lambda>t. of_nat (be_val (take 8 (drop (8 * t) p))))"
  have s: "sha512_SS0 = (\<lambda>x. word_rotr 1 x XOR word_rotr 8 x XOR drop_bit 7 x)" "sha512_SS1 = (\<lambda>x. word_rotr 19 x XOR word_rotr 61 x XOR drop_bit 6 x)"
    "sha512_BS0 = (\<lambda>x. word_rotr 28 x XOR word_rotr 34 x XOR word_rotr 39 x)" "sha512_BS1 = (\<lambda>x. word_rotr 14 x XOR word_rotr 18 x XOR word_rotr 41 x)"
    by (simp_all add: fun_eq_iff sha512_sigmas)
  have "sha512_run_rounds h (sha512_schedule p) = foldl (\<lambda>v i. sha512_round_step v (sha512_K ! i + ?W i)) h [0..<80]"
    unfolding sha512_run_rounds_def sha512_schedule_fips[OF assms(2)] using assms(1)
    by (subst foldl_nth_cong[where g = "\<lambda>i. sha512_K ! i + ?W i"]) simp_all
  also have "\<dots> = unvars (foldl (\<lambda>v i. fips_round sha512_BS0 sha512_BS1 v (sha512_K ! i + ?W i)) (vars h) [0..<80])"
    by (rule rounds_8) (simp_all add: sha512_step_fips assms(1))
  finally have "sha512_compw h p = map2 (+) h (unvars (foldl (\<lambda>v i. fips_round sha512_BS0 sha512_BS1 v (sha512_K ! i + ?W i)) (vars h) [0..<80]))"
    using assms(1) by (simp add: sha512_compw_def sha512_compress_def map2_add_8)
  then show ?thesis by (simp only: fips512_block_def fips_block_def s length_K)
qed

lemma compw_fips:
  "length h = 8 \<Longrightarrow> foldl sha256_compw h (chunks 64 m) = foldl fips256_block h (chunks 64 m)"
  "length g = 8 \<Longrightarrow> foldl sha512_compw g (chunks 128 m) = foldl fips512_block g (chunks 128 m)"
proof -
  have "\<forall>p \<in> set ps. length p = 64 \<Longrightarrow> length h = 8 \<Longrightarrow> foldl sha256_compw h ps = foldl fips256_block h ps" for h ps
    by (induction ps arbitrary: h) (simp_all add: sha256_block_fips[symmetric])
  then show "length h = 8 \<Longrightarrow> foldl sha256_compw h (chunks 64 m) = foldl fips256_block h (chunks 64 m)" using chunks_len by blast
  have "\<forall>p \<in> set ps. length p = 128 \<Longrightarrow> length h = 8 \<Longrightarrow> foldl sha512_compw h ps = foldl fips512_block h ps" for h ps
    by (induction ps arbitrary: h) (simp_all add: sha512_block_fips[symmetric])
  then show "length g = 8 \<Longrightarrow> foldl sha512_compw g (chunks 128 m) = foldl fips512_block g (chunks 128 m)" using chunks_len by blast
qed

lemma be64_bytes: "map (\<lambda>i. ucast (drop_bit (56 - i * 8) (v :: u64)) :: u8) [0..<8] = be_bytes 8 (unat v)"
proof -
  have "map (\<lambda>i. ucast (drop_bit (56 - i * 8) v) :: u8) [0..<8] = map (\<lambda>i. ucast (drop_bit ((8 - 1 - i) * 8) v) :: u8) [0..<8]"
    by (intro map_cong) (simp_all add: diff_mult_distrib)
  then show ?thesis by (simp only: pn_bytes_eq)
qed

lemma be32_bytes: "sha256_put_be32 v = be_bytes 4 (unat v)"
proof -
  have "be_bytes 4 (unat v) = map (\<lambda>i. ucast (drop_bit ((4 - 1 - i) * 8) v) :: u8) [0..<4]" by (rule pn_bytes_eq[symmetric])
  also have "\<dots> = sha256_put_be32 v" by (simp add: upt_rec sha256_put_be32_def)
  finally show ?thesis by simp
qed

lemma map_nth_8: "length xs = 8 \<Longrightarrow> map (\<lambda>i. f (xs ! i)) [0..<8] = map f xs"
  by (intro nth_equalityI) simp_all

lemma bits_word:
  assumes "8 * n < 2 ^ 64"
  shows "unat (of_nat n * 8 :: u64) = 8 * n"
proof -
  have "of_nat n * 8 = (of_nat (8 * n) :: u64)" by simp
  then show ?thesis using assms by (simp only: unat_of_nat) simp
qed

lemma length_fold_compw: "length h = 8 \<Longrightarrow> length (foldl sha256_compw h ps) = 8" "length g = 8 \<Longrightarrow> length (foldl sha512_compw g ps) = 8"
  by (induction ps arbitrary: h g) simp_all

lemma sha256_digest:
  assumes "holds_msg 64 sha256_compw sha256_H0 s m" "sc_total s = of_nat (length m)" "8 * length m < 2 ^ 64"
  shows "fst (quic_sha256_final s) = fips_sha256 m"
proof -
  let ?lb = "be_bytes 8 (8 * length m)"
  have lb: "map (\<lambda>i. ucast (drop_bit (56 - i * 8) (sc_total s * 8)) :: u8) [0..<8] = ?lb"
    unfolding be64_bytes assms(2) bits_word[OF assms(3)] ..
  have "sc_h (quic_sha256_update (sha256_pad_message s) ?lb 8) = foldl fips256_block sha256_H0 (chunks 64 (pad_to 64 56 ?lb m))"
    using sha256.final_digest[OF assms(1), of 56 ?lb] compw_fips(1)[of sha256_H0] by (simp add: sha256_pad_message_def)
  moreover have "length (foldl fips256_block sha256_H0 (chunks 64 (pad_to 64 56 ?lb m))) = 8"
    using length_fold_compw(1)[of sha256_H0] by (simp add: compw_fips(1)[symmetric])
  ultimately show ?thesis
    unfolding quic_sha256_final_def Let_def lb fips_sha256_def by (simp only: fst_conv map_nth_8[where f = "\<lambda>w. be_bytes 4 (unat w)"] be32_bytes)
qed

lemma sha512_digest:
  assumes "holds_msg 128 sha512_compw h0 s m" "sc_total s = of_nat (length m)" "8 * length m < 2 ^ 64" "length h0 = 8"
  shows "fst (quic_sha512_final s) = fips_sha512 h0 m"
proof -
  let ?lb = "be_bytes 16 (8 * length m)"
  have lb: "sha512_put_len (sc_total s * 8) = ?lb"
    unfolding sha512_put_len_def be64_bytes assms(2) bits_word[OF assms(3)] using be_bytes_add[of 8 8 "8 * length m"] assms(3) be_bytes_zero[of 8] by simp
  have "sc_h (quic_sha512_update (sha512_pad_message s) ?lb 16) = foldl fips512_block h0 (chunks 128 (pad_to 128 112 ?lb m))"
    using sha512.final_digest[OF assms(1), of 112 ?lb] compw_fips(2)[of h0] assms(4) by (simp add: sha512_pad_message_def)
  moreover have "length (foldl fips512_block h0 (chunks 128 (pad_to 128 112 ?lb m))) = 8"
    using length_fold_compw(2)[OF assms(4)] assms(4) by (simp add: compw_fips(2)[symmetric])
  ultimately show ?thesis
    unfolding quic_sha512_final_def Let_def lb fips_sha512_def by (simp only: fst_conv map_nth_8[where f = "\<lambda>w. be_bytes 8 (unat w)"] sha512_put_be64_def be64_bytes)
qed

lemma init_holds:
  "length (sc_buf s) = 64 \<Longrightarrow> holds_msg 64 sha256_compw sha256_H0 (quic_sha256_init s) []"
  "length (sc_buf t) = 128 \<Longrightarrow> holds_msg 128 sha512_compw sha512_H0 (quic_sha512_init t) []"
  "length (sc_buf t) = 128 \<Longrightarrow> holds_msg 128 sha512_compw sha384_h0 (quic_sha384_init t) []"
  by (simp_all add: holds_msg_def quic_sha256_init_def quic_sha512_init_def quic_sha384_init_def tail_of_def)

lemma init_total [simp]:
  "sc_total (quic_sha256_init s) = 0" "sc_total (quic_sha512_init t) = 0" "sc_total (quic_sha384_init t) = 0"
  by (simp_all add: quic_sha256_init_def quic_sha512_init_def quic_sha384_init_def)

text \<open>C35: Streaming hashing is hashing. For every way of cutting a message into pieces, absorbing the pieces
  one after the other and finishing gives the digest that FIPS 180-4 defines for the whole message, for
  SHA-256, SHA-512 and SHA-384, whatever the context held before it was initialised; and
  the padding loops come to an end.\<close>

theorem sha_streaming:
  assumes "length (sc_buf s0) = 64" "length (sc_buf t0) = 128" "8 * length (concat ds) < 2 ^ 64"
    and "s = foldl (\<lambda>s d. quic_sha256_update s d (length d)) (quic_sha256_init s0) ds"
    and "t = foldl (\<lambda>s d. quic_sha512_update s d (length d)) (quic_sha512_init t0) ds"
    and "u = foldl (\<lambda>s d. quic_sha512_update s d (length d)) (quic_sha384_init t0) ds"
  shows "fst (quic_sha256_final s) = fips_sha256 (concat ds)
    \<and> fst (quic_sha512_final t) = fips_sha512 sha512_H0 (concat ds)
    \<and> fst (quic_sha384_final u) = take 48 (fips_sha512 sha384_h0 (concat ds))
    \<and> (\<exists>s'. while_option (\<lambda>s. sc_buf_len s \<noteq> 56) (\<lambda>s. quic_sha256_update s [0] 1) (quic_sha256_update s [0x80] 1) = Some s')
    \<and> (\<exists>t'. while_option (\<lambda>s. sc_buf_len s \<noteq> 112) (\<lambda>s. quic_sha512_update s [0] 1) (quic_sha512_update t [0x80] 1) = Some t')"
proof -
  note h = sha256.updates_holds[OF init_holds(1)[OF assms(1)], of ds, folded assms(4)]
  note k = sha512.updates_holds[OF init_holds(2)[OF assms(2)], of ds, folded assms(5)]
  note l = sha512.updates_holds[OF init_holds(3)[OF assms(2)], of ds, folded assms(6)]
  show ?thesis
    using sha256_digest[of s "concat ds"] sha512_digest[of sha512_H0 t "concat ds"] sha512_digest[of sha384_h0 u "concat ds"]
      sha256.final_digest[of sha256_H0 s "concat ds" 56 "replicate 8 0"] sha512.final_digest[of sha512_H0 t "concat ds" 112 "replicate 16 0"]
      h k l assms(3) by (auto simp: quic_sha384_final_def split: prod.split)
qed

theorem sha_streaming_witness:
  "fst (quic_sha256_final (foldl (\<lambda>s d. quic_sha256_update s d (length d)) (quic_sha256_init (sha_local 64)) [[0x61], [0x62, 0x63]]))
     = fips_sha256 [0x61, 0x62, 0x63]"
  using sha_streaming[of "sha_local 64" "sha_local 128" "[[0x61], [0x62, 0x63]]", OF _ _ _ refl refl refl]
  by (simp add: sha_local_def)

section \<open>The constant tables\<close>

text \<open>\<open>frac_root r w p k\<close>: \<open>k\<close> is the first \<open>w\<close> bits of the fractional part of the \<open>r\<close>-th root of \<open>p\<close>, whose
  integral part is given as \<open>n\<close>.\<close>

definition frac_root :: "nat \<Rightarrow> nat \<Rightarrow> nat \<Rightarrow> nat \<Rightarrow> bool" where
  "frac_root r w p k \<longleftrightarrow> k < 2 ^ w
     \<and> (\<exists>n \<le> p. (n * 2 ^ w + k) ^ r \<le> p * 2 ^ (r * w) \<and> p * 2 ^ (r * w) < (n * 2 ^ w + k + 1) ^ r)"

lemma frac_rootI:
  "n \<le> p \<Longrightarrow> k < 2 ^ w \<Longrightarrow> (n * 2 ^ w + k) ^ r \<le> p * 2 ^ (r * w) \<Longrightarrow> p * 2 ^ (r * w) < (n * 2 ^ w + k + 1) ^ r \<Longrightarrow> frac_root r w p k"
  unfolding frac_root_def by blast

text \<open>The first eighty primes.\<close>

definition first_primes :: "nat list" where
  "first_primes = [2, 3, 5, 7, 11, 13, 17, 19, 23, 29, 31, 37, 41, 43, 47, 53, 59, 61, 67, 71, 73, 79, 83, 89, 97,
   101, 103, 107, 109, 113, 127, 131, 137, 139, 149, 151, 157, 163, 167, 173, 179, 181, 191, 193, 197, 199, 211, 223, 227, 229,
   233, 239, 241, 251, 257, 263, 269, 271, 277, 281, 283, 293, 307, 311, 313, 317, 331, 337, 347, 349, 353, 359, 367, 373, 379,
   383, 389, 397, 401, 409]"

text \<open>A table of roots with the integral parts \<open>ns\<close> given.\<close>

definition root_table :: "nat \<Rightarrow> nat \<Rightarrow> nat list \<Rightarrow> nat list \<Rightarrow> nat list \<Rightarrow> bool" where
  "root_table r w ns ps ks \<longleftrightarrow> length ns = length ps \<and> length ks = length ps
     \<and> list_all (\<lambda>(n, p, k). n \<le> p \<and> k < 2 ^ w \<and> (n * 2 ^ w + k) ^ r \<le> p * 2 ^ (r * w) \<and> p * 2 ^ (r * w) < (n * 2 ^ w + k + 1) ^ r)
         (zip ns (zip ps ks))"

lemma root_tableD:
  assumes "root_table r w ns ps ks"
  shows "list_all2 (frac_root r w) ps ks"
proof -
  have "frac_root r w (ps ! i) (ks ! i)" if "i < length ps" for i
    using assms that unfolding root_table_def list_all_length by (intro frac_rootI[of "ns ! i"]) force+
  then show ?thesis using assms by (simp add: root_table_def list_all2_conv_all_nth)
qed

lemma sha256_K_roots: "list_all2 (frac_root 3 32) (take 64 first_primes) (map unat sha256_K)"
  by (rule root_tableD[of _ _ "[1, 1, 1, 1, 2, 2, 2, 2, 2, 3, 3, 3, 3, 3, 3, 3, 3, 3, 4, 4, 4, 4, 4, 4, 4, 4, 4, 4, 4, 4, 5, 5, 5,
      5, 5, 5, 5, 5, 5, 5, 5, 5, 5, 5, 5, 5, 5, 6, 6, 6, 6, 6, 6, 6, 6, 6, 6, 6, 6, 6, 6, 6, 6, 6]"])
    (simp add: root_table_def first_primes_def sha256_K_def)

lemma sha512_K_roots: "list_all2 (frac_root 3 64) first_primes (map unat sha512_K)"
  by (rule root_tableD[of _ _ "[1, 1, 1, 1, 2, 2, 2, 2, 2, 3, 3, 3, 3, 3, 3, 3, 3, 3, 4, 4, 4, 4, 4, 4, 4, 4, 4, 4, 4, 4, 5, 5, 5,
      5, 5, 5, 5, 5, 5, 5, 5, 5, 5, 5, 5, 5, 5, 6, 6, 6, 6, 6, 6, 6, 6, 6, 6, 6, 6, 6, 6, 6, 6, 6, 6, 6,
      6, 6, 7, 7, 7, 7, 7, 7, 7, 7, 7, 7, 7, 7]"])
    (simp add: root_table_def first_primes_def sha512_K_def)

lemma sha256_H0_roots: "list_all2 (frac_root 2 32) (take 8 first_primes) (map unat sha256_H0)"
  by (rule root_tableD[of _ _ "[1, 1, 2, 2, 3, 3, 4, 4]"]) (simp add: root_table_def first_primes_def sha256_H0_def)

lemma sha512_H0_roots: "list_all2 (frac_root 2 64) (take 8 first_primes) (map unat sha512_H0)"
  by (rule root_tableD[of _ _ "[1, 1, 2, 2, 3, 3, 4, 4]"]) (simp add: root_table_def first_primes_def sha512_H0_def)

lemma sha384_h0_roots: "list_all2 (frac_root 2 64) (take 8 (drop 8 first_primes)) (map unat sha384_h0)"
  by (rule root_tableD[of _ _ "[4, 5, 5, 6, 6, 6, 6, 7]"]) (simp add: root_table_def first_primes_def sha384_h0_def)

text \<open>C36: The constants are right: the round constants of SHA-256 and SHA-512 are the first 32 and 64 bits of
  the fractional parts of the cube roots of the first 64 and 80 primes; the initial values are those of the square
  roots of the first eight primes, and of the ninth to the sixteenth for SHA-384.\<close>

theorem sha_constants:
  "list_all2 (frac_root 3 32) (take 64 first_primes) (map unat sha256_K)
   \<and> list_all2 (frac_root 3 64) first_primes (map unat sha512_K)
   \<and> list_all2 (frac_root 2 32) (take 8 first_primes) (map unat sha256_H0)
   \<and> list_all2 (frac_root 2 64) (take 8 first_primes) (map unat sha512_H0)
   \<and> list_all2 (frac_root 2 64) (take 8 (drop 8 first_primes)) (map unat sha384_h0)"
  using sha256_K_roots sha512_K_roots sha256_H0_roots sha512_H0_roots sha384_h0_roots by blast

section \<open>HMAC and HKDF\<close>

text \<open>HMAC of FIPS 198-1 and the expansion of RFC 5869, over a hash function of messages.\<close>

definition hmac_ref :: "bytes \<Rightarrow> bytes \<Rightarrow> bytes" where
  "hmac_ref k m =
     (let k0 = if length k > 64 then fips_sha256 k else k;
          k0 = k0 @ replicate (64 - length k0) 0
      in fips_sha256 (map (\<lambda>b. b XOR 0x5c) k0 @ fips_sha256 (map (\<lambda>b. b XOR 0x36) k0 @ m)))"

fun hkdf_T :: "bytes \<Rightarrow> bytes \<Rightarrow> nat \<Rightarrow> bytes" where
  "hkdf_T prk info 0 = []"
| "hkdf_T prk info (Suc n) = hmac_ref prk (hkdf_T prk info n @ info @ [of_nat (Suc n)])"

lemma length_fips_sha256 [simp]: "length (fips_sha256 m) = 32"
proof -
  have "length (foldl fips256_block sha256_H0 ps) = 8" if "\<forall>p \<in> set ps. length p = 64" for ps
    using that by (induction ps rule: rev_induct) (simp_all add: sha256_block_fips[symmetric])
  then have "length (foldl fips256_block sha256_H0 (chunks 64 x)) = 8" for x using chunks_len by blast
  moreover have "length (concat (map (\<lambda>w. be_bytes 4 (unat w)) xs)) = 4 * length xs" for xs :: "u32 list" by (induction xs) simp_all
  ultimately show ?thesis by (simp add: fips_sha256_def)
qed

lemma length_hmac_ref [simp]: "length (hmac_ref k m) = 32"
  by (simp add: hmac_ref_def Let_def)

lemma length_hkdf_T: "length (hkdf_T prk info n) = (if n = 0 then 0 else 32)"
  by (cases n) simp_all

lemma sha_local_buf [simp]: "length (sc_buf (sha_local n)) = n"
  by (simp add: sha_local_def)

lemma quic_sha256_fips:
  assumes "len \<le> length data" "8 * len < 2 ^ 64"
  shows "quic_sha256 data len = fips_sha256 (take len data)"
proof -
  have "holds_msg 64 sha256_compw sha256_H0 (quic_sha256_init (sha_local 64)) []" by (simp add: init_holds)
  from sha256.upd_holds[OF this assms(1)] assms show ?thesis
    unfolding quic_sha256_def by (intro sha256_digest) simp_all
qed

lemma hmac_pass:
  assumes "length kb = 64" "len \<le> length data" "8 * (64 + len) < 2 ^ 64"
  shows "fst (quic_sha256_final (quic_sha256_update (hmac_feed_pad (quic_sha256_init (sha_local 64)) kb pad) data len))
    = fips_sha256 (map (\<lambda>b. b XOR pad) kb @ take len data)"
proof -
  have kb: "map (\<lambda>i. rd kb i XOR pad) [0..<64] = map (\<lambda>b. b XOR pad) kb"
    using assms(1) by (intro nth_equalityI) simp_all
  have "holds_msg 64 sha256_compw sha256_H0 (quic_sha256_init (sha_local 64)) []" by (simp add: init_holds)
  from sha256.upd_holds[OF this, of 64 "map (\<lambda>b. b XOR pad) kb"] assms(1)
  have u: "holds_msg 64 sha256_compw sha256_H0 (hmac_feed_pad (quic_sha256_init (sha_local 64)) kb pad) (map (\<lambda>b. b XOR pad) kb)"
    "sc_total (hmac_feed_pad (quic_sha256_init (sha_local 64)) kb pad) = 64" by (simp_all add: hmac_feed_pad_def kb)
  from sha256.upd_holds[OF u(1) assms(2)] u(2) assms show ?thesis by (intro sha256_digest) simp_all
qed

lemma hmac_eq:
  assumes "key_len \<le> length key" "msg_len \<le> length msg" "8 * key_len < 2 ^ 64" "8 * (64 + msg_len) < 2 ^ 64"
  shows "quic_hmac_sha256 key key_len msg msg_len = hmac_ref (take key_len key) (take msg_len msg)"
proof -
  let ?k = "take key_len key"
  let ?k0 = "if length ?k > 64 then fips_sha256 ?k else ?k"
  have kb: "hmac_key_block key key_len = ?k0 @ replicate (64 - length ?k0) 0"
    using assms(1,3) by (simp add: hmac_key_block_def hmac_short_key_def quic_sha256_fips overwrite_0)
  have l: "length (?k0 @ replicate (64 - length ?k0) 0) = 64" using assms(1) by simp
  show ?thesis
    unfolding quic_hmac_sha256_def hmac_inner_hash_def Let_def kb hmac_ref_def
    using assms(2,4) by (subst hmac_pass[OF l], simp, simp, subst hmac_pass[OF l]) simp_all
qed

lemma expand_block_eq:
  assumes "length prk = 32" "prev = hkdf_T prk info n" "info_len = length info" "info_len \<le> 256" "length t = 32" "take (length prev) t = prev"
  shows "expand_block prk t (length prev) info info_len (of_nat (Suc n)) = hkdf_T prk info (Suc n)"
proof -
  have "length prev \<le> 32" using assms(2) by (simp add: length_hkdf_T)
  then show ?thesis using assms unfolding expand_block_def Let_def by (subst hmac_eq) (simp_all add: hkdf_T.simps)
qed

lemma concat_block:
  "\<forall>x \<in> set xs. length x = b \<Longrightarrow> i < length xs \<Longrightarrow> take b (drop (b * i) (concat xs)) = xs ! i"
proof (induction xs arbitrary: i)
  case (Cons x xs)
  then show ?case by (cases i) (simp_all add: algebra_simps)
qed simp

definition hkdf_stream :: "bytes \<Rightarrow> bytes \<Rightarrow> bytes" where
  "hkdf_stream prk info = concat (map (hkdf_T prk info) [1..<256])"

lemma hkdf_stream_block:
  assumes "n < 255"
  shows "take 32 (drop (32 * n) (hkdf_stream prk info)) = hkdf_T prk info (Suc n)"
  using concat_block[of "map (hkdf_T prk info) [1..<256]" 32 n] assms by (simp add: hkdf_stream_def length_hkdf_T)

lemma length_hkdf_stream: "length (hkdf_stream prk info) = 8160"
proof -
  have "\<forall>x \<in> set xs. length x = 32 \<Longrightarrow> length (concat xs) = 32 * length xs" for xs :: "bytes list" by (induction xs) simp_all
  from this[of "map (hkdf_T prk info) [1..<256]"] show ?thesis by (simp add: hkdf_stream_def length_hkdf_T)
qed

lemma expand_loop_eq:
  assumes "length prk = 32" "info_len = length info" "info_len \<le> 256" "len \<le> length okm" "len \<le> 8160"
  shows "length t = 32 \<Longrightarrow> take (length (hkdf_T prk info n)) t = hkdf_T prk info n \<Longrightarrow> off = min len (32 * n) \<Longrightarrow>
    expand_loop prk t (length (hkdf_T prk info n)) info info_len (of_nat (Suc n)) (overwrite okm 0 (take off (hkdf_stream prk info))) off len
      = overwrite okm 0 (take len (hkdf_stream prk info))"
proof (induction "len - off" arbitrary: t n off rule: less_induct)
  case less
  show ?case
  proof (cases "off < len")
    case True
    let ?S = "hkdf_stream prk info" and ?T = "hkdf_T prk info (Suc n)"
    have off: "off = 32 * n" "n < 255" using True less.prems(3) assms(5) by auto
    define tk where "tk = (if len - off < 32 then len - off else 32)"
    have tk: "0 < tk" "off + tk \<le> len" "tk \<le> 32" "off + tk = min len (32 * Suc n)" using True off by (auto simp: tk_def)
    have b: "expand_block prk t (length (hkdf_T prk info n)) info info_len (of_nat (Suc n)) = ?T"
      by (rule expand_block_eq[OF assms(1) refl assms(2,3) less.prems(1,2)])
    have "take tk ?T = take tk (drop off ?S)"
      using hkdf_stream_block[OF off(2), of prk info] tk(3) off(1) by (metis min_absorb1 take_take)
    then have "overwrite (overwrite okm 0 (take off ?S)) off (take tk ?T) = overwrite okm 0 (take off ?S @ take tk (drop off ?S))"
      using overwrite_overwrite[of 0 "take off ?S" okm "take tk ?T"] tk(2) assms(4,5) by (simp add: length_hkdf_stream)
    then have e: "hkdf_emit (overwrite okm 0 (take off ?S)) off len ?T = (overwrite okm 0 (take (off + tk) ?S), off + tk)"
      by (simp add: hkdf_emit_def tk_def[symmetric] take_add)
    have c: "of_nat (Suc n) + 1 = (of_nat (Suc (Suc n)) :: u8)" by simp
    have "expand_loop prk ?T (length ?T) info info_len (of_nat (Suc (Suc n))) (overwrite okm 0 (take (off + tk) ?S)) (off + tk) len
      = overwrite okm 0 (take len ?S)"
      using tk True by (intro less.hyps) simp_all
    moreover have "length ?T = 32" by (simp only: length_hkdf_T nat.simps if_False)
    ultimately show ?thesis using True by (subst expand_loop.simps) (simp only: b e c Let_def if_True prod.case)
  next
    case False
    then have "off = len" using less.prems(3) by simp
    then show ?thesis by (subst expand_loop.simps) simp
  qed
qed

text \<open>C37: HMAC is the function of FIPS 198-1, with long keys hashed and short keys padded; key
  expansion is that of RFC 5869: the first \<open>len\<close> bytes of T(1), T(2), \<open>\<dots>\<close>, with
  the rest of the output buffer untouched, and it is refused exactly when the length exceeds 255 blocks or the info
  exceeds its buffer.\<close>

theorem hmac_hkdf_correct:
  assumes "8 * length key < 2 ^ 64" "8 * (64 + length msg) < 2 ^ 64" "length prk = 32" "len \<le> length okm"
  shows "quic_hmac_sha256 key (length key) msg (length msg) = hmac_ref key msg
    \<and> quic_hkdf_expand prk info (length info) okm len =
      (if len \<le> 255 * 32 \<and> length info \<le> 256
       then Some (take len (concat (map (hkdf_T prk info) [1..<256])) @ drop len okm) else None)"
proof -
  have "quic_hmac_sha256 key (length key) msg (length msg) = hmac_ref key msg" using hmac_eq[of "length key" key "length msg" msg] assms by simp
  moreover have "expand_loop prk (replicate 32 0) 0 info (length info) 1 okm 0 len = overwrite okm 0 (take len (hkdf_stream prk info))"
    if "len \<le> 8160" "length info \<le> 256"
    using expand_loop_eq[OF assms(3) refl that(2) assms(4) that(1), of "replicate 32 0" 0 0] by simp
  moreover have "overwrite okm 0 (take len (hkdf_stream prk info)) = take len (concat (map (hkdf_T prk info) [1..<256])) @ drop len okm"
    if "len \<le> 8160" using that length_hkdf_stream[of prk info] by (simp add: overwrite_0) (simp add: hkdf_stream_def)
  ultimately show ?thesis by (simp add: quic_hkdf_expand_def expand_ok_def)
qed

theorem hmac_hkdf_correct_witness:
  "quic_hmac_sha256 [1] 1 [3] 1 = hmac_ref [1] [3]
   \<and> quic_hkdf_expand (replicate 32 7) [9] 1 [0, 0, 5] 2 = Some (take 2 (concat (map (hkdf_T (replicate 32 7) [9]) [1..<256])) @ [5])"
  using hmac_hkdf_correct[of "[1]" "[3]" "replicate 32 7" 2 "[0, 0, 5]" "[9]"] by simp

end
