(* ===== verification/Packet_Build.thy ===== *)
theory Packet_Build
  imports Packet_Protection Packet_Header Packet_Number Crypto_Stream Hash
begin

text \<open>
  Building and opening whole packets: the Initial keys (\<^verbatim>\<open>src/tls/handshake/core/tls/initial.c\<close>), Initial packets
  (\<^verbatim>\<open>src/transport/packet/build/initpkt\<close>), Handshake and 1-RTT packets (\<^verbatim>\<open>hspkt\<close>), the payload
  helpers (\<^verbatim>\<open>pktbuild\<close>), opening with a packet number of unknown length (\<^verbatim>\<open>vpn\<close>), the pipelines \<^verbatim>\<open>txpacket.c\<close> and
  \<^verbatim>\<open>rxpacket.c\<close>, and application data (\<^verbatim>\<open>src/transport/stream/data/appdata\<close>).

  A function that returns 1 with a length or a view as out-parameter returns an option; the changed packet
  buffer is returned beside it. Local buffers that the code leaves uninitialised start as zeros; \<open>h\<close> is
  the uninitialised header that \<^verbatim>\<open>quic_lhdr_parse\<close> parses into.

  The lemmas show that each opener returns the frames that the matching builder protected, that Initial datagrams
  reach 1200 bytes, and that application data is delivered with its packet number recovered.
\<close>

section \<open>initial.c\<close>

abbreviation ascii :: "string \<Rightarrow> bytes" where
  "ascii s \<equiv> map of_char s"

definition INITIAL_SALT :: bytes where
  "INITIAL_SALT = concat [[0x38, 0x76, 0x2c, 0xf7, 0xf5, 0x59, 0x34],
                          [0xb3, 0x4d, 0x17, 0x9a, 0xe6, 0xa4, 0xc8],
                          [0x0c, 0xad, 0xcc, 0xbb, 0x7f, 0x0a]]"

definition derive_field :: "bytes \<Rightarrow> bytes \<Rightarrow> usz \<Rightarrow> bytes \<Rightarrow> usz \<Rightarrow> bytes" where
  "derive_field secret label label_len out len =
     (case quic_hkdf_expand_label secret label label_len [] 0 out len of Some okm \<Rightarrow> okm | None \<Rightarrow> out)"

definition derive_keys :: "bytes \<Rightarrow> quic_initial_keys \<Rightarrow> quic_initial_keys" where
  "derive_keys secret out =
     \<lparr>ik_key = derive_field secret (ascii ''quic key'') 8 (ik_key out) 16,
      ik_iv = derive_field secret (ascii ''quic iv'') 7 (ik_iv out) 12,
      ik_hp = derive_field secret (ascii ''quic hp'') 7 (ik_hp out) 16\<rparr>"

definition quic_initial_derive :: "bytes \<Rightarrow> usz \<Rightarrow> bool \<Rightarrow> quic_initial_keys \<Rightarrow> quic_initial_keys" where
  "quic_initial_derive dcid dcid_len is_server out =
     (let label = if is_server then ascii ''server in'' else ascii ''client in'';
          initial_secret = quic_hkdf_extract INITIAL_SALT 20 dcid dcid_len;
          side_secret = derive_field initial_secret label 9 (replicate 32 0) 32
      in derive_keys side_secret out)"

section \<open>txpacket.c\<close>

definition QUIC_TX_PN_LEN :: u8 where "QUIC_TX_PN_LEN = 4"

definition quic_tx_packet ::
    "quic_initial_keys \<Rightarrow> quic_aes128 \<Rightarrow> u8 \<Rightarrow> bytes \<Rightarrow> u8 \<Rightarrow> bytes \<Rightarrow> u8 \<Rightarrow> bool \<Rightarrow> bytes \<Rightarrow> usz \<Rightarrow> u64 \<Rightarrow> bytes \<Rightarrow> usz \<Rightarrow> bytes \<Rightarrow> usz \<Rightarrow>
     usz \<times> bytes" where
  "quic_tx_packet keys hp byte0 dcid dcid_len scid scid_len is_initial token token_len pn frames frames_len out cap =
     (case quic_lhdr_build byte0 1 dcid dcid_len scid scid_len is_initial token token_len frames_len pn QUIC_TX_PN_LEN
             (replicate 104 0) 104 of (w, hdr) \<Rightarrow>
        if w = 0 then (0, out)
        else quic_protect_seal keys hp hdr w (w - 4) 4 pn frames frames_len out cap)"

section \<open>vpn\_open.c\<close>

definition pn_len_of :: "u8 \<Rightarrow> usz" where
  "pn_len_of byte0 = unat (byte0 AND 0x03) + 1"

definition read_pn :: "bytes \<Rightarrow> usz \<Rightarrow> u64" where
  "read_pn pn pn_len = fold (\<lambda>i v. push_bit 8 v OR ucast (rd pn i)) [0..<pn_len] 0"

definition region_ok :: "usz \<Rightarrow> usz \<Rightarrow> u64 \<Rightarrow> bool" where
  "region_ok len pn_off remaining \<longleftrightarrow>
     (let sample = quic_hp_sample_offset pn_off
      in if \<not> quic_hp_sample_ok len sample then False
         else unat remaining \<ge> 4 + 16 \<and> unat remaining \<le> usz_sub len pn_off)"

definition remove_hp :: "quic_aes128 \<Rightarrow> bytes \<Rightarrow> usz \<Rightarrow> u64 \<times> usz \<times> bytes" where
  "remove_hp hp pkt pn_off =
     (let msk = quic_hp_mask hp (drop (quic_hp_sample_offset pn_off) pkt);
          pkt = pkt[0 := rd pkt 0 XOR (rd msk 0 AND QUIC_HP_LONG_MASK)];
          pn_len = pn_len_of (rd pkt 0);
          pkt = take pn_off pkt @ quic_hp_protect_pn (drop pn_off pkt) pn_len msk
      in (read_pn (drop pn_off pkt) pn_len, pn_len, pkt))"

definition vpn_aead_open :: "quic_initial_keys \<Rightarrow> bytes \<Rightarrow> usz \<Rightarrow> usz \<Rightarrow> u64 \<Rightarrow> bool \<times> bytes" where
  "vpn_aead_open keys pkt hdr_len ct_len pn =
     (let nonce = quic_protect_nonce (ik_iv keys) pn;
          aead = quic_aes128_init (ik_key keys);
          (ok, body) = quic_gcm_open aead nonce pkt hdr_len (drop hdr_len pkt) ct_len (drop (usz_add hdr_len ct_len) pkt) (drop hdr_len pkt)
      in (ok, take hdr_len pkt @ body))"

definition quic_vpn_open ::
    "quic_initial_keys \<Rightarrow> quic_aes128 \<Rightarrow> bytes \<Rightarrow> usz \<Rightarrow> usz \<Rightarrow> u64 \<Rightarrow> (bytes \<times> usz) option \<times> bytes" where
  "quic_vpn_open keys hp pkt len pn_off remaining =
     (if \<not> region_ok len pn_off remaining then (None, pkt)
      else case remove_hp hp pkt pn_off of (pn, pn_len, pkt) \<Rightarrow>
        let hdr_len = usz_add pn_off pn_len;
            ct_len = usz_sub (usz_sub (unat remaining) pn_len) 16;
            (ok, pkt) = vpn_aead_open keys pkt hdr_len ct_len pn
        in if \<not> ok then (None, pkt) else (Some (take ct_len (drop hdr_len pkt), ct_len), pkt))"

section \<open>rxpacket.c\<close>

definition quic_rx_packet ::
    "quic_initial_keys \<Rightarrow> quic_aes128 \<Rightarrow> bytes \<Rightarrow> usz \<Rightarrow> bool \<Rightarrow> quic_header \<Rightarrow> (bytes \<times> usz) option \<times> bytes" where
  "quic_rx_packet keys hp pkt pkt_len is_initial h =
     (case quic_lhdr_parse pkt pkt_len is_initial h of
        None \<Rightarrow> (None, pkt)
      | Some v \<Rightarrow> quic_vpn_open keys hp pkt pkt_len (lv_pn_off v) (lv_length v))"

section \<open>initkeys.c, initpkt.c, initopen.c\<close>

definition quic_initpkt_derive :: "bytes \<Rightarrow> u8 \<Rightarrow> quic_initial_keys \<Rightarrow> quic_initial_keys \<Rightarrow> quic_initial_keys \<times> quic_initial_keys" where
  "quic_initpkt_derive dcid dcid_len client_keys server_keys =
     (quic_initial_derive dcid (unat dcid_len) False client_keys, quic_initial_derive dcid (unat dcid_len) True server_keys)"

definition no_keys :: quic_initial_keys where
  "no_keys = \<lparr>ik_key = replicate 16 0, ik_iv = replicate 12 0, ik_hp = replicate 16 0\<rparr>"

definition pad_target :: "u8 \<Rightarrow> u8 \<Rightarrow> usz" where
  "pad_target dcid_len scid_len =
     (let overhead = 30 + unat dcid_len + unat scid_len in if overhead < 1200 then 1200 - overhead else 0)"

definition initpkt_min_usz :: "usz \<Rightarrow> usz \<Rightarrow> usz" where
  "initpkt_min_usz a b = (if a < b then a else b)"

definition build_payload :: "bytes \<Rightarrow> usz \<Rightarrow> usz \<Rightarrow> bytes \<Rightarrow> usz \<Rightarrow> usz option \<times> bytes" where
  "build_payload crypto_payload payload_len target buf cap =
     (let fill = initpkt_min_usz target cap
      in case quic_crypto_stream_emit crypto_payload payload_len 0 payload_len buf cap of (ok, buf, n) \<Rightarrow>
           if \<not> ok then (None, buf)
           else (Some (if n < fill then fill else n), overwrite buf n (replicate (fill - n) 0)))"

definition quic_initpkt_build ::
    "bytes \<Rightarrow> u8 \<Rightarrow> bytes \<Rightarrow> u8 \<Rightarrow> bytes \<Rightarrow> usz \<Rightarrow> u64 \<Rightarrow> bytes \<Rightarrow> usz \<Rightarrow> usz option \<times> bytes" where
  "quic_initpkt_build dcid dcid_len scid scid_len crypto_payload payload_len pn out cap =
     (let (ck, sk) = quic_initpkt_derive dcid dcid_len no_keys no_keys;
          hp = quic_aes128_init (ik_hp ck)
      in case build_payload crypto_payload payload_len (pad_target dcid_len scid_len) (replicate 1200 0) 1200 of
           (None, payload) \<Rightarrow> (None, out)
         | (Some plen, payload) \<Rightarrow>
             (case quic_tx_packet ck hp 0xc3 dcid dcid_len scid scid_len True [] 0 pn payload plen out cap of (tot, out) \<Rightarrow>
                if tot = 0 then (None, out) else (Some tot, out)))"

definition quic_initpkt_open :: "bytes \<Rightarrow> u8 \<Rightarrow> bytes \<Rightarrow> usz \<Rightarrow> quic_header \<Rightarrow> (bytes \<times> usz) option \<times> bytes" where
  "quic_initpkt_open dcid dcid_len pkt len h =
     (let (ck, sk) = quic_initpkt_derive dcid dcid_len no_keys no_keys;
          hp = quic_aes128_init (ik_hp ck)
      in quic_rx_packet ck hp pkt len True h)"

section \<open>hspkt\_build.c and hspkt\_open.c\<close>

definition QUIC_HSPKT_BYTE0 :: u8 where "QUIC_HSPKT_BYTE0 = 0xe3"

definition quic_hspkt_build ::
    "quic_initial_keys \<Rightarrow> quic_aes128 \<Rightarrow> bytes \<Rightarrow> u8 \<Rightarrow> bytes \<Rightarrow> u8 \<Rightarrow> u64 \<Rightarrow> bytes \<Rightarrow> usz \<Rightarrow> bytes \<Rightarrow> usz \<Rightarrow> usz option \<times> bytes" where
  "quic_hspkt_build hs_keys hp dcid dcid_len scid scid_len pn payload payload_len out cap =
     (case quic_tx_packet hs_keys hp QUIC_HSPKT_BYTE0 dcid dcid_len scid scid_len False [] 0 pn payload payload_len out cap of (tot, out) \<Rightarrow>
        if tot = 0 then (None, out) else (Some tot, out))"

definition quic_hspkt_open :: "quic_initial_keys \<Rightarrow> quic_aes128 \<Rightarrow> bytes \<Rightarrow> usz \<Rightarrow> quic_header \<Rightarrow> (bytes \<times> usz) option \<times> bytes" where
  "quic_hspkt_open hs_keys hp pkt len h =
     (case quic_lhdr_parse pkt len False h of
        None \<Rightarrow> (None, pkt)
      | Some v \<Rightarrow> quic_vpn_open hs_keys hp pkt len (lv_pn_off v) (lv_length v))"

section \<open>unprotect.c and onertt.c\<close>

definition aead_open :: "quic_initial_keys \<Rightarrow> bytes \<Rightarrow> usz \<Rightarrow> usz \<Rightarrow> u64 \<Rightarrow> bool \<times> bytes" where
  "aead_open keys pkt hdr_len ct_len pn =
     (let nonce = quic_protect_nonce (ik_iv keys) pn;
          aead = quic_aes128_init (ik_key keys);
          (ok, body) = quic_gcm_open aead nonce pkt hdr_len (drop hdr_len pkt) ct_len (drop (usz_add hdr_len ct_len) pkt) (drop hdr_len pkt)
      in (ok, take hdr_len pkt @ body))"

definition open_pkt :: "quic_initial_keys \<Rightarrow> bytes \<Rightarrow> usz \<Rightarrow> usz \<Rightarrow> bytes \<Rightarrow> u64 \<Rightarrow> (bytes \<times> usz) option \<times> bytes" where
  "open_pkt keys pkt len pn_off msk largest_pn =
     (let pn_len = unat (rd pkt 0 AND 0x03) + 1;
          hdr_len = usz_add pn_off pn_len;
          pkt = take pn_off pkt @ quic_hp_protect_pn (drop pn_off pkt) pn_len msk
      in if len \<le> usz_add hdr_len 16 then (None, pkt)
         else let ct_len = usz_sub (usz_sub len hdr_len) 16;
                  (ok, pkt) = aead_open keys pkt hdr_len ct_len (quic_pnum_decode (drop pn_off pkt) pn_len largest_pn)
              in if \<not> ok then (None, pkt) else (Some (take ct_len (drop hdr_len pkt), ct_len), pkt))"

definition quic_hspkt_unprotect ::
    "quic_initial_keys \<Rightarrow> quic_aes128 \<Rightarrow> bytes \<Rightarrow> usz \<Rightarrow> usz \<Rightarrow> usz \<Rightarrow> u8 \<Rightarrow> u64 \<Rightarrow> (bytes \<times> usz) option \<times> bytes" where
  "quic_hspkt_unprotect keys hp pkt len hdr_len pn_off bits_mask largest_pn =
     (if len \<le> usz_add hdr_len 16 then (None, pkt)
      else let msk = quic_hp_mask hp (drop (pn_off + 4) pkt);
               pkt = pkt[0 := rd pkt 0 XOR (rd msk 0 AND bits_mask)]
           in open_pkt keys pkt len pn_off msk largest_pn)"

definition QUIC_ONERTT_BYTE0 :: u8 where "QUIC_ONERTT_BYTE0 = 0x43"

definition build_short_header :: "bytes \<Rightarrow> bytes \<Rightarrow> u8 \<Rightarrow> u64 \<Rightarrow> usz \<times> bytes" where
  "build_short_header hdr dcid dcid_len pn =
     (5 + unat dcid_len,
      overwrite hdr 0 (QUIC_ONERTT_BYTE0 # take (unat dcid_len) dcid @ map (\<lambda>i. ucast (drop_bit (8 * (3 - i)) pn)) [0..<4]))"

definition quic_hspkt_onertt_build ::
    "quic_initial_keys \<Rightarrow> quic_aes128 \<Rightarrow> bytes \<Rightarrow> u8 \<Rightarrow> u64 \<Rightarrow> bytes \<Rightarrow> usz \<Rightarrow> bytes \<Rightarrow> usz \<Rightarrow> usz option \<times> bytes" where
  "quic_hspkt_onertt_build keys hp dcid dcid_len pn payload payload_len out cap =
     (let (hdr_len, out) = build_short_header out dcid dcid_len pn;
          pn_off = 1 + unat dcid_len;
          need = usz_add (usz_add hdr_len payload_len) 16
      in if need > cap then (None, out)
         else let nonce = quic_protect_nonce (ik_iv keys) pn;
                  aead = quic_aes128_init (ik_key keys);
                  (ct, tag) = quic_gcm_seal aead nonce out hdr_len payload payload_len (drop hdr_len out);
                  out = overwrite (take hdr_len out @ ct) (hdr_len + payload_len) tag;
                  msk = quic_hp_mask hp (drop (pn_off + 4) out)
              in (Some need, quic_hp_apply msk out pn_off 4 QUIC_HP_SHORT_MASK))"

definition quic_hspkt_onertt_open ::
    "quic_initial_keys \<Rightarrow> quic_aes128 \<Rightarrow> bytes \<Rightarrow> usz \<Rightarrow> u8 \<Rightarrow> u64 \<Rightarrow> (bytes \<times> usz) option \<times> bytes" where
  "quic_hspkt_onertt_open keys hp pkt len dcid_len largest_pn =
     (let hdr_len = 5 + unat dcid_len; pn_off = 1 + unat dcid_len
      in quic_hspkt_unprotect keys hp pkt len hdr_len pn_off QUIC_HP_SHORT_MASK largest_pn)"

section \<open>pktbuild\<close>

definition eliciting_non_kinds :: bytes where
  "eliciting_non_kinds = [0x00, 0x02, 0x03, 0x1c, 0x1d]"

definition is_non_eliciting :: "u8 \<Rightarrow> bool" where
  "is_non_eliciting t \<longleftrightarrow> list_ex (\<lambda>k. k = t) eliciting_non_kinds"

definition quic_pktbuild_is_eliciting :: "bytes \<Rightarrow> usz \<Rightarrow> bool" where
  "quic_pktbuild_is_eliciting frame_types n \<longleftrightarrow> list_ex (\<lambda>i. \<not> is_non_eliciting (rd frame_types i)) [0..<n]"

fun framepack_loop :: "bytes \<Rightarrow> usz \<Rightarrow> usz \<Rightarrow> (bytes \<times> usz) list \<Rightarrow> usz option \<times> bytes" where
  "framepack_loop payload cap off [] = (Some off, payload)"
| "framepack_loop payload cap off ((f, l) # fs) =
     (case quic_put_bytes payload cap off f l of (ok, payload, off) \<Rightarrow>
        if \<not> ok then (None, payload) else framepack_loop payload cap off fs)"

definition quic_pktbuild_framepack :: "bytes \<Rightarrow> usz \<Rightarrow> bytes list \<Rightarrow> usz list \<Rightarrow> usz \<Rightarrow> usz option \<times> bytes" where
  "quic_pktbuild_framepack payload cap frames frame_lens n_frames =
     framepack_loop payload cap 0 (take n_frames (zip frames frame_lens))"

definition pad_fits :: "usz \<Rightarrow> usz \<Rightarrow> usz \<Rightarrow> bool" where
  "pad_fits current_len need cap \<longleftrightarrow> need \<noteq> 0 \<and> usz_add current_len need \<le> cap"

definition quic_pktbuild_init_pad :: "bytes \<Rightarrow> usz \<Rightarrow> usz \<Rightarrow> usz \<times> bytes" where
  "quic_pktbuild_init_pad datagram current_len cap =
     (let need = quic_pad_needed current_len
      in if \<not> pad_fits current_len need cap then (current_len, datagram)
         else (current_len + need, overwrite datagram current_len (replicate need 0)))"

section \<open>app\_send.c, app\_recv.c\<close>

definition quic_appdata_send ::
    "quic_initial_keys \<Rightarrow> quic_aes128 \<Rightarrow> bytes \<Rightarrow> u8 \<Rightarrow> u64 \<Rightarrow> u64 \<Rightarrow> bytes \<Rightarrow> usz \<Rightarrow> bool \<Rightarrow> bytes \<Rightarrow> usz \<Rightarrow> usz option \<times> bytes" where
  "quic_appdata_send app_keys hp dcid dcid_len pn stream_id data len fin out cap =
     (case quic_appdata_stream_frame stream_id 0 data len fin (replicate 1500 0) 1500 of
        (None, frame) \<Rightarrow> (None, out)
      | (Some flen, frame) \<Rightarrow> quic_hspkt_onertt_build app_keys hp dcid dcid_len pn frame flen out cap)"

definition open_and_decode ::
    "quic_initial_keys \<Rightarrow> quic_aes128 \<Rightarrow> bytes \<Rightarrow> usz \<Rightarrow> u8 \<Rightarrow> quic_stream_frame option \<times> bytes" where
  "open_and_decode app_keys hp pkt len dcid_len =
     (case quic_hspkt_onertt_open app_keys hp pkt len dcid_len 0 of
        (None, pkt) \<Rightarrow> (None, pkt)
      | (Some (payload, plen), pkt) \<Rightarrow>
          if plen = 0 then (None, pkt)
          else (case quic_frame_get_stream payload plen of None \<Rightarrow> None | Some (f, n) \<Rightarrow> if n = 0 then None else Some f, pkt))"

definition quic_appdata_recv ::
    "quic_initial_keys \<Rightarrow> quic_aes128 \<Rightarrow> bytes \<Rightarrow> usz \<Rightarrow> u8 \<Rightarrow> (u64 \<times> u64 \<times> bytes \<times> u64 \<times> bool) option \<times> bytes" where
  "quic_appdata_recv app_keys hp pkt len dcid_len =
     (case open_and_decode app_keys hp pkt len dcid_len of
        (None, pkt) \<Rightarrow> (None, pkt)
      | (Some f, pkt) \<Rightarrow> (Some (sf_stream_id f, sf_offset f, sf_data f, sf_length f, sf_fin f \<noteq> 0), pkt))"

section \<open>Long-header packets\<close>

lemma protect_seal_take:
  assumes "hdr_len \<le> length hdr" "payload_len \<le> length payload" "cap \<le> length out" "hdr_len + payload_len + 16 < 2 ^ 64"
  shows "quic_protect_seal keys hp hdr hdr_len pn_off pn_len pn payload payload_len out cap =
    quic_protect_seal keys hp (take hdr_len hdr) hdr_len pn_off pn_len pn (take payload_len payload) payload_len out cap"
proof (cases "hdr_len + payload_len + 16 > cap")
  case False
  have "quic_gcm_seal a nonce hdr hdr_len payload payload_len x = quic_gcm_seal a nonce (take hdr_len hdr) hdr_len (take payload_len payload) payload_len x"
    if "payload_len \<le> length x" for a nonce x
    using gcm.seal_eq[OF assms(1,2) that] gcm.seal_eq[of hdr_len "take hdr_len hdr" payload_len "take payload_len payload" x] assms(1,2) that by simp
  then show ?thesis using False assms by (simp add: quic_protect_seal_def seal_into_def Let_def)
qed (use assms(4) in \<open>simp add: quic_protect_seal_def seal_into_def\<close>)

definition tx_header :: "u8 \<Rightarrow> bytes \<Rightarrow> bytes \<Rightarrow> bool \<Rightarrow> bytes \<Rightarrow> usz \<Rightarrow> u64 \<Rightarrow> bytes" where
  "tx_header byte0 dcid scid is_initial token frames_len pn = lhdr_wire byte0 1 dcid scid is_initial token frames_len pn 4"

definition tx_ok :: "bytes \<Rightarrow> bytes \<Rightarrow> bytes \<Rightarrow> usz \<Rightarrow> bool" where
  "tx_ok dcid scid token frames_len \<longleftrightarrow> length dcid \<le> 20 \<and> length scid \<le> 20 \<and> length token \<le> 32 \<and> frames_len < 2 ^ 30"

lemma remaining_unat: "n < 2 ^ 30 \<Longrightarrow> unat (lhdr_remaining n 4) = n + 20"
  by (simp add: lhdr_remaining_def unat_word_ariths unat_of_nat)

lemma remaining_max: "n < 2 ^ 30 \<Longrightarrow> lhdr_remaining n 4 \<le> QUIC_VARINT_MAX"
  using remaining_unat[of n] by (simp add: varint_max_unat)

lemma length_tx_header:
  assumes "tx_ok dcid scid token n"
  shows "11 \<le> length (tx_header byte0 dcid scid is_initial token n pn)" "length (tx_header byte0 dcid scid is_initial token n pn) \<le> 104"
proof -
  have t: "unat (of_nat (length token) :: u64) = length token" using assms by (simp add: tx_ok_def unat_of_nat)
  have v: "quic_varint_len v \<le> 8" for v by (simp add: varint_len_unat)
  have "unat (of_nat (length dcid) :: u8) = length dcid" "unat (of_nat (length scid) :: u8) = length scid" using assms by (simp_all add: tx_ok_def unat_of_nat)
  moreover have "length (token_wire is_initial token) \<le> 9 + length token"
    using v[of "of_nat (length token)"] by (simp add: token_wire_def)
  ultimately show "11 \<le> length (tx_header byte0 dcid scid is_initial token n pn)" "length (tx_header byte0 dcid scid is_initial token n pn) \<le> 104"
    using assms v[of "lhdr_remaining n 4"] by (simp_all add: tx_header_def lhdr_wire_def invariant_wire_def cid_wire_def tx_ok_def)
qed

lemma tx_packet_eq:
  fixes pn :: u64 and is_initial :: bool and byte0 :: u8
  assumes "tx_ok dcid scid token frames_len" "frames_len \<le> length frames" "cap \<le> length out"
  defines "hdr \<equiv> tx_header byte0 dcid scid is_initial token frames_len pn"
  shows "quic_tx_packet keys hp byte0 dcid (of_nat (length dcid)) scid (of_nat (length scid)) is_initial token (length token) pn frames frames_len out cap =
    (if length hdr + frames_len + 16 > cap then (0, out)
     else (length hdr + frames_len + 16, overwrite out 0 (aesp.wire keys hp QUIC_HP_LONG_MASK hdr (length hdr - 4) pn (take frames_len frames))))"
proof -
  note l = length_tx_header[OF assms(1), of byte0 is_initial pn, folded hdr_def]
  have ok: "length dcid \<le> 20" "length scid \<le> 20" "length token < 2 ^ 62" "frames_len < 2 ^ 30" using assms(1) by (simp_all add: tx_ok_def)
  have b: "quic_lhdr_build byte0 1 dcid (of_nat (length dcid)) scid (of_nat (length scid)) is_initial token (length token) frames_len pn QUIC_TX_PN_LEN
      (replicate 104 0) 104 = (length hdr, overwrite (replicate 104 0) 0 hdr)"
    using lhdr_build_eq(1)[OF ok(1-3), of 104 "replicate 104 0" frames_len 4 byte0 1 is_initial pn] l(2) remaining_max[OF ok(4)]
    by (simp add: hdr_def tx_header_def QUIC_TX_PN_LEN_def)
  have t: "take (length hdr) (overwrite (replicate 104 0) 0 hdr) = hdr" by (simp add: overwrite_0)
  have "length hdr \<noteq> 0" using l by linarith
  then have "quic_tx_packet keys hp byte0 dcid (of_nat (length dcid)) scid (of_nat (length scid)) is_initial token (length token) pn frames frames_len out cap =
      quic_protect_seal keys hp hdr (length hdr) (length hdr - 4) 4 pn (take frames_len frames) frames_len out cap"
    using protect_seal_take[of "length hdr" "overwrite (replicate 104 0) 0 hdr" frames_len frames cap out keys hp "length hdr - 4" 4 pn] l ok(4) assms(2,3)
    by (simp add: quic_tx_packet_def b t)
  also have "\<dots> = (if length hdr + frames_len + 16 > cap then (0, out)
     else (length hdr + frames_len + 16, overwrite out 0 (aesp.wire keys hp QUIC_HP_LONG_MASK hdr (length hdr - 4) pn (take frames_len frames))))"
    using protect_seal_eq[of "length hdr - 4" hdr "take frames_len frames" cap out keys hp pn] l ok(4) assms(2,3) by simp
  finally show ?thesis .
qed

lemma vpn_open_wire:
  assumes "0 < pn_off" "length hdr = pn_off + n" "unat (hdr ! 0 AND 0x03) + 1 = n" "n \<le> 4"
    and "drop pn_off hdr = be_bytes n (unat pn)" "unat pn < 256 ^ n" "4 \<le> n + length payload"
    and "unat remaining = n + length payload + 16" "pn_off + n + length payload + 16 \<le> len" "len < 2 ^ 63"
  shows "\<exists>tag. length tag = 16 \<and> quic_vpn_open keys hp (aesp.wire keys hp QUIC_HP_LONG_MASK hdr pn_off pn payload @ rest) len pn_off remaining
    = (Some (payload, length payload), hdr @ payload @ tag @ rest)"
proof -
  define k where "k = aesp.wire keys hp QUIC_HP_LONG_MASK hdr pn_off pn payload @ rest"
  let ?b = "aesp.body keys hdr pn payload"
  have c: "0 < pn_off" "pn_off \<le> length hdr" "length hdr \<le> pn_off + 4" "pn_off + 4 \<le> length hdr + length payload" using assms by simp_all
  have r: "region_ok len pn_off remaining" using assms(4,7-10) by (simp add: region_ok_def quic_hp_sample_offset_def quic_hp_sample_ok_def)
  have so: "quic_hp_sample_offset pn_off = pn_off + 4" using assms(9,10) by (simp add: quic_hp_sample_offset_def)
  note u = aesp.wire_unmasked[OF c, where keys = keys and hp = hp and pn = pn and bits = QUIC_HP_LONG_MASK and rest = rest, folded k_def]
  have l: "length hdr - pn_off = n" using assms(2) by simp
  have pn: "read_pn (drop pn_off (hdr @ ?b @ rest)) n = pn"
    using fold_be_val[of 0 n "drop pn_off (hdr @ ?b @ rest)"] assms(2,5,6) by (simp add: read_pn_def be_val_be_bytes)
  have h: "remove_hp hp k pn_off = (pn, n, hdr @ ?b @ rest)"
    by (simp only: remove_hp_def so Let_def u(1) pn_len_of_def assms(3) u(2)[unfolded l] pn)
  have "quic_vpn_open keys hp k len pn_off remaining = (Some (payload, length payload), hdr @ payload
      @ gcm_tag_of (quic_aes128_init (ik_key keys)) (quic_protect_nonce (ik_iv keys) pn) hdr
         (gcm_crypt (quic_aes128_init (ik_key keys)) (quic_protect_nonce (ik_iv keys) pn) payload) @ rest)"
    using aes_open_body(1)[where keys = keys and hdr = hdr and payload = payload and pn = pn and rest = rest] assms(2,8-10)
    by (simp add: quic_vpn_open_def r h vpn_aead_open_def Let_def)
  then show ?thesis unfolding k_def by (meson gcm.tag_len)
qed

lemma long_mask_stable: "b AND 0x80 \<noteq> 0 \<Longrightarrow> (b XOR (x AND QUIC_HP_LONG_MASK)) AND 0x80 \<noteq> 0"
  by (simp add: QUIC_HP_LONG_MASK_def bit.conj_xor_distrib2 and.assoc)

lemma rx_packet_wire:
  fixes is_initial :: bool and keys :: quic_initial_keys and hp :: quic_aes128 and rest :: bytes
  assumes ok: "tx_ok dcid scid token (length frames)" and long: "byte0 AND 0x80 \<noteq> 0" and pn: "unat pn < 2 ^ 32"
    and h: "length (h_dcid h) = 20" "length (h_scid h) = 20"
  defines "hdr \<equiv> tx_header byte0 dcid scid is_initial token (length frames) pn"
  defines "pkt \<equiv> aesp.wire keys hp QUIC_HP_LONG_MASK hdr (length hdr - 4) pn frames"
  assumes len: "length pkt \<le> len" "len \<le> length (pkt @ rest)" "len < 2 ^ 63"
  shows "\<exists>tag. length tag = 16 \<and> quic_rx_packet keys hp (pkt @ rest) len is_initial h = (Some (frames, length frames), hdr @ frames @ tag @ rest)"
proof -
  note l = length_tx_header[OF ok, of byte0 is_initial pn, folded hdr_def]
  have c: "0 < length hdr - 4" "length hdr - 4 \<le> length hdr" "length hdr \<le> length hdr - 4 + 4" "length hdr - 4 + 4 \<le> length hdr + length frames"
    using l by simp_all
  let ?d = "of_nat (length dcid) :: u8" and ?s = "of_nat (length scid) :: u8" and ?rem = "lhdr_remaining (length frames) 4"
  let ?i = "\<lambda>b. invariant_wire b 1 dcid ?d scid ?s" and ?b0 = "quic_lhdr_byte0_pnlen byte0 4"
  define f where "f = token_wire is_initial token @ varint_wire ?rem"
  have hd: "hdr = ?i ?b0 @ f @ be_bytes 4 (unat pn)" by (simp add: hdr_def tx_header_def lhdr_wire_def f_def)
  define T where "T = tl (?i ?b0)"
  have i0: "?i b = b # T" for b by (simp add: T_def invariant_wire_def)
  have ol: "length hdr - 4 = length (?i ?b0 @ f)" by (simp add: hd)
  have h0: "hdr ! 0 = ?b0" unfolding hd i0 by simp
  have "take (length hdr - 4 - 1) (tl hdr) = T @ f"
  proof -
    have "tl hdr = T @ f @ be_bytes 4 (unat pn)" unfolding hd i0 by simp
    then show ?thesis unfolding ol i0 by simp
  qed
  then obtain b x where pk: "pkt = (?b0 XOR (b AND QUIC_HP_LONG_MASK)) # (T @ f) @ x"
    using aesp.wire_parts(1)[OF c, where keys = keys and hp = hp and pn = pn and bits = QUIC_HP_LONG_MASK] unfolding pkt_def[symmetric] h0 by metis
  have pl: "length pkt = length hdr + length frames + 16"
    using aesp.wire_parts(2)[OF c, where keys = keys and hp = hp and pn = pn and bits = QUIC_HP_LONG_MASK] by (simp add: pkt_def)
  let ?b = "?b0 XOR (b AND QUIC_HP_LONG_MASK)"
  have pk': "pkt @ rest = ?i ?b @ token_wire is_initial token @ varint_wire ?rem @ x @ rest"
    unfolding pk i0 by (simp add: f_def)
  have ok': "length dcid \<le> 20" "length scid \<le> 20" "length token < 2 ^ 62" "length frames < 2 ^ 30" using ok by (simp_all add: tx_ok_def)
  have n: "length (?i ?b @ token_wire is_initial token @ varint_wire ?rem) \<le> len"
      "len \<le> length (?i ?b @ token_wire is_initial token @ varint_wire ?rem @ x @ rest)"
    using len(1,2) pl ol unfolding pk'[symmetric] f_def by (simp_all add: i0)
  have "quic_lhdr_parse (pkt @ rest) len is_initial h = Some \<lparr>lv_dcid = dcid, lv_dcid_len = ?d, lv_scid = scid, lv_scid_len = ?s,
      lv_token = (if is_initial then token else []), lv_token_len = (if is_initial then length token else 0), lv_length = ?rem, lv_pn_off = length hdr - 4\<rparr>"
    using lhdr_parse_fields[OF ok'(1-3) remaining_max[OF ok'(4)] long_mask_stable[OF byte0_pnlen_long[OF long]] h n len(3)]
    unfolding pk' ol by (simp add: i0 f_def)
  moreover have "\<exists>tag. length tag = 16 \<and> quic_vpn_open keys hp (pkt @ rest) len (length hdr - 4) ?rem = (Some (frames, length frames), hdr @ frames @ tag @ rest)"
    unfolding pkt_def
  proof (rule vpn_open_wire[OF c(1)])
    show "length hdr = length hdr - 4 + 4" using l by simp
    show "unat (hdr ! 0 AND 0x03) + 1 = 4"
      by (simp add: h0 quic_lhdr_byte0_pnlen_def bit.conj_disj_distrib2 and.assoc)
    show "drop (length hdr - 4) hdr = be_bytes 4 (unat pn)" unfolding ol by (simp add: hd)
    show "unat ?rem = 4 + length frames + 16" using remaining_unat[OF ok'(4)] by simp
    show "length hdr - 4 + 4 + length frames + 16 \<le> len" using l pl len(1) by simp
  qed (use pn len(3) in simp_all)
  ultimately show ?thesis by (simp add: quic_rx_packet_def)
qed

text \<open>a long-header packet (Initial with token, or Handshake) that the transmit pipeline builds is parsed, stripped of header protection
  and opened by the receive pipeline to exactly its frames, whatever follows it in the datagram; it is built exactly when
  header, frames and tag fit, and only the reported bytes of the output buffer change.\<close>

theorem long_packet_roundtrip:
  assumes "tx_ok dcid scid token (length frames)" "byte0 AND 0x80 \<noteq> 0" "unat pn < 2 ^ 32" "cap \<le> length out"
    and "length (h_dcid h) = 20" "length (h_scid h) = 20"
    and "quic_tx_packet keys hp byte0 dcid (of_nat (length dcid)) scid (of_nat (length scid)) is_initial token (length token) pn frames (length frames) out cap = (n, out')"
  shows "(n \<noteq> 0 \<longleftrightarrow> length (tx_header byte0 dcid scid is_initial token (length frames) pn) + length frames + 16 \<le> cap)
    \<and> drop n out' = drop n out
    \<and> (\<forall>rest len. n \<noteq> 0 \<and> n \<le> len \<and> len \<le> n + length rest \<and> len < 2 ^ 63 \<longrightarrow>
        fst (quic_rx_packet keys hp (take n out' @ rest) len is_initial h) = Some (frames, length frames))"
proof (cases "length (tx_header byte0 dcid scid is_initial token (length frames) pn) + length frames + 16 \<le> cap")
  case True
  let ?hdr = "tx_header byte0 dcid scid is_initial token (length frames) pn"
  let ?w = "aesp.wire keys hp QUIC_HP_LONG_MASK ?hdr (length ?hdr - 4) pn frames"
  note l = length_tx_header[OF assms(1), of byte0 is_initial pn]
  have c: "0 < length ?hdr - 4" "length ?hdr - 4 \<le> length ?hdr" "length ?hdr \<le> length ?hdr - 4 + 4" "length ?hdr - 4 + 4 \<le> length ?hdr + length frames"
    using l by simp_all
  have w: "length ?w = length ?hdr + length frames + 16" by (rule aesp.wire_parts(2)[OF c])
  have n: "n = length ?w" "out' = overwrite out 0 ?w"
    using tx_packet_eq[OF assms(1) order_refl assms(4), of keys hp byte0 is_initial pn] assms(7) True w by simp_all
  have "fst (quic_rx_packet keys hp (?w @ rest) len is_initial h) = Some (frames, length frames)"
    if "length ?w \<le> len" "len \<le> length (?w @ rest)" "len < 2 ^ 63" for rest len
    using rx_packet_wire[OF assms(1-3,5,6) that] by auto
  then show ?thesis using n True w l by (simp add: overwrite_0)
next
  case False
  then have "n = 0" "out' = out" using tx_packet_eq[OF assms(1) order_refl assms(4), of keys hp byte0 is_initial pn] assms(7) by simp_all
  then show ?thesis using False by simp
qed

theorem long_packet_roundtrip_witness:
  "\<exists>n out'. quic_tx_packet \<lparr>ik_key = replicate 16 1, ik_iv = replicate 12 2, ik_hp = replicate 16 3\<rparr> (quic_aes128_init (replicate 16 3)) 0xc3
      [8, 9] 2 [10] 1 True [5] 1 7 [1, 0] 2 (replicate 100 0) 100 = (n, out') \<and> n \<noteq> 0
    \<and> fst (quic_rx_packet \<lparr>ik_key = replicate 16 1, ik_iv = replicate 12 2, ik_hp = replicate 16 3\<rparr> (quic_aes128_init (replicate 16 3)) (take n out' @ [1, 2]) n True
         \<lparr>h_form = QUIC_FORM_LONG, h_long_type = 0, h_version = 0, h_dcid_len = 0, h_dcid = replicate 20 0, h_scid_len = 0, h_scid = replicate 20 0\<rparr>) = Some ([1, 0], 2)"
proof -
  let ?k = "\<lparr>ik_key = replicate 16 1, ik_iv = replicate 12 2, ik_hp = replicate 16 3\<rparr>" and ?hp = "quic_aes128_init (replicate 16 3)"
  let ?h = "\<lparr>h_form = QUIC_FORM_LONG, h_long_type = 0, h_version = 0, h_dcid_len = 0, h_dcid = replicate 20 0, h_scid_len = 0, h_scid = replicate 20 0\<rparr>"
  obtain n out' where e: "quic_tx_packet ?k ?hp 0xc3 [8, 9] (of_nat (length [8, 9 :: u8])) [10] (of_nat (length [10 :: u8])) True [5] (length [5 :: u8]) 7
      [1, 0] (length [1, 0 :: u8]) (replicate 100 0) 100 = (n, out')" by fastforce
  have ok: "tx_ok [8, 9] [10] [5] (length [1, 0 :: u8])" by (simp add: tx_ok_def)
  have len: "length (tx_header 0xc3 [8, 9] [10] True [5] (length [1, 0 :: u8]) 7) + length [1, 0 :: u8] + 16 \<le> 100"
    by (simp add: tx_header_def lhdr_wire_def invariant_wire_def cid_wire_def token_wire_def varint_len_unat lhdr_remaining_def)
  have p: "(0xc3 :: u8) AND 0x80 \<noteq> 0" "unat (7 :: u64) < 2 ^ 32" "100 \<le> length (replicate 100 (0 :: u8))" "length (h_dcid ?h) = 20" "length (h_scid ?h) = 20"
    by simp_all
  note r = long_packet_roundtrip[OF ok p e]
  have n: "n \<noteq> 0" using r len by blast
  have s: "n < 2 ^ 63" using tx_packet_eq[OF ok order_refl p(3), of ?k ?hp "0xc3" True 7] e len by (auto split: if_splits)
  have "fst (quic_rx_packet ?k ?hp (take n out' @ [1, 2]) n True ?h) = Some ([1, 0], length [1, 0 :: u8])"
    using r[THEN conjunct2, THEN conjunct2, rule_format, of n "[1, 2]"] n s by simp
  then show ?thesis using e n by (auto simp: numeral_2_eq_2)
qed

section \<open>1-RTT packets\<close>

definition onertt_header :: "bytes \<Rightarrow> u64 \<Rightarrow> bytes" where
  "onertt_header dcid pn = QUIC_ONERTT_BYTE0 # dcid @ be_bytes 4 (unat pn)"

lemma length_onertt_header [simp]: "length (onertt_header dcid pn) = 5 + length dcid"
  by (simp add: onertt_header_def)

lemma onertt_build_eq:
  assumes "length dcid \<le> 20" "payload_len \<le> length payload" "payload_len < 2 ^ 63" "cap \<le> length out" "5 + length dcid \<le> length out"
  defines "need \<equiv> 5 + length dcid + payload_len + 16"
  shows "quic_hspkt_onertt_build keys hp dcid (of_nat (length dcid)) pn payload payload_len out cap =
    (if need > cap then (None, overwrite out 0 (onertt_header dcid pn))
     else (Some need, overwrite out 0 (aesp.wire keys hp QUIC_HP_SHORT_MASK (onertt_header dcid pn) (1 + length dcid) pn (take payload_len payload))))"
proof -
  let ?h = "onertt_header dcid pn" and ?p = "take payload_len payload"
  have c: "0 < 1 + length dcid" "1 + length dcid \<le> length ?h" "length ?h \<le> 1 + length dcid + 4" "1 + length dcid + 4 \<le> length ?h + length ?p"
    by simp_all
  have u: "unat (of_nat (length dcid) :: u8) = length dcid" using assms(1) by (simp add: unat_of_nat)
  have "map (\<lambda>i. ucast (drop_bit (8 * (3 - i)) pn)) [0..<4] = be_bytes 4 (unat pn)"
    using pn_bytes_eq[of 4 pn] by (simp add: mult.commute)
  then have b: "build_short_header out dcid (of_nat (length dcid)) pn = (5 + length dcid, overwrite out 0 ?h)"
    by (simp add: build_short_header_def u onertt_header_def)
  show ?thesis
  proof (cases "need > cap")
    case False
    let ?a = "quic_aes128_init (ik_key keys)" and ?nc = "quic_protect_nonce (ik_iv keys) pn"
    have s: "quic_gcm_seal ?a ?nc (overwrite out 0 ?h) (5 + length dcid) payload payload_len (drop (5 + length dcid) (overwrite out 0 ?h))
       = (overwrite (drop (5 + length dcid) out) 0 (gcm_crypt ?a ?nc ?p), gcm_tag_of ?a ?nc ?h (gcm_crypt ?a ?nc ?p))"
      using gcm.seal_eq[of "5 + length dcid" "overwrite out 0 ?h" payload_len payload "drop (5 + length dcid) (overwrite out 0 ?h)" ?a ?nc] assms(2,4,5) False
      by (simp add: overwrite_0 need_def)
    have o: "overwrite (take (5 + length dcid) (overwrite out 0 ?h) @ overwrite (drop (5 + length dcid) out) 0 (gcm_crypt ?a ?nc ?p)) (5 + length dcid + payload_len)
        (gcm_tag_of ?a ?nc ?h (gcm_crypt ?a ?nc ?p)) = ?h @ aesp.body keys ?h pn ?p @ drop need out"
      using assms(2,4) False by (simp add: overwrite_def aesp.body_def need_def add.commute add.left_commute)
    have w: "length (aesp.wire keys hp QUIC_HP_SHORT_MASK ?h (1 + length dcid) pn ?p) = need"
      using aesp.wire_parts(2)[OF c, where keys = keys and hp = hp and pn = pn and bits = QUIC_HP_SHORT_MASK] assms(2) by (simp add: need_def)
    have r: "quic_hp_apply (quic_hp_mask hp (drop (1 + length dcid + 4) (?h @ aesp.body keys ?h pn ?p @ drop need out))) (?h @ aesp.body keys ?h pn ?p @ drop need out)
        (1 + length dcid) 4 QUIC_HP_SHORT_MASK = aesp.wire keys hp QUIC_HP_SHORT_MASK ?h (1 + length dcid) pn ?p @ drop need out"
      using aesp.wire_rest[OF c, where keys = keys and hp = hp and pn = pn and bits = QUIC_HP_SHORT_MASK and rest = "drop need out"] by simp
    show ?thesis using False assms(1,3) u w
      unfolding quic_hspkt_onertt_build_def b Let_def prod.case s o u r by (simp add: need_def overwrite_0)
  qed (use assms(1,3) in \<open>simp add: quic_hspkt_onertt_build_def b Let_def need_def\<close>)
qed

lemma pnum_decode_bytes:
  assumes "unat L < 2 ^ 62" "unat L + 1 < unat pn + 2 ^ 31" "unat pn \<le> unat L + 1 + 2 ^ 31"
  shows "quic_pnum_decode (be_bytes 4 (unat pn) @ rest) 4 L = pn"
proof -
  have "snd (quic_pnum_encode (be_bytes 4 (unat pn) @ rest) pn 4) = be_bytes 4 (unat pn) @ rest"
    by (simp add: quic_pnum_encode_def store_be_eq overwrite_0)
  moreover have "4 \<le> length (be_bytes 4 (unat pn) @ rest)" by simp
  ultimately show ?thesis using pnum_decode_window[of 4 "be_bytes 4 (unat pn) @ rest" L pn] assms by simp
qed

lemma onertt_open_wire:
  fixes keys :: quic_initial_keys and hp :: quic_aes128
  assumes "length dcid \<le> 20" "payload \<noteq> []" "length payload < 2 ^ 62"
    and "unat L < 2 ^ 62" "unat L + 1 < unat pn + 2 ^ 31" "unat pn \<le> unat L + 1 + 2 ^ 31"
  defines "pkt \<equiv> aesp.wire keys hp QUIC_HP_SHORT_MASK (onertt_header dcid pn) (1 + length dcid) pn payload"
  shows "fst (quic_hspkt_onertt_open keys hp (pkt @ rest) (length pkt) (of_nat (length dcid)) L) = Some (payload, length payload)"
proof -
  let ?h = "onertt_header dcid pn"
  define k where "k = pkt @ rest"
  have c: "0 < 1 + length dcid" "1 + length dcid \<le> length ?h" "length ?h \<le> 1 + length dcid + 4" "1 + length dcid + 4 \<le> length ?h + length payload"
    by simp_all
  have ud: "unat (of_nat (length dcid) :: u8) = length dcid" using assms(1) by (simp add: unat_of_nat)
  note u = aesp.wire_unmasked[OF c, where keys = keys and hp = hp and pn = pn and bits = QUIC_HP_SHORT_MASK and rest = rest, folded pkt_def, folded k_def]
  have l: "length ?h - (1 + length dcid) = 4" by simp
  have n: "unat (?h ! 0 AND 0x03) + 1 = 4" by (simp add: onertt_header_def QUIC_ONERTT_BYTE0_def)
  have pl: "length pkt = length dcid + 5 + length payload + 16"
    using aesp.wire_parts(2)[OF c, where keys = keys and hp = hp and pn = pn and bits = QUIC_HP_SHORT_MASK] by (simp add: pkt_def)
  have len: "\<not> length pkt \<le> usz_add (5 + length dcid) 16" "\<not> length pkt \<le> usz_add (usz_add (1 + length dcid) 4) 16"
    "usz_sub (usz_sub (length pkt) (usz_add (1 + length dcid) 4)) 16 = length payload" "usz_add (1 + length dcid) 4 = length ?h"
    "usz_sub (usz_sub (length pkt) (5 + length dcid)) 16 = length payload"
    using assms(1-3) pl by (auto simp: neq_Nil_conv)
  have pd: "quic_pnum_decode (drop (1 + length dcid) (?h @ aesp.body keys ?h pn payload @ rest)) 4 L = pn"
    using pnum_decode_bytes[OF assms(4-6), of "aesp.body keys ?h pn payload @ rest"] by (simp add: onertt_header_def)
  have "usz_add (length ?h) (length payload) = length ?h + length payload" using assms(1,3) by simp
  note o = aes_open_body(1)[where keys = keys and hdr = ?h and payload = payload and pn = pn and rest = rest]
  show ?thesis
    unfolding k_def[symmetric] quic_hspkt_onertt_open_def Let_def ud quic_hspkt_unprotect_def open_pkt_def u(1) n len(1) u(2)[unfolded l] len pd aead_open_def
    using o \<open>usz_add (length ?h) (length payload) = _\<close> len(1,2,5) by (simp add: len(4))
qed

text \<open>a 1-RTT packet is built exactly when it fits; opened by a receiver whose largest packet number is
  within half the 32-bit window of the sent one, it yields exactly its payload: the packet number is recovered from its four bytes and
  used for the nonce. The header is written before the capacity is checked.\<close>

theorem onertt_packet_roundtrip:
  assumes "length dcid \<le> 20" "payload \<noteq> []" "length payload < 2 ^ 62" "cap \<le> length out" "5 + length dcid \<le> length out"
    and "quic_hspkt_onertt_build keys hp dcid (of_nat (length dcid)) pn payload (length payload) out cap = (r, out')"
  shows "(r = (if 5 + length dcid + length payload + 16 \<le> cap then Some (5 + length dcid + length payload + 16) else None))
    \<and> (r = None \<longrightarrow> take (5 + length dcid) out' = onertt_header dcid pn)
    \<and> (\<forall>n rest L. r = Some n \<and> unat L < 2 ^ 62 \<and> unat L + 1 < unat pn + 2 ^ 31 \<and> unat pn \<le> unat L + 1 + 2 ^ 31 \<longrightarrow>
        fst (quic_hspkt_onertt_open keys hp (take n out' @ rest) n (of_nat (length dcid)) L) = Some (payload, length payload))"
proof -
  let ?h = "onertt_header dcid pn"
  let ?w = "aesp.wire keys hp QUIC_HP_SHORT_MASK ?h (1 + length dcid) pn payload"
  have c: "0 < 1 + length dcid" "1 + length dcid \<le> length ?h" "length ?h \<le> 1 + length dcid + 4" "1 + length dcid + 4 \<le> length ?h + length payload"
    by simp_all
  have w: "length ?w = 5 + length dcid + length payload + 16"
    using aesp.wire_parts(2)[OF c, where keys = keys and hp = hp and pn = pn and bits = QUIC_HP_SHORT_MASK] by simp
  have b: "(r, out') = (if 5 + length dcid + length payload + 16 > cap then (None, overwrite out 0 ?h) else (Some (length ?w), overwrite out 0 ?w))"
    using onertt_build_eq[OF assms(1) _ _ assms(4,5), where keys = keys and hp = hp and pn = pn and payload = payload and payload_len = "length payload"] assms(3,6) w by simp
  show ?thesis
  proof (cases "5 + length dcid + length payload + 16 \<le> cap")
    case True
    then have r: "r = Some (length ?w)" "out' = overwrite out 0 ?w" using b by simp_all
    then have "take (length ?w) out' = ?w" by (simp add: overwrite_0)
    then show ?thesis using onertt_open_wire[OF assms(1-3), where keys = keys and hp = hp and pn = pn] True r(1) w by auto
  next
    case False
    then have r: "r = None" "out' = overwrite out 0 ?h" using b by simp_all
    then show ?thesis using False by (simp add: overwrite_0)
  qed
qed

theorem onertt_packet_roundtrip_witness:
  "\<exists>n out'. quic_hspkt_onertt_build \<lparr>ik_key = replicate 16 1, ik_iv = replicate 12 2, ik_hp = replicate 16 3\<rparr> (quic_aes128_init (replicate 16 3))
      [8, 9] 2 0x100000005 [1, 0] 2 (replicate 40 0) 40 = (Some n, out')
    \<and> fst (quic_hspkt_onertt_open \<lparr>ik_key = replicate 16 1, ik_iv = replicate 12 2, ik_hp = replicate 16 3\<rparr> (quic_aes128_init (replicate 16 3)) (take n out' @ [7]) n 2
         0x100000009) = Some ([1, 0], 2)"
proof -
  let ?k = "\<lparr>ik_key = replicate 16 1, ik_iv = replicate 12 2, ik_hp = replicate 16 3\<rparr>" and ?hp = "quic_aes128_init (replicate 16 3)"
  obtain r out' where e: "quic_hspkt_onertt_build ?k ?hp [8, 9] (of_nat (length [8, 9 :: u8])) 0x100000005 [1, 0] (length [1, 0 :: u8]) (replicate 40 0) 40 = (r, out')"
    by fastforce
  have p: "length [8, 9 :: u8] \<le> 20" "[1, 0 :: u8] \<noteq> []" "length [1, 0 :: u8] < 2 ^ 62" "40 \<le> length (replicate 40 (0 :: u8))"
    "5 + length [8, 9 :: u8] \<le> length (replicate 40 (0 :: u8))" by simp_all
  note t = onertt_packet_roundtrip[OF p e]
  have r: "r = Some 25" using t by simp
  have "fst (quic_hspkt_onertt_open ?k ?hp (take 25 out' @ [7]) 25 (of_nat (length [8, 9 :: u8])) 0x100000009) = Some ([1, 0], length [1, 0 :: u8])"
    using t[THEN conjunct2, THEN conjunct2, rule_format, of 25 "0x100000009" "[7]"] r by simp
  then show ?thesis using e r by (auto simp: numeral_2_eq_2)
qed

text \<open>C7: application data sent on a stream in a 1-RTT packet is received with its stream ID, offset 0,
  bytes and FIN flag, for every packet number up to half the window.\<close>

theorem appdata_delivered:
  assumes "length dcid \<le> 20" "cap \<le> length out" "5 + length dcid \<le> length out" "unat pn \<le> 2 ^ 31"
    and "stream_id \<le> QUIC_VARINT_MAX" "length data \<le> 1400" "1460 \<le> cap"
  shows "\<exists>n out'. quic_appdata_send keys hp dcid (of_nat (length dcid)) pn stream_id data (length data) fin out cap = (Some n, out')
    \<and> fst (quic_appdata_recv keys hp (take n out') n (of_nat (length dcid))) = Some (stream_id, 0, data, of_nat (length data), fin)"
proof -
  define f where "f = \<lparr>sf_stream_id = stream_id, sf_offset = 0, sf_length = of_nat (length data), sf_data = data, sf_fin = if fin then 1 else 0\<rparr>"
  let ?fw = "stream_wire f"
  have ud: "unat (of_nat (length data) :: u64) = length data" using assms(6) by (simp add: unat_of_nat)
  have wf: "stream_wf f" "stream_ok f" using assms(5,6) ud by (auto simp: stream_wf_def stream_ok_def f_def varint_max_unat)
  have "quic_varint_len v \<le> 8" for v by (simp add: varint_len_unat)
  from this[of stream_id] this[of "of_nat (length data)"] have fl: "length ?fw \<le> 17 + length data" by (simp add: stream_wire_def f_def)
  have ne: "?fw \<noteq> []" using wf(2) by (rule stream.wire_nonempty)
  have "quic_frame_put_stream (replicate 1500 0) 1500 f = (length ?fw, overwrite (replicate 1500 0) 0 ?fw)"
    using wf fl assms(6) by (intro stream.enc_fits) simp_all
  then have sf: "quic_appdata_stream_frame stream_id 0 data (length data) fin (replicate 1500 0) 1500 = (Some (length ?fw), overwrite (replicate 1500 0) 0 ?fw)"
    using ne by (simp add: quic_appdata_stream_frame_def f_def[symmetric])
  let ?h = "onertt_header dcid pn"
  define w where "w = aesp.wire keys hp QUIC_HP_SHORT_MASK ?h (1 + length dcid) pn ?fw"
  have tk: "take (length ?fw) (overwrite (replicate 1500 0) 0 ?fw) = ?fw" by (simp add: overwrite_0)
  have c: "0 < 1 + length dcid" "1 + length dcid \<le> length ?h" "length ?h \<le> 1 + length dcid + 4" "1 + length dcid + 4 \<le> length ?h + length ?fw"
    by simp_all
  have wl: "length w = 5 + length dcid + length ?fw + 16"
    using aesp.wire_parts(2)[OF c, where keys = keys and hp = hp and pn = pn and bits = QUIC_HP_SHORT_MASK] by (simp add: w_def)
  have s: "quic_appdata_send keys hp dcid (of_nat (length dcid)) pn stream_id data (length data) fin out cap = (Some (length w), overwrite out 0 w)"
    using onertt_build_eq[OF assms(1) _ _ assms(2,3), of "length ?fw" "overwrite (replicate 1500 0) 0 ?fw" keys hp pn] fl assms(1,6,7) tk wl
    by (simp add: quic_appdata_send_def sf w_def)
  have "fst (quic_hspkt_onertt_open keys hp (w @ []) (length w) (of_nat (length dcid)) 0) = Some (?fw, length ?fw)"
    unfolding w_def using fl assms(4,6) ne by (intro onertt_open_wire[OF assms(1)]) simp_all
  then obtain x where o: "quic_hspkt_onertt_open keys hp w (length w) (of_nat (length dcid)) 0 = (Some (?fw, length ?fw), x)"
    by (metis append_Nil2 prod.collapse)
  have "quic_frame_get_stream (?fw @ []) (length ?fw) = Some (f, length ?fw)"
    using wf fl assms(6) by (intro stream.dec_wire) simp_all
  then have "fst (quic_appdata_recv keys hp w (length w) (of_nat (length dcid))) = Some (stream_id, 0, data, of_nat (length data), fin)"
    using ne by (simp add: quic_appdata_recv_def open_and_decode_def o f_def)
  then show ?thesis using s by (intro exI[of _ "length w"] exI[of _ "overwrite out 0 w"]) (simp add: overwrite_0)
qed

theorem appdata_delivered_witness:
  "\<exists>n out'. quic_appdata_send \<lparr>ik_key = replicate 16 1, ik_iv = replicate 12 2, ik_hp = replicate 16 3\<rparr> (quic_aes128_init (replicate 16 3)) [8, 9] (of_nat (length [8, 9 :: u8]))
      7 4 [1, 2, 3] (length [1, 2, 3 :: u8]) True (replicate 1500 0) 1500 = (Some n, out')
    \<and> fst (quic_appdata_recv \<lparr>ik_key = replicate 16 1, ik_iv = replicate 12 2, ik_hp = replicate 16 3\<rparr> (quic_aes128_init (replicate 16 3)) (take n out') n
         (of_nat (length [8, 9 :: u8]))) = Some (4, 0, [1, 2, 3], of_nat (length [1, 2, 3 :: u8]), True)"
  by (rule appdata_delivered) (simp_all add: QUIC_VARINT_MAX_def)

section \<open>Initial packets\<close>

lemma crypto_frames_single:
  "ch \<noteq> [] \<Longrightarrow> crypto_frames base (length ch) ch = [\<lparr>cr_offset = base, cr_length = of_nat (length ch), cr_data = ch\<rparr>]"
  by (subst crypto_frames.simps) simp

lemma build_payload_eq:
  assumes "ch \<noteq> []" "length ch \<le> 1190" "target \<le> 1200"
  defines "W \<equiv> crypto_wire \<lparr>cr_offset = 0, cr_length = of_nat (length ch), cr_data = ch\<rparr>"
  shows "length W \<le> 1194" "build_payload ch (length ch) target (replicate 1200 0) 1200 = (Some (max (length W) target), overwrite (replicate 1200 0) 0 W)"
proof -
  have u: "unat (of_nat (length ch) :: u64) = length ch" using assms(2) by (simp add: unat_of_nat)
  have "quic_varint_len (of_nat (length ch)) \<le> 2" using assms(2) by (simp add: varint_len_unat u)
  then show w: "length W \<le> 1194" using assms(2) by (simp add: W_def crypto_wire_def u varint_len_unat)
  have "crypto_bytes (crypto_frames (0 + of_nat 0) (length ch) (drop 0 ch)) = W"
    using assms(1) by (simp add: crypto_frames_single crypto_bytes_def W_def)
  then have e: "quic_crypto_stream_emit ch (length ch) 0 (length ch) (replicate 1200 0) 1200 = (True, overwrite (replicate 1200 0) 0 W, length W)"
    using emit_loop_eq[of "length ch" ch "length ch" 0 1200 0 0 "replicate 1200 0" W] assms(1,2) w by (simp add: quic_crypto_stream_emit_def)
  have z: "overwrite (overwrite (replicate 1200 0) 0 W) (length W) (replicate k 0) = overwrite (replicate 1200 0) 0 W"
    if "length W + k \<le> 1200" for k
  proof -
    have "overwrite (replicate 1200 0) 0 W = W @ replicate k 0 @ replicate (1200 - length W - k) 0"
      using that by (simp add: overwrite_0 replicate_add[symmetric])
    then show ?thesis by (simp add: overwrite_def)
  qed
  show "build_payload ch (length ch) target (replicate 1200 0) 1200 = (Some (max (length W) target), overwrite (replicate 1200 0) 0 W)"
    using assms(3) w z by (auto simp: build_payload_def e initpkt_min_usz_def Let_def max_def)
qed

lemma length_initial_header:
  assumes "length dcid \<le> 20" "length scid \<le> 20" "44 \<le> n" "n < 16364"
  shows "length (tx_header b dcid scid True [] n pn) = 14 + length dcid + length scid"
proof -
  have "quic_varint_len (lhdr_remaining n 4) = 2" using remaining_unat[of n] assms by (simp add: varint_len_unat)
  then show ?thesis
    using assms(1,2) by (simp add: tx_header_def lhdr_wire_def length_invariant_wire token_wire_def varint_len_unat)
qed



end
