(* ===== verification/Spec2Isabelle.thy ===== *)
theory Spec2Isabelle
  imports Packet_Number Frame_Dispatch Coalesce Retry_Vneg Streams Recovery Retransmit Crypto_Stream Conn_Paths Packet_Build
begin

text \<open>
  A verification of the transport core of \<^verbatim>\<open>wired\<close>, a QUIC stack in C without a C library (\<^verbatim>\<open>src/src/\<close>).

  \<^bold>\<open>The program.\<close> Bytes come in as UDP datagrams (\<^verbatim>\<open>transport/io\<close>), are split into packets, opened, and walked frame by
  frame (\<^verbatim>\<open>transport/packet\<close>); frames update streams and flow control (\<^verbatim>\<open>transport/stream\<close>), the packet number spaces and the
  connection (\<^verbatim>\<open>transport/conn\<close>), and loss recovery (\<^verbatim>\<open>transport/recovery\<close>). Sending goes the other way. The ciphers and hashes are
  under \<^verbatim>\<open>crypto/symmetric\<close> and \<^verbatim>\<open>crypto/kdf\<close>; TLS, certificates and HTTP/3 lie above.

  \<^bold>\<open>Conventions.\<close> \<^verbatim>\<open>u8\<close> to \<^verbatim>\<open>u64\<close> are words of their width and wrap. \<^verbatim>\<open>usz\<close> is a natural number; where the code
  adds or subtracts sizes without a guard that excludes it, the wrap at 64 bits is written out (\<open>usz_add\<close>, \<open>usz_sub\<close>). A pointer is
  the list of bytes from there on, or an offset into a buffer; reading past the end of a list gives 0 (\<open>rd\<close>), and the theorems assume the
  buffers that the C callers pass. A structure is a record, an enumeration a datatype. A function that changes a structure or buffer returns the changed one;
  a result flag with out-parameters is an option; an \<^verbatim>\<open>int\<close> flag is a \<open>bool\<close>. A loop over an index is a fold or a recursion; the loops that are not
  structural are \<open>function\<close>s with a termination proof, so that every modelled routine is total and no fuel is needed.

  \<^bold>\<open>Theories.\<close>
  \<^item> \<^verbatim>\<open>Wired_Prelude\<close>: the types, the byte and number helpers of \<^verbatim>\<open>common/bytes/util\<close>, and the list and word lemmas that the others share.
  \<^item> \<^verbatim>\<open>Varint\<close>, \<^verbatim>\<open>Packet_Number\<close>: \<^verbatim>\<open>varint.c\<close>, \<^verbatim>\<open>pnum.c\<close>, \<^verbatim>\<open>pnlen.c\<close>. A truncated packet number is recovered exactly within half
    the window of its length.
  \<^item> \<^verbatim>\<open>Wire_Format\<close>: the contract of an encoder and its decoder as a locale, \<open>wire_codec\<close>, and the calculus that composes writers and
    readers. \<^verbatim>\<open>Frames\<close> and \<^verbatim>\<open>Ack_Frame\<close> interpret it for the frame codecs of \<^verbatim>\<open>packet/frame/frame\<close>.
  \<^item> \<^verbatim>\<open>Frame_Dispatch\<close>: frame classification, the permission table and checks, and \<^verbatim>\<open>framewalk.c\<close>. The walk stays inside any payload and visits
    exactly the leading frames of the kinds that it can measure.
  \<^item> \<^verbatim>\<open>Packet_Header\<close>, \<^verbatim>\<open>Coalesce\<close>, \<^verbatim>\<open>Retry_Vneg\<close>: \<^verbatim>\<open>packet/header\<close> and the packing and splitting of \<^verbatim>\<open>io/udp/udploop\<close>. Headers
    and Retry and Version Negotiation packets round-trip; splitting a datagram undoes packing it for packets with a Length field.
  \<^item> \<^verbatim>\<open>Fsm\<close>: the state machine table \<^verbatim>\<open>fsm.c\<close>, with locales for tables and for tables whose events raise a rank. \<^verbatim>\<open>Streams\<close>
    and \<^verbatim>\<open>Conn_Lifecycle\<close> interpret them. \<^verbatim>\<open>Streams\<close> models \<^verbatim>\<open>transport/stream\<close>: reading refines reading the bytes in order, and flow control
    holds under every interleaving.
  \<^item> \<^verbatim>\<open>Ack_Tracking\<close>, \<^verbatim>\<open>Recovery\<close>, \<^verbatim>\<open>Retransmit\<close>: the received window, ACK generation and processing, the tables of sent packets, loss detection, RTT, probe
    timeouts, congestion control and the bytes kept for retransmission (\<^verbatim>\<open>conn/pnspace\<close>, \<^verbatim>\<open>transport/recovery\<close>).
  \<^item> \<^verbatim>\<open>Crypto_Stream\<close>: the CRYPTO frames of the handshake (\<^verbatim>\<open>conn/pnspace/crypto_stream\<close>), delivered through the frame walk and reassembly.
  \<^item> \<^verbatim>\<open>Conn_Lifecycle\<close>, \<^verbatim>\<open>Conn_Paths\<close>: phases, packet numbers, closing and idle timeout (\<^verbatim>\<open>conn/lifecycle\<close>); connection IDs, path
    validation, migration, path MTU and the anti-amplification gate (\<^verbatim>\<open>conn/cid\<close>).
  \<^item> \<^verbatim>\<open>Hash\<close>, \<^verbatim>\<open>Aead\<close>, \<^verbatim>\<open>Aes_Gcm\<close>, \<^verbatim>\<open>Chacha_Poly\<close>: the hashes, HMAC, HKDF and the two AEAD ciphers against independently written
    definitions of the standards. The locales \<open>block_hash\<close>, \<open>stream_cipher\<close> and \<open>aead_cipher\<close> carry the streaming, key-stream and authentication arguments and are
    interpreted for both hashes and both ciphers. That an AEAD cannot be forged is not a statement about the code and is not assumed.
  \<^item> \<^verbatim>\<open>Packet_Protection\<close>, \<^verbatim>\<open>Packet_Build\<close>: \<^verbatim>\<open>packet/protect\<close>, \<^verbatim>\<open>packet/build\<close>, the packet pipelines, the Initial keys and
    \<^verbatim>\<open>stream/data/appdata\<close>. The locale \<open>packet_cipher\<close> carries the argument that removing protection inverts applying it, for the AES pipeline
    and the suite-aware one. The theorems follow handshake bytes into an Initial datagram and application data into a 1-RTT
    packet, and out again at the receiver.

  \<^bold>\<open>What the theorems do not cover.\<close> Statements that hold only on a part of the inputs say so in their text, and the lemmas next to them show what
  the code does outside: \<open>coalesce_without_length\<close> (packets without a Length field are cut wrongly), \<open>final_size_wraps\<close> (an
  unguarded sum), \<open>recovery_boundary_halved_again\<close> (two routines disagree on the first instant of a recovery period), \<open>rtt_delay_wraps\<close> (ACK delays
  near 2^64). The theorems on the invariant header builder, Poly1305, the table of sent packets and migration state the code's deviations themselves.

  \<^bold>\<open>Bounds.\<close> Buffers are shorter than 2^63 bytes, packet numbers and offsets that come from the wire are below 2^62, and capacities are those of the code
  (reassembly 4096, retransmission ring 64 slots of 1200 bytes, ACK ranges 32). Memory that the code leaves uninitialised is an argument of the
  model where it can be observed, and zeros for local buffers that are written before they are read.

  \<^bold>\<open>Not modelled.\<close> Sockets, polling, clock and random numbers (system calls); the connection drivers (\<^verbatim>\<open>conn/loop\<close>, \<^verbatim>\<open>lifecycle/connection\<close>,
  \<^verbatim>\<open>endpoint\<close>, \<^verbatim>\<open>session\<close>), which join the parts above with sockets and TLS; the TLS handshake and key schedule, public-key cryptography and
  certificates, each a development of its own; version selection; HTTP/3, QPACK and the DATAGRAM extension, which the transport does not depend on.
  The scratch buffer of \<^verbatim>\<open>chapoly_tag\<close> is unbounded in the model; the C buffer holds 3032 bytes.
\<close>

end
